(* ===== verification/Cyclone_Prelude.thy ===== *)
theory Cyclone_Prelude
  imports Main "HOL-Library.Word"
begin

unbundle bit_operations_syntax

text \<open>
  Shared vocabulary of the development: fixed-width integer types, byte strings and the
  little-endian layout every on-disk integer uses (the library memcpy's native integers and the
  supported hosts are little-endian), spans of a byte buffer, the error type of the public API
  (\<^verbatim>\<open>include/cyclone/error.hpp\<close>) and the generic lemmas on them that the component theories
  rely on.  The collections declared here are filled by the component theories: \<open>word_bit\<close> holds
  the bit-level characterisations of the packed-word accessors, \<open>layout\<close> the byte-layout facts.
\<close>

named_theorems word_bit \<open>bit-level characterisations of packed-word accessors\<close>
named_theorems layout \<open>lengths and positions in byte layouts\<close>

type_synonym byte = "8 word"
type_synonym bytes = "byte list"
type_synonym u8 = "8 word"
type_synonym u16 = "16 word"
type_synonym u32 = "32 word"
type_synonym u64 = "64 word"

text \<open>The enumerators of \<open>CacheError\<close>, in declaration order.\<close>

datatype cache_error =
    Success | NotFound | Exists | NoSpace | IoError | Corrupted | InvalidKey | InvalidArgument
  | NotInitialized | AlreadyOpen | Closed | Busy | Timeout | PluginError | InternalError
  | TooManyAlternates | AlternateNotFound | ChainCorrupted | IncompatibleVersion
  | OptimizationQueueFull | OptimizationCancelled | TransformFailed | NotOwned
  | InvalidConfiguration | ResetRefusedLivePeer | ObjectTooLarge

text \<open>\<open>std::expected<T, CacheError>\<close>.\<close>

type_synonym 'a expected = "cache_error + 'a"

section \<open>Byte buffers\<close>

text \<open>
  \<open>to_le n w\<close> is the \<open>memcpy\<close> of the low \<open>n\<close> bytes of an integer into a buffer on a
  little-endian host, \<open>from_le\<close> the \<open>memcpy\<close> back; \<open>put_at\<close> is a \<open>memcpy\<close> into the middle
  of a buffer and \<open>subspan\<close> is \<open>std::span::subspan\<close>.
\<close>

definition to_le :: "nat \<Rightarrow> 'a::len word \<Rightarrow> bytes" where
  "to_le n w = map (\<lambda>i. ucast (drop_bit (8 * i) w)) [0..<n]"

fun from_le :: "bytes \<Rightarrow> 'a::len word" where
  "from_le [] = 0"
| "from_le (b # bs) = ucast b OR push_bit 8 (from_le bs)"

definition put_at :: "nat \<Rightarrow> 'b list \<Rightarrow> 'b list \<Rightarrow> 'b list" where
  "put_at off src buf = take off buf @ src @ drop (off + length src) buf"

definition subspan :: "nat \<Rightarrow> nat \<Rightarrow> 'b list \<Rightarrow> 'b list" where
  "subspan off len buf = take len (drop off buf)"

lemma length_to_le [simp, layout]: "length (to_le n w) = n"
  by (simp add: to_le_def)

lemma nth_to_le [simp]: "i < n \<Longrightarrow> to_le n w ! i = ucast (drop_bit (8 * i) w)"
  by (simp add: to_le_def)

lemma bit_from_le [word_bit]:
  "bit (from_le bs :: 'a::len word) k \<longleftrightarrow>
     k < LENGTH('a) \<and> k div 8 < length bs \<and> bit (bs ! (k div 8)) (k mod 8)"
proof (induction bs arbitrary: k)
  case Nil
  then show ?case by simp
next
  case (Cons b bs)
  show ?case
  proof (cases "k < 8")
    case True
    then show ?thesis
      by (auto simp: bit_or_iff bit_push_bit_iff bit_ucast_iff dest: bit_imp_le_length)
  next
    case False
    then obtain m where m: "k = m + 8"
      by (metis add.commute le_add_diff_inverse not_less)
    have nb: "\<not> bit b k"
      using False bit_imp_le_length[of b k] by auto
    have d: "(m + 8) div 8 = Suc (m div 8)" by simp
    show ?thesis
      using nb by (auto simp: m d bit_or_iff bit_push_bit_iff bit_ucast_iff Cons.IH
          simp del: div_add_self2)
  qed
qed

lemma from_le_to_le [simp]:
  assumes "LENGTH('a) \<le> 8 * n"
  shows "from_le (to_le n (w :: 'a::len word)) = w"
proof (rule bit_word_eqI)
  fix k
  assume k: "k < LENGTH('a)"
  then have "k div 8 < n"
    using assms by (simp add: div_less_iff_less_mult algebra_simps)
  then show "bit (from_le (to_le n w) :: 'a word) k \<longleftrightarrow> bit w k"
    using k by (auto simp: bit_from_le bit_ucast_iff bit_drop_bit_eq)
qed

lemma to_le_from_le:
  assumes "8 * length bs \<le> LENGTH('a)"
  shows "to_le (length bs) (from_le bs :: 'a::len word) = bs"
proof (rule nth_equalityI)
  show "length (to_le (length bs) (from_le bs :: 'a word)) = length bs"
    by simp
next
  fix i
  assume "i < length (to_le (length bs) (from_le bs :: 'a word))"
  then have i: "i < length bs" by simp
  show "to_le (length bs) (from_le bs :: 'a word) ! i = bs ! i"
  proof (rule bit_word_eqI)
    fix k
    assume k: "k < LENGTH(8)"
    have "(8 * i + k) div 8 = i" "(8 * i + k) mod 8 = k" "8 * i + k < LENGTH('a)"
      using k i assms by auto
    then show "bit (to_le (length bs) (from_le bs :: 'a word) ! i) k \<longleftrightarrow> bit (bs ! i) k"
      using i k by (auto simp: bit_ucast_iff bit_drop_bit_eq bit_from_le)
  qed
qed

lemma length_put_at [simp, layout]:
  "off + length src \<le> length buf \<Longrightarrow> length (put_at off src buf) = length buf"
  by (simp add: put_at_def)

lemma nth_put_at:
  assumes "off + length src \<le> length buf" and "i < length buf"
  shows "put_at off src buf ! i =
    (if off \<le> i \<and> i < off + length src then src ! (i - off) else buf ! i)"
  using assms by (auto simp: put_at_def nth_append)

lemma put_at_append:
  "off + length src \<le> length xs \<Longrightarrow> put_at off src (xs @ ys) = put_at off src xs @ ys"
  by (simp add: put_at_def)

lemma length_subspan [simp, layout]: "length (subspan off len buf) = min len (length buf - off)"
  by (simp add: subspan_def)

lemma subspan_append_left:
  "off + len \<le> length xs \<Longrightarrow> subspan off len (xs @ ys) = subspan off len xs"
  by (simp add: subspan_def)

lemma subspan_append_right:
  "length xs \<le> off \<Longrightarrow> subspan off len (xs @ ys) = subspan (off - length xs) len ys"
  by (simp add: subspan_def)

lemma nth_subspan: "i < len \<Longrightarrow> off + i < length buf \<Longrightarrow> subspan off len buf ! i = buf ! (off + i)"
  by (simp add: subspan_def)

lemma unat_eq_oneD:
  fixes d :: "'a::len word"
  assumes u: "unat d = 1"
  shows "d = 1"
proof -
  have "d = of_nat (unat d)" by simp
  also have "\<dots> = 1" by (simp only: u of_nat_1)
  finally show ?thesis .
qed

end
