(* ===== verification/Crc32c.thy ===== *)
theory Crc32c
  imports Cyclone_Prelude
begin

text \<open>
  The document checksum, CRC-32C: src/src/core/crc32c.cpp.  The table-driven routine
  (slice by 16) and the hardware routines (one chain, or three interleaved chains
  stitched together by GF(2) matrices) are modelled as the code has them and shown to
  compute the bit-serial CRC of the polynomial.  A byte range is an address, whose
  alignment the routines look at, and the list of its bytes.  The CRC instructions of
  the processor are arguments of the hardware routines.
\<close>

unbundle bit_operations_syntax

section \<open>The bit-serial reference\<close>

definition kPolyReflected :: u32 where "kPolyReflected = 0x82F63B78"

definition crc_bit :: "u32 \<Rightarrow> u32" where
  "crc_bit c = (if c AND 1 \<noteq> 0 then kPolyReflected XOR drop_bit 1 c else drop_bit 1 c)"

text \<open>Advance the register over n zero bits, over a byte, over bytes.\<close>

definition zeros :: "nat \<Rightarrow> u32 \<Rightarrow> u32" where
  "zeros n c = (crc_bit ^^ n) c"

definition ref_byte :: "u32 \<Rightarrow> byte \<Rightarrow> u32" where
  "ref_byte c b = zeros 8 (c XOR ucast b)"

definition crc_ref :: "u32 \<Rightarrow> bytes \<Rightarrow> u32" where
  "crc_ref c bs = foldl ref_byte c bs"

section \<open>Slice by 16\<close>

fun slice_entry :: "nat \<Rightarrow> u32 \<Rightarrow> u32" where
  "slice_entry 0 n = (crc_bit ^^ 8) n"
| "slice_entry (Suc s) n =
     (let prev = slice_entry s n in drop_bit 8 prev XOR slice_entry 0 (prev AND 0xFF))"

definition kSlice :: "u32 list list" where
  "kSlice = map (\<lambda>s. map (\<lambda>n. slice_entry s (of_nat n)) [0 ..< 256]) [0 ..< 16]"

definition slice_lookup :: "nat \<Rightarrow> u32 \<Rightarrow> u32" where
  "slice_lookup s x = kSlice ! s ! unat (x AND 0xFF)"

definition load_le32 :: "bytes \<Rightarrow> u32" where
  "load_le32 p = from_le (take 4 p)"

definition load_le64 :: "bytes \<Rightarrow> u64" where
  "load_le64 p = from_le (take 8 p)"

definition crc_byte :: "u32 \<Rightarrow> byte \<Rightarrow> u32" where
  "crc_byte crc b = slice_lookup 0 (crc XOR ucast b) XOR drop_bit 8 crc"

text \<open>The unaligned head: bytes up to the next 8-byte boundary of the address.\<close>

fun crc_head :: "(u32 \<Rightarrow> byte \<Rightarrow> u32) \<Rightarrow> u32 \<Rightarrow> nat \<Rightarrow> bytes \<Rightarrow> u32 \<times> bytes" where
  "crc_head step crc a [] = (crc, [])"
| "crc_head step crc a (b # p) =
     (if a mod 8 \<noteq> 0 then crc_head step (step crc b) (a + 1) p else (crc, b # p))"

definition slice_block16 :: "u32 \<Rightarrow> bytes \<Rightarrow> u32" where
  "slice_block16 crc p =
     (let w0 = load_le32 p XOR crc; w1 = load_le32 (drop 4 p);
          w2 = load_le32 (drop 8 p); w3 = load_le32 (drop 12 p)
      in slice_lookup 15 w0 XOR slice_lookup 14 (drop_bit 8 w0) XOR
         slice_lookup 13 (drop_bit 16 w0) XOR slice_lookup 12 (drop_bit 24 w0) XOR
         slice_lookup 11 w1 XOR slice_lookup 10 (drop_bit 8 w1) XOR
         slice_lookup 9 (drop_bit 16 w1) XOR slice_lookup 8 (drop_bit 24 w1) XOR
         slice_lookup 7 w2 XOR slice_lookup 6 (drop_bit 8 w2) XOR
         slice_lookup 5 (drop_bit 16 w2) XOR slice_lookup 4 (drop_bit 24 w2) XOR
         slice_lookup 3 w3 XOR slice_lookup 2 (drop_bit 8 w3) XOR
         slice_lookup 1 (drop_bit 16 w3) XOR slice_lookup 0 (drop_bit 24 w3))"

definition slice_block8 :: "u32 \<Rightarrow> bytes \<Rightarrow> u32" where
  "slice_block8 crc p =
     (let lo = load_le32 p XOR crc; hi = load_le32 (drop 4 p)
      in slice_lookup 7 lo XOR slice_lookup 6 (drop_bit 8 lo) XOR
         slice_lookup 5 (drop_bit 16 lo) XOR slice_lookup 4 (drop_bit 24 lo) XOR
         slice_lookup 3 hi XOR slice_lookup 2 (drop_bit 8 hi) XOR
         slice_lookup 1 (drop_bit 16 hi) XOR slice_lookup 0 (drop_bit 24 hi))"

text \<open>A loop that consumes blocks of k + 1 bytes while a whole block is left.\<close>

function block_loop :: "nat \<Rightarrow> (u32 \<Rightarrow> bytes \<Rightarrow> u32) \<Rightarrow> u32 \<Rightarrow> bytes \<Rightarrow> u32 \<times> bytes" where
  "block_loop k body crc p =
     (if length p \<ge> Suc k then block_loop k body (body crc p) (drop (Suc k) p) else (crc, p))"
  by pat_completeness auto
termination by (relation "measure (\<lambda>(k, body, crc, p). length p)") auto

declare block_loop.simps [simp del]

definition slice_by_16_impl :: "u32 \<Rightarrow> nat \<Rightarrow> bytes \<Rightarrow> u32" where
  "slice_by_16_impl crc a p =
     (case crc_head crc_byte crc a p of (crc, p) \<Rightarrow>
      case block_loop 15 slice_block16 crc p of (crc, p) \<Rightarrow>
        let (crc, p) = (if length p \<ge> 8 then (slice_block8 crc p, drop 8 p) else (crc, p))
        in foldl crc_byte crc p)"

section \<open>GF(2) operators\<close>

type_synonym gf2_matrix = "u32 list"

fun gf2_loop :: "gf2_matrix \<Rightarrow> u32 \<Rightarrow> u32 \<Rightarrow> u32" where
  "gf2_loop [] vec s = s"
| "gf2_loop (m # ms) vec s =
     (if vec = 0 then s
      else gf2_loop ms (drop_bit 1 vec) (if vec AND 1 \<noteq> 0 then s XOR m else s))"

definition gf2_apply :: "gf2_matrix \<Rightarrow> u32 \<Rightarrow> u32" where
  "gf2_apply mat vec = gf2_loop mat vec 0"

definition gf2_compose :: "gf2_matrix \<Rightarrow> gf2_matrix \<Rightarrow> gf2_matrix" where
  "gf2_compose a b = map (gf2_apply a) b"

definition zero_bit_operator :: gf2_matrix where
  "zero_bit_operator = kPolyReflected # map (\<lambda>n. push_bit n 1) [0 ..< 31]"

function zero_bytes_loop :: "nat \<Rightarrow> gf2_matrix \<Rightarrow> gf2_matrix \<Rightarrow> gf2_matrix" where
  "zero_bytes_loop bits base result =
     (if bits = 0 then result
      else zero_bytes_loop (bits div 2) (gf2_compose base base)
             (if bits mod 2 \<noteq> 0 then gf2_compose base result else result))"
  by pat_completeness auto
termination by (relation "measure (\<lambda>(bits, base, result). bits)") auto

declare zero_bytes_loop.simps [simp del]

definition zero_bytes_operator :: "nat \<Rightarrow> gf2_matrix" where
  "zero_bytes_operator n = zero_bytes_loop (n * 8) zero_bit_operator (map (\<lambda>k. push_bit k 1) [0 ..< 32])"

definition make_shift_table :: "nat \<Rightarrow> u32 list list" where
  "make_shift_table n =
     (let op = zero_bytes_operator n
      in map (\<lambda>k. map (\<lambda>i. gf2_apply op (push_bit (8 * k) (of_nat i))) [0 ..< 256]) [0 ..< 4])"

definition kLong :: nat where "kLong = 8192"
definition kShort :: nat where "kShort = 256"

definition shift_crc :: "u32 list list \<Rightarrow> u32 \<Rightarrow> u32" where
  "shift_crc t crc =
     t ! 0 ! unat (crc AND 0xFF) XOR t ! 1 ! unat (drop_bit 8 crc AND 0xFF) XOR
     t ! 2 ! unat (drop_bit 16 crc AND 0xFF) XOR t ! 3 ! unat (drop_bit 24 crc AND 0xFF)"

section \<open>Hardware routines\<close>

text \<open>
  The processor's instructions are b8 (one byte), w32 (four) and d64 (eight); the
  SSE4.2 one works on 64-bit registers, whose low half is the CRC.
\<close>

definition sse_d64 :: "(u64 \<Rightarrow> u64 \<Rightarrow> u64) \<Rightarrow> u32 \<Rightarrow> u64 \<Rightarrow> u32" where
  "sse_d64 mm_crc32_u64 crc w = ucast (mm_crc32_u64 (ucast crc) w)"

definition sse42_tail :: "(u32 \<Rightarrow> byte \<Rightarrow> u32) \<Rightarrow> (u32 \<Rightarrow> u64 \<Rightarrow> u32) \<Rightarrow> u32 \<Rightarrow> bytes \<Rightarrow> u32" where
  "sse42_tail b8 d64 crc p =
     (case block_loop 7 (\<lambda>c p. d64 c (load_le64 p)) crc p of (crc, p) \<Rightarrow> foldl b8 crc p)"

definition arm_tail :: "(u32 \<Rightarrow> byte \<Rightarrow> u32) \<Rightarrow> (u32 \<Rightarrow> u32 \<Rightarrow> u32) \<Rightarrow> (u32 \<Rightarrow> u64 \<Rightarrow> u32) \<Rightarrow> u32 \<Rightarrow> bytes \<Rightarrow> u32" where
  "arm_tail b8 w32 d64 crc p =
     (case block_loop 7 (\<lambda>c p. d64 c (load_le64 p)) crc p of (crc, p) \<Rightarrow>
      let (crc, p) = (if length p \<ge> 4 then (w32 crc (load_le32 p), drop 4 p) else (crc, p))
      in foldl b8 crc p)"

text \<open>Three registers over three adjacent blocks of L bytes, n words each.\<close>

fun three_lanes :: "(u32 \<Rightarrow> u64 \<Rightarrow> u32) \<Rightarrow> nat \<Rightarrow> nat \<Rightarrow> u32 \<Rightarrow> u32 \<Rightarrow> u32 \<Rightarrow> bytes \<Rightarrow> u32 \<times> u32 \<times> u32" where
  "three_lanes d64 L 0 c0 c1 c2 q = (c0, c1, c2)"
| "three_lanes d64 L (Suc n) c0 c1 c2 q =
     three_lanes d64 L n (d64 c0 (load_le64 q)) (d64 c1 (load_le64 (drop L q)))
       (d64 c2 (load_le64 (drop (2 * L) q))) (drop 8 q)"

definition three_way_block :: "(u32 \<Rightarrow> u64 \<Rightarrow> u32) \<Rightarrow> nat \<Rightarrow> u32 list list \<Rightarrow> u32 \<Rightarrow> bytes \<Rightarrow> u32" where
  "three_way_block d64 L t crc p =
     (case three_lanes d64 L (L div 8) crc 0 0 p of (c0, c1, c2) \<Rightarrow>
      let crc = shift_crc t c0 XOR c1 in shift_crc t crc XOR c2)"

definition sse42_1way_impl where
  "sse42_1way_impl b8 d64 crc a p =
     (case crc_head b8 crc a p of (crc, p) \<Rightarrow> sse42_tail b8 d64 crc p)"

definition sse42_3way_impl where
  "sse42_3way_impl b8 d64 crc a p =
     (case crc_head b8 crc a p of (crc, p) \<Rightarrow>
      case block_loop (3 * kLong - 1) (three_way_block d64 kLong (make_shift_table kLong)) crc p of (crc, p) \<Rightarrow>
      case block_loop (3 * kShort - 1) (three_way_block d64 kShort (make_shift_table kShort)) crc p of (crc, p) \<Rightarrow>
        sse42_tail b8 d64 crc p)"

definition arm_1way_impl where
  "arm_1way_impl b8 w32 d64 crc a p =
     (case crc_head b8 crc a p of (crc, p) \<Rightarrow> arm_tail b8 w32 d64 crc p)"

definition arm_3way_impl where
  "arm_3way_impl b8 w32 d64 crc a p =
     (case crc_head b8 crc a p of (crc, p) \<Rightarrow>
      case block_loop (3 * kLong - 1) (three_way_block d64 kLong (make_shift_table kLong)) crc p of (crc, p) \<Rightarrow>
      case block_loop (3 * kShort - 1) (three_way_block d64 kShort (make_shift_table kShort)) crc p of (crc, p) \<Rightarrow>
        arm_tail b8 w32 d64 crc p)"

section \<open>The entry points\<close>

type_synonym crc_impl = "u32 \<Rightarrow> nat \<Rightarrow> bytes \<Rightarrow> u32"

definition select_impl :: "bool \<Rightarrow> crc_impl \<Rightarrow> crc_impl" where
  "select_impl hardware_usable hardware_impl = (if hardware_usable then hardware_impl else slice_by_16_impl)"

definition run :: "crc_impl \<Rightarrow> u32 \<Rightarrow> nat \<Rightarrow> bytes \<Rightarrow> u32" where
  "run impl state a data = NOT (impl (NOT state) a data)"

definition crc32c_update :: "crc_impl \<Rightarrow> u32 \<Rightarrow> nat \<Rightarrow> bytes \<Rightarrow> u32" where
  "crc32c_update dispatch state a data = run dispatch state a data"

definition crc32c :: "crc_impl \<Rightarrow> nat \<Rightarrow> bytes \<Rightarrow> u32" where
  "crc32c dispatch a data = crc32c_update dispatch 0 a data"

definition crc32c_update_portable :: "u32 \<Rightarrow> nat \<Rightarrow> bytes \<Rightarrow> u32" where
  "crc32c_update_portable state a data = run slice_by_16_impl state a data"

definition crc32c_update_hardware :: "bool \<Rightarrow> crc_impl \<Rightarrow> u32 \<Rightarrow> nat \<Rightarrow> bytes \<Rightarrow> u32" where
  "crc32c_update_hardware have_hardware hardware_impl state a data =
     run (if have_hardware then hardware_impl else slice_by_16_impl) state a data"

section \<open>The register is linear\<close>

named_theorems crc "the routines in terms of the reference"

lemma crc_bit_alt: "crc_bit c = drop_bit 1 c XOR (if bit c 0 then kPolyReflected else 0)"
proof -
  have "c AND 1 \<noteq> 0 \<longleftrightarrow> bit c 0"
    by (simp add: and_one_eq bit_0 odd_iff_mod_2_eq_one)
  then show ?thesis
    by (simp add: crc_bit_def xor.commute)
qed

lemma crc_bit_xor: "crc_bit (a XOR b) = crc_bit a XOR crc_bit b"
  by (cases "bit a 0"; cases "bit b 0")
    (simp_all only: crc_bit_alt drop_bit_xor bit_xor_iff if_True if_False simp_thms
      xor.assoc xor.left_commute xor_self_eq xor.right_neutral xor.commute, simp_all add: ac_simps)

lemma zeros_0 [simp]: "zeros 0 c = c"
  by (simp add: zeros_def)

lemma zeros_add: "zeros (m + n) c = zeros m (zeros n c)"
  by (simp add: zeros_def funpow_add)

lemma zeros_Suc: "zeros (Suc n) c = zeros n (crc_bit c)"
  by (simp add: zeros_def funpow_swap1)

lemma zeros_xor: "zeros n (a XOR b) = zeros n a XOR zeros n b"
  by (induction n arbitrary: a b) (simp_all add: zeros_Suc crc_bit_xor)

lemma zeros_zero [simp]: "zeros n 0 = 0"
  by (induction n) (simp_all add: zeros_Suc crc_bit_def)

lemma zeros_shift:
  assumes "\<And>i. i < n \<Longrightarrow> \<not> bit c i"
  shows "zeros n c = drop_bit n c"
  using assms
proof (induction n arbitrary: c)
  case 0
  then show ?case by simp
next
  case (Suc n)
  have "\<not> bit (crc_bit c) i" if "i < n" for i
    using Suc.prems[of 0] Suc.prems[of "Suc i"] that by (simp add: crc_bit_alt bit_drop_bit_eq)
  then have "zeros n (crc_bit c) = drop_bit n (crc_bit c)"
    by (rule Suc.IH)
  then show ?case
    using Suc.prems[of 0] by (simp add: zeros_Suc crc_bit_alt)
qed

text \<open>The low n bits go through the register, the others only move down.\<close>

lemma zeros_split: "zeros n c = zeros n (take_bit n c) XOR drop_bit n c"
proof -
  have c: "c = take_bit n c XOR push_bit n (drop_bit n c)"
    by (rule bit_word_eqI) (auto simp: bit_take_bit_iff bit_xor_iff bit_push_bit_iff bit_drop_bit_eq)
  have "zeros n c = zeros n (take_bit n c) XOR zeros n (push_bit n (drop_bit n c))"
    by (subst c) (rule zeros_xor)
  moreover have "zeros n (push_bit n (drop_bit n c)) = drop_bit n (push_bit n (drop_bit n c))"
    by (rule zeros_shift) (simp add: bit_push_bit_iff)
  moreover have "drop_bit n (push_bit n (drop_bit n c)) = drop_bit n c"
    by (rule bit_word_eqI) (auto simp: bit_push_bit_iff bit_drop_bit_eq dest: bit_imp_le_length)
  ultimately show ?thesis by simp
qed

lemma word_xor_cancel:
  fixes a b t :: "'a::len word"
  assumes "a XOR t = b XOR t"
  shows "a = b"
proof -
  have "(a XOR t) XOR t = (b XOR t) XOR t"
    by (simp only: assms)
  then show ?thesis
    by (simp only: xor.assoc xor_self_eq xor.right_neutral)
qed

lemma crc_bit_inj: "crc_bit a = crc_bit b \<Longrightarrow> a = b"
proof -
  assume e: "crc_bit a = crc_bit b"
  have top: "bit (crc_bit c) 31 = bit c 0" for c
    using bit_imp_le_length[of c 32]
    by (auto simp: crc_bit_alt bit_xor_iff bit_drop_bit_eq kPolyReflected_def bit_numeral_rec)
  have b0: "bit a 0 = bit b 0"
    using top[of a] top[of b] e by simp
  have "drop_bit 1 a XOR (if bit b 0 then kPolyReflected else 0) =
      drop_bit 1 b XOR (if bit b 0 then kPolyReflected else 0)"
    using e by (simp only: crc_bit_alt b0)
  then have d: "drop_bit 1 a = drop_bit 1 b"
    by (rule word_xor_cancel)
  show "a = b"
  proof (rule bit_word_eqI)
    fix k
    show "bit a k = bit b k"
    proof (cases k)
      case 0
      then show ?thesis using b0 by simp
    next
      case (Suc j)
      then show ?thesis using arg_cong[OF d, of "\<lambda>w. bit w j"] by (simp add: bit_drop_bit_eq)
    qed
  qed
qed

lemma zeros_inj: "zeros n a = zeros n b \<Longrightarrow> a = b"
  by (induction n arbitrary: a b) (auto simp: zeros_Suc dest: crc_bit_inj)

section \<open>The reference over bytes\<close>

lemma crc_ref_Nil [simp]: "crc_ref c [] = c"
  and crc_ref_Cons: "crc_ref c (b # bs) = crc_ref (ref_byte c b) bs"
  and crc_ref_append: "crc_ref c (xs @ ys) = crc_ref (crc_ref c xs) ys"
  by (simp_all add: crc_ref_def)

lemma crc_ref_split: "n \<le> length p \<Longrightarrow> crc_ref c p = crc_ref (crc_ref c (take n p)) (drop n p)"
  by (metis append_take_drop_id crc_ref_append)

lemma crc_ref_linear: "crc_ref (a XOR c) bs = zeros (8 * length bs) a XOR crc_ref c bs"
proof (induction bs arbitrary: a c)
  case Nil
  then show ?case by simp
next
  case (Cons b bs)
  have "ref_byte (a XOR c) b = zeros 8 a XOR ref_byte c b"
    by (simp add: ref_byte_def zeros_xor xor.assoc)
  then have "crc_ref (a XOR c) (b # bs) = zeros (8 * length bs) (zeros 8 a) XOR crc_ref c (b # bs)"
    by (simp only: crc_ref_Cons Cons.IH)
  then show ?case
    by (simp flip: zeros_add add: add.commute)
qed

lemma crc_ref_state: "crc_ref c bs = zeros (8 * length bs) c XOR crc_ref 0 bs"
  using crc_ref_linear[of c 0 bs] by simp

lemma from_le_Cons_xor:
  "(from_le (b # bs) :: u32) = ucast b XOR push_bit 8 (from_le bs)"
  by (rule bit_word_eqI)
    (auto simp: bit_or_iff bit_xor_iff bit_push_bit_iff bit_ucast_iff dest: bit_imp_le_length)

text \<open>Up to four bytes are one step of the register over their little-endian word.\<close>

lemma crc_ref_word:
  assumes "length bs \<le> 4"
  shows "crc_ref c bs = zeros (8 * length bs) (c XOR from_le bs)"
  using assms
proof (induction bs arbitrary: c)
  case Nil
  then show ?case by simp
next
  case (Cons b bs)
  have len: "8 * length bs + 8 \<le> 32" using Cons.prems by simp
  have shift: "zeros 8 (push_bit 8 w) = w" if "\<And>k. k \<ge> 24 \<Longrightarrow> \<not> bit w k" for w
  proof -
    have "zeros 8 (push_bit 8 w) = drop_bit 8 (push_bit 8 w)"
      by (rule zeros_shift) (simp add: bit_push_bit_iff)
    also have "\<dots> = w"
    proof (rule bit_word_eqI)
      fix n
      have "bit w n \<Longrightarrow> n < 24" using that[of n] by (cases "n < 24") auto
      then show "bit (drop_bit 8 (push_bit 8 w)) n = bit w n"
        by (auto simp: bit_push_bit_iff bit_drop_bit_eq)
    qed
    finally show ?thesis .
  qed
  have fit: "\<not> bit (from_le bs :: u32) k" if "k \<ge> 24" for k
  proof -
    have "3 \<le> k div 8" using div_le_mono[OF that, of 8] by simp
    then show ?thesis using len by (auto simp: bit_from_le)
  qed
  have bits: "8 * length (b # bs) = 8 * length bs + 8" by simp
  have "zeros (8 * length (b # bs)) (c XOR from_le (b # bs))
      = zeros (8 * length bs) (zeros 8 ((c XOR ucast b) XOR push_bit 8 (from_le bs)))"
    by (simp only: from_le_Cons_xor xor.assoc bits zeros_add)
  also have "\<dots> = zeros (8 * length bs) (ref_byte c b XOR from_le bs)"
    by (simp only: zeros_xor shift[OF fit] ref_byte_def)
  also have "\<dots> = crc_ref (ref_byte c b) bs"
    using Cons.prems by (intro Cons.IH[symmetric]) simp
  finally show ?case
    by (simp only: crc_ref_Cons)
qed

section \<open>Slice by 16 computes the reference\<close>

lemma and_255: "(x :: 'a::len word) AND 0xFF = take_bit 8 x"
  by (simp add: take_bit_eq_mask mask_numeral)

lemma slice_entry_zeros: "slice_entry s n = zeros (8 * Suc s) n"
proof (induction s)
  case 0
  then show ?case by (simp add: zeros_def)
next
  case (Suc s)
  have bits: "8 * Suc (Suc s) = 8 + 8 * Suc s" by simp
  have "slice_entry (Suc s) n = drop_bit 8 (slice_entry s n) XOR zeros 8 (take_bit 8 (slice_entry s n))"
    by (simp add: Let_def and_255 zeros_def)
  also have "\<dots> = zeros 8 (slice_entry s n)"
    by (simp only: zeros_split[of 8 "slice_entry s n"] xor.commute)
  finally show ?case
    by (simp only: Suc.IH bits zeros_add)
qed

lemma table_index:
  assumes "f = (\<lambda>i. g (of_nat i :: u32))"
  shows "map f [0 ..< 256] ! unat (x AND 0xFF) = g (x AND 0xFF)"
proof -
  have "unat (take_bit 8 x) < 2 ^ 8"
    by (simp only: unsigned_take_bit_eq take_bit_nat_less_exp)
  then show ?thesis
    by (simp add: assms and_255)
qed

lemma slice_lookup_zeros [crc]: "s < 16 \<Longrightarrow> slice_lookup s x = zeros (8 * Suc s) (x AND 0xFF)"
  by (simp add: slice_lookup_def kSlice_def slice_entry_zeros table_index[OF refl] del: mult_Suc_right upt_Suc)

lemma crc_byte_ref [crc]: "crc_byte = ref_byte"
proof (intro ext)
  fix c :: u32 and b :: byte
  have d: "drop_bit 8 (c XOR ucast b) = drop_bit 8 c"
    by (rule bit_word_eqI)
      (auto simp: bit_drop_bit_eq bit_xor_iff bit_ucast_iff dest: bit_imp_le_length)
  have l: "slice_lookup 0 x = zeros 8 (take_bit 8 x)" for x
    by (simp add: slice_lookup_zeros and_255)
  show "crc_byte c b = ref_byte c b"
    using zeros_split[of 8 "c XOR ucast b"] by (simp only: crc_byte_def ref_byte_def l d)
qed

lemma crc_head_ref:
  assumes "crc_head ref_byte c a p = (c', p')"
  shows "crc_ref c p = crc_ref c' p'"
  using assms by (induction ref_byte c a p rule: crc_head.induct) (auto simp: crc_ref_Cons split: if_splits)

text \<open>A word in the register is four table entries.\<close>

lemma word_bytes_xor:
  fixes x :: u32
  shows "x = take_bit 8 x XOR push_bit 8 (take_bit 8 (drop_bit 8 x)) XOR
    push_bit 16 (take_bit 8 (drop_bit 16 x)) XOR push_bit 24 (take_bit 8 (drop_bit 24 x))"
proof (rule bit_word_eqI)
  fix n
  assume "n < LENGTH(32)"
  then consider "n < 8" | "8 \<le> n" "n < 16" | "16 \<le> n" "n < 24" | "24 \<le> n" "n < 32"
    by fastforce
  then show "bit x n = bit (take_bit 8 x XOR push_bit 8 (take_bit 8 (drop_bit 8 x)) XOR
    push_bit 16 (take_bit 8 (drop_bit 16 x)) XOR push_bit 24 (take_bit 8 (drop_bit 24 x))) n"
    by cases (simp_all add: bit_xor_iff bit_push_bit_iff bit_take_bit_iff bit_drop_bit_eq less_diff_conv2)
qed

lemma zeros_push:
  assumes "k \<le> 24" and "k \<le> n"
  shows "zeros n (push_bit k (take_bit 8 y)) = zeros (n - k) (take_bit 8 y)"
proof -
  have "zeros k (push_bit k (take_bit 8 y)) = drop_bit k (push_bit k (take_bit 8 y))"
    by (rule zeros_shift) (simp add: bit_push_bit_iff)
  also have "\<dots> = take_bit 8 y"
    using assms by (intro bit_word_eqI) (auto simp: bit_push_bit_iff bit_drop_bit_eq bit_take_bit_iff)
  finally show ?thesis
    using zeros_add[of "n - k" k "push_bit k (take_bit 8 y)"] assms by simp
qed

lemma zeros_word:
  assumes "n \<ge> 32"
  shows "zeros n x = zeros n (x AND 0xFF) XOR zeros (n - 8) (drop_bit 8 x AND 0xFF) XOR
    zeros (n - 16) (drop_bit 16 x AND 0xFF) XOR zeros (n - 24) (drop_bit 24 x AND 0xFF)"
  using assms by (subst word_bytes_xor) (simp only: and_255 zeros_xor, simp add: zeros_push)

lemma slice_word:
  assumes "s < 13"
  shows "slice_lookup (s + 3) x XOR slice_lookup (s + 2) (drop_bit 8 x) XOR
      slice_lookup (s + 1) (drop_bit 16 x) XOR slice_lookup s (drop_bit 24 x) = zeros (32 + 8 * s) x"
  using assms zeros_word[of "32 + 8 * s" x] by (simp add: slice_lookup_zeros)

lemma slice_word_more:
  assumes "s < 13"
  shows "slice_lookup (s + 3) x XOR slice_lookup (s + 2) (drop_bit 8 x) XOR
      slice_lookup (s + 1) (drop_bit 16 x) XOR slice_lookup s (drop_bit 24 x) XOR r = zeros (32 + 8 * s) x XOR r"
  by (simp only: slice_word[OF assms, symmetric] xor.assoc)

lemma slice_word_0:
  "slice_lookup 3 x XOR slice_lookup 2 (drop_bit 8 x) XOR slice_lookup 1 (drop_bit 16 x) XOR
    slice_lookup 0 (drop_bit 24 x) = zeros 32 x"
  using slice_word[of 0 x] by (simp flip: numeral_2_eq_2)

lemmas slice_words =
  slice_word_0 slice_word_more[of 4, simplified]
  slice_word_more[of 8, simplified] slice_word_more[of 12, simplified]

lemma take_chunks: "take (m + n) p = take m p @ take n (drop m p)"
  by (rule take_add)

lemma crc_ref_le32:
  assumes "length p \<ge> 4"
  shows "crc_ref c (take 4 p) = zeros 32 (c XOR load_le32 p)"
  using crc_ref_word[of "take 4 p" c] assms by (simp add: load_le32_def)

lemma crc_ref_le32_more:
  assumes "length p \<ge> 4 + n"
  shows "crc_ref c (take (4 + n) p) = zeros (32 + 8 * n) (c XOR load_le32 p) XOR crc_ref 0 (take n (drop 4 p))"
proof -
  have "crc_ref c (take (4 + n) p) = crc_ref (zeros 32 (c XOR load_le32 p)) (take n (drop 4 p))"
    using assms by (simp only: take_chunks crc_ref_append) (simp add: crc_ref_le32)
  also have "\<dots> = zeros (8 * n) (zeros 32 (c XOR load_le32 p)) XOR crc_ref 0 (take n (drop 4 p))"
    using assms by (subst crc_ref_state) simp
  finally show ?thesis
    by (simp add: zeros_add[symmetric] add.commute)
qed

lemma slice_block8_ref [crc]:
  assumes "length p \<ge> 8"
  shows "slice_block8 c p = crc_ref c (take 8 p)"
proof -
  have "crc_ref c (take 8 p) = zeros 64 (c XOR load_le32 p) XOR zeros 32 (load_le32 (drop 4 p))"
    using assms crc_ref_le32_more[of 4 p c] crc_ref_le32[of "drop 4 p" 0] by simp
  then show ?thesis
    by (simp only: slice_block8_def Let_def slice_words xor.commute[of c])
qed

lemma slice_block16_ref [crc]:
  assumes "length p \<ge> 16"
  shows "slice_block16 c p = crc_ref c (take 16 p)"
proof -
  have "crc_ref 0 (take 8 (drop 8 p)) = zeros 64 (load_le32 (drop 8 p)) XOR zeros 32 (load_le32 (drop 12 p))"
    using assms crc_ref_le32_more[of 4 "drop 8 p" 0] crc_ref_le32[of "drop 12 p" 0] by simp
  moreover have "crc_ref c (take 16 p) = zeros 128 (c XOR load_le32 p) XOR crc_ref 0 (take 12 (drop 4 p))"
    using assms crc_ref_le32_more[of 12 p c] by simp
  moreover have "crc_ref 0 (take 12 (drop 4 p)) =
      zeros 96 (load_le32 (drop 4 p)) XOR crc_ref 0 (take 8 (drop 8 p))"
    using assms crc_ref_le32_more[of 8 "drop 4 p" 0] by simp
  ultimately have "crc_ref c (take 16 p) = zeros 128 (c XOR load_le32 p) XOR
      zeros 96 (load_le32 (drop 4 p)) XOR zeros 64 (load_le32 (drop 8 p)) XOR zeros 32 (load_le32 (drop 12 p))"
    by (simp only: xor.assoc)
  then show ?thesis
    by (simp only: slice_block16_def Let_def slice_words xor.commute[of c])
qed

text \<open>A block loop whose body advances the register over one block.\<close>

lemma block_loop_ref:
  assumes body: "\<And>c p. length p \<ge> Suc k \<Longrightarrow> body c p = crc_ref c (take (Suc k) p)"
    and r: "block_loop k body c p = (c', p')"
  shows "crc_ref c p = crc_ref c' p'"
  using body r
proof (induction k body c p rule: block_loop.induct)
  case (1 k body c p)
  show ?case
  proof (cases "Suc k \<le> length p")
    case True
    have "crc_ref c p = crc_ref (body c p) (drop (Suc k) p)"
      using crc_ref_split[OF True, of c] 1(2)[OF True, of c] by simp
    also have "\<dots> = crc_ref c' p'"
    proof (rule 1(1)[OF True])
      show "block_loop k body (body c p) (drop (Suc k) p) = (c', p')"
        using 1(3) True by (subst (asm) block_loop.simps) simp
    qed (rule 1(2))
    finally show ?thesis .
  next
    case False
    then show ?thesis
      using 1(3) by (subst (asm) block_loop.simps) simp
  qed
qed

lemma slice_by_16_impl_ref [crc]: "slice_by_16_impl c a p = crc_ref c p"
proof -
  obtain c1 p1 where h: "crc_head ref_byte c a p = (c1, p1)" by force
  obtain c2 p2 where b: "block_loop 15 slice_block16 c1 p1 = (c2, p2)" by force
  have "crc_ref c1 p1 = crc_ref c2 p2"
    using b by (rule block_loop_ref[rotated]) (simp add: slice_block16_ref)
  then have "crc_ref c p = crc_ref c2 p2"
    using crc_head_ref[OF h] by simp
  moreover have "crc_ref c2 p2 = crc_ref (crc_ref c2 (take 8 p2)) (drop 8 p2)" if "8 \<le> length p2"
    using that by (rule crc_ref_split)
  ultimately show ?thesis
    by (auto simp: slice_by_16_impl_def crc_byte_ref h b slice_block8_ref Let_def crc_ref_def)
qed

section \<open>The operators advance the register\<close>

text \<open>The matrix M advances the register over j zero bits.\<close>

definition advances :: "gf2_matrix \<Rightarrow> nat \<Rightarrow> bool" where
  "advances M j \<longleftrightarrow> length M = 32 \<and> (\<forall>n < 32. M ! n = zeros j (push_bit n 1))"

lemma push_bit_low:
  fixes v :: u32
  shows "push_bit k v = (if v AND 1 \<noteq> 0 then push_bit k 1 else 0) XOR push_bit (Suc k) (drop_bit 1 v)"
proof (rule bit_word_eqI)
  fix n
  assume n: "n < LENGTH(32)"
  have b: "v AND 1 \<noteq> 0 \<longleftrightarrow> bit v 0"
    by (simp add: and_one_eq bit_0 odd_iff_mod_2_eq_one)
  consider "n < k" | "n = k" | m where "n = Suc k + m"
    by (metis add_Suc less_iff_Suc_add not_less_iff_gr_or_eq)
  then show "bit (push_bit k v) n =
      bit ((if v AND 1 \<noteq> 0 then push_bit k 1 else 0) XOR push_bit (Suc k) (drop_bit 1 v)) n"
    unfolding b using n
    by cases (simp_all add: bit_xor_iff bit_push_bit_iff bit_drop_bit_eq bit_1_iff
        del: push_bit_of_1 push_bit_Suc)
qed

lemma gf2_loop_zeros:
  assumes "length ms + k = 32" and "\<And>i. i < length ms \<Longrightarrow> ms ! i = zeros j (push_bit (k + i) 1)"
    and "\<And>i. length ms \<le> i \<Longrightarrow> \<not> bit vec i"
  shows "gf2_loop ms vec s = s XOR zeros j (push_bit k vec)"
  using assms
proof (induction ms arbitrary: k vec s)
  case Nil
  have "vec = 0"
    using Nil.prems(3) by (intro bit_word_eqI) simp
  then show ?case by simp
next
  case (Cons m ms)
  show ?case
  proof (cases "vec = 0")
    case True
    then show ?thesis by simp
  next
    case False
    let ?s = "if vec AND 1 \<noteq> 0 then s XOR m else s"
    have "gf2_loop ms (drop_bit 1 vec) ?s = ?s XOR zeros j (push_bit (Suc k) (drop_bit 1 vec))"
    proof (rule Cons.IH)
      show "length ms + Suc k = 32" using Cons.prems(1) by simp
      show "ms ! i = zeros j (push_bit (Suc k + i) 1)" if "i < length ms" for i
        using Cons.prems(2)[of "Suc i"] that by simp
      show "\<not> bit (drop_bit 1 vec) i" if "length ms \<le> i" for i
        using Cons.prems(3)[of "Suc i"] that by (simp add: bit_drop_bit_eq)
    qed
    moreover have "m = zeros j (push_bit k 1)"
      using Cons.prems(2)[of 0] by simp
    ultimately show ?thesis
      using False push_bit_low[of k vec]
      by (cases "vec AND 1 = 0") (simp_all add: zeros_xor xor.assoc del: push_bit_of_1 push_bit_Suc)
  qed
qed

lemma gf2_apply_zeros: "advances M j \<Longrightarrow> gf2_apply M vec = zeros j vec"
  using gf2_loop_zeros[of M 0 j vec 0] bit_imp_le_length[of vec]
  by (fastforce simp: advances_def gf2_apply_def)

lemma advances_compose:
  assumes "advances a i" and "advances b j"
  shows "advances (gf2_compose a b) (i + j)"
  using assms(2) by (simp add: advances_def gf2_compose_def gf2_apply_zeros[OF assms(1)] zeros_add)

lemma advances_identity: "advances (map (\<lambda>k. push_bit k 1) [0 ..< 32]) 0"
  by (simp add: advances_def)

lemma advances_zero_bit: "advances zero_bit_operator 1"
proof -
  have "crc_bit 1 = kPolyReflected"
    by (simp add: crc_bit_def)
  moreover have "crc_bit (push_bit (Suc n) 1) = push_bit n 1" if "n < 31" for n
  proof (rule bit_word_eqI)
    fix i
    show "bit (crc_bit (push_bit (Suc n) 1)) i = bit (push_bit n 1 :: u32) i"
      using that by (auto simp: crc_bit_alt bit_drop_bit_eq bit_push_bit_iff bit_1_iff
          simp del: push_bit_of_1 push_bit_Suc)
  qed
  ultimately show ?thesis
    by (auto simp: advances_def zero_bit_operator_def zeros_def nth_Cons split: nat.splits
        simp del: push_bit_of_1 push_bit_Suc)
qed

lemma advances_zero_bytes_loop:
  "advances base b \<Longrightarrow> advances result r \<Longrightarrow> advances (zero_bytes_loop bits base result) (bits * b + r)"
proof (induction bits base result arbitrary: b r rule: zero_bytes_loop.induct)
  case (1 bits base result)
  show ?case
  proof (cases "bits = 0")
    case True
    then show ?thesis
      using 1(3) by (simp add: zero_bytes_loop.simps)
  next
    case False
    let ?r = "if bits mod 2 \<noteq> 0 then b + r else r"
    have "advances (zero_bytes_loop bits base result) (bits div 2 * (b + b) + ?r)"
      using 1(1)[OF False advances_compose[OF 1(2) 1(2)], of ?r] False 1(3) advances_compose[OF 1(2) 1(3)]
      by (simp add: zero_bytes_loop.simps[of bits])
    moreover have "bits div 2 * (b + b) + ?r = bits * b + r"
    proof (cases "even bits")
      case True
      then obtain k where "bits = 2 * k" by (rule evenE)
      then show ?thesis by (simp add: algebra_simps)
    next
      case False
      then obtain k where k: "bits = 2 * k + 1" by (rule oddE)
      then have "bits mod 2 = 1" "bits div 2 = k" by simp_all
      then show ?thesis by (simp add: k algebra_simps)
    qed
    ultimately show ?thesis by simp
  qed
qed

lemma advances_zero_bytes: "advances (zero_bytes_operator n) (8 * n)"
  using advances_zero_bytes_loop[OF advances_zero_bit advances_identity, of "n * 8"]
  by (simp add: zero_bytes_operator_def mult.commute)

lemma make_shift_table_nth:
  "k < 4 \<Longrightarrow> make_shift_table n ! k ! unat (x AND 0xFF) = zeros (8 * n) (push_bit (8 * k) (x AND 0xFF))"
  by (simp add: make_shift_table_def Let_def gf2_apply_zeros[OF advances_zero_bytes]
      table_index[where g = "\<lambda>w. zeros (8 * n) (push_bit (8 * k) w)", OF refl] del: upt_Suc)

lemma shift_crc_zeros [crc]: "shift_crc (make_shift_table n) c = zeros (8 * n) c"
proof -
  have "shift_crc (make_shift_table n) c = zeros (8 * n) (take_bit 8 c XOR
      push_bit 8 (take_bit 8 (drop_bit 8 c)) XOR push_bit 16 (take_bit 8 (drop_bit 16 c)) XOR
      push_bit 24 (take_bit 8 (drop_bit 24 c)))"
    using make_shift_table_nth[of 0 n c] make_shift_table_nth[of 1 n "drop_bit 8 c"]
      make_shift_table_nth[of 2 n "drop_bit 16 c"] make_shift_table_nth[of 3 n "drop_bit 24 c"]
    by (simp add: shift_crc_def and_255 zeros_xor)
  then show ?thesis
    by (simp only: word_bytes_xor[symmetric])
qed

section \<open>The hardware routines compute the reference\<close>

text \<open>What the routines rely on of the processor's CRC-32C instructions.\<close>

locale crc_instructions =
  fixes b8 :: "u32 \<Rightarrow> byte \<Rightarrow> u32" and w32 :: "u32 \<Rightarrow> u32 \<Rightarrow> u32" and d64 :: "u32 \<Rightarrow> u64 \<Rightarrow> u32"
  assumes b8_ref: "b8 c b = ref_byte c b"
    and w32_ref: "w32 c w = crc_ref c (to_le 4 w)"
    and d64_ref: "d64 c v = crc_ref c (to_le 8 v)"
begin

lemma b8_eq: "b8 = ref_byte"
  by (intro ext) (rule b8_ref)

lemma w32_load: "length p \<ge> 4 \<Longrightarrow> w32 c (load_le32 p) = crc_ref c (take 4 p)"
  using to_le_from_le[of "take 4 p", where 'a = 32] by (simp add: w32_ref load_le32_def)

lemma d64_load: "length p \<ge> 8 \<Longrightarrow> d64 c (load_le64 p) = crc_ref c (take 8 p)"
  using to_le_from_le[of "take 8 p", where 'a = 64] by (simp add: d64_ref load_le64_def)

lemma words_loop:
  assumes "block_loop 7 (\<lambda>c p. d64 c (load_le64 p)) c p = (c', p')"
  shows "crc_ref c p = crc_ref c' p'"
  using assms by (rule block_loop_ref[rotated]) (simp add: d64_load)

lemma sse42_tail_ref: "sse42_tail b8 d64 c p = crc_ref c p"
proof -
  obtain c1 p1 where l: "block_loop 7 (\<lambda>c p. d64 c (load_le64 p)) c p = (c1, p1)" by force
  show ?thesis
    using words_loop[OF l] by (simp add: sse42_tail_def l b8_eq crc_ref_def)
qed

lemma arm_tail_ref: "arm_tail b8 w32 d64 c p = crc_ref c p"
proof -
  obtain c1 p1 where l: "block_loop 7 (\<lambda>c p. d64 c (load_le64 p)) c p = (c1, p1)" by force
  have "arm_tail b8 w32 d64 c p = crc_ref c1 p1"
    using crc_ref_split[of 4 p1 c1] by (auto simp: arm_tail_def l b8_eq w32_load Let_def crc_ref_def)
  then show ?thesis
    using words_loop[OF l] by simp
qed

lemma three_lanes_ref:
  "length q \<ge> 2 * L + 8 * n \<Longrightarrow> three_lanes d64 L n c0 c1 c2 q =
    (crc_ref c0 (take (8 * n) q), crc_ref c1 (take (8 * n) (drop L q)),
     crc_ref c2 (take (8 * n) (drop (2 * L) q)))"
proof (induction n arbitrary: c0 c1 c2 q)
  case 0
  then show ?case by simp
next
  case (Suc n)
  have step: "crc_ref (crc_ref c (take 8 x)) (take (8 * n) (drop 8 x)) = crc_ref c (take (8 * Suc n) x)" for c x
    using take_add[of 8 "8 * n" x] by (simp add: crc_ref_append)
  have len: "8 \<le> length q" "8 \<le> length (drop L q)" "8 \<le> length (drop (2 * L) q)"
    using Suc.prems by simp_all
  have swap: "drop k (drop 8 q) = drop 8 (drop k q)" for k
    by (simp add: add.commute)
  have "2 * L + 8 * n \<le> length (drop 8 q)"
    using Suc.prems by simp
  then show ?case
    by (simp only: three_lanes.simps d64_load[OF len(1)] d64_load[OF len(2)] d64_load[OF len(3)]
        Suc.IH swap step)
qed

lemma three_way_block_ref:
  assumes L: "8 dvd L" and p: "length p \<ge> 3 * L"
  shows "three_way_block d64 L (make_shift_table L) c p = crc_ref c (take (3 * L) p)"
proof -
  let ?A = "take L p" and ?B = "take L (drop L p)" and ?C = "take L (drop (2 * L) p)"
  have split: "take (3 * L) p = ?A @ ?B @ ?C"
    using take_add[of L "L + L" p] take_add[of L L "drop L p"] by (simp add: numeral_3_eq_3 mult_2)
  have len: "length ?B = L" "length ?C = L" using p by simp_all
  have "crc_ref c (take (3 * L) p) =
      zeros (8 * L) (zeros (8 * L) (crc_ref c ?A) XOR crc_ref 0 ?B) XOR crc_ref 0 ?C"
    unfolding split crc_ref_append
    using crc_ref_state[of "crc_ref c ?A" ?B] crc_ref_state[of "crc_ref (crc_ref c ?A) ?B" ?C]
    by (simp only: len)
  then show ?thesis
    using p L by (simp add: three_way_block_def three_lanes_ref shift_crc_zeros Let_def)
qed

lemma three_way_loop:
  assumes L: "8 dvd L" "0 < L"
    and r: "block_loop (3 * L - 1) (three_way_block d64 L (make_shift_table L)) c p = (c', p')"
  shows "crc_ref c p = crc_ref c' p'"
proof (rule block_loop_ref[OF _ r])
  fix c and p :: bytes
  have S: "Suc (3 * L - 1) = 3 * L" using L(2) by simp
  show "Suc (3 * L - 1) \<le> length p \<Longrightarrow>
      three_way_block d64 L (make_shift_table L) c p = crc_ref c (take (Suc (3 * L - 1)) p)"
    unfolding S by (rule three_way_block_ref[OF L(1)])
qed

lemma one_way_impls:
  "sse42_1way_impl b8 d64 c a p = crc_ref c p" "arm_1way_impl b8 w32 d64 c a p = crc_ref c p"
proof -
  obtain c1 p1 where h: "crc_head ref_byte c a p = (c1, p1)" by force
  show "sse42_1way_impl b8 d64 c a p = crc_ref c p" "arm_1way_impl b8 w32 d64 c a p = crc_ref c p"
    using crc_head_ref[OF h] sse42_tail_ref arm_tail_ref
    by (simp_all add: sse42_1way_impl_def arm_1way_impl_def b8_eq h)
qed

lemma three_way_impls:
  "sse42_3way_impl b8 d64 c a p = crc_ref c p" "arm_3way_impl b8 w32 d64 c a p = crc_ref c p"
proof -
  obtain c1 p1 where h: "crc_head b8 c a p = (c1, p1)" by force
  obtain c2 p2 where l: "block_loop (3 * kLong - 1) (three_way_block d64 kLong (make_shift_table kLong)) c1 p1 = (c2, p2)"
    by force
  obtain c3 p3 where s: "block_loop (3 * kShort - 1) (three_way_block d64 kShort (make_shift_table kShort)) c2 p2 = (c3, p3)"
    by force
  have "crc_ref c p = crc_ref c3 p3"
    using crc_head_ref[of c a p c1 p1] h three_way_loop[OF _ _ l] three_way_loop[OF _ _ s]
    by (simp add: b8_eq kLong_def kShort_def)
  then show "sse42_3way_impl b8 d64 c a p = crc_ref c p" "arm_3way_impl b8 w32 d64 c a p = crc_ref c p"
    by (simp_all only: sse42_3way_impl_def arm_3way_impl_def h l s prod.case sse42_tail_ref arm_tail_ref)
qed

end

text \<open>The table-driven routines are a model of the instructions.\<close>

definition soft_w32 :: "u32 \<Rightarrow> u32 \<Rightarrow> u32" where
  "soft_w32 c w = foldl crc_byte c (to_le 4 w)"

definition soft_d64 :: "u32 \<Rightarrow> u64 \<Rightarrow> u32" where
  "soft_d64 c w = foldl crc_byte c (to_le 8 w)"

definition soft_crc32_u64 :: "u64 \<Rightarrow> u64 \<Rightarrow> u64" where
  "soft_crc32_u64 c w = ucast (soft_d64 (ucast c) w)"

interpretation soft: crc_instructions crc_byte soft_w32 soft_d64
  by unfold_locales (simp_all add: crc_byte_ref soft_w32_def soft_d64_def crc_ref_def)

section \<open>The entry points\<close>

lemma crc32c_update_portable_ref [crc]: "crc32c_update_portable s a p = NOT (crc_ref (NOT s) p)"
  by (simp add: crc32c_update_portable_def run_def slice_by_16_impl_ref)

lemma crc_ref_inj: "crc_ref c p = crc_ref c' p \<Longrightarrow> c = c'"
proof -
  assume "crc_ref c p = crc_ref c' p"
  then have "zeros (8 * length p) c = zeros (8 * length p) c'"
    using crc_ref_state[of c p] crc_ref_state[of c' p] by (auto intro: word_xor_cancel)
  then show ?thesis by (rule zeros_inj)
qed

lemma crc_ref_burst:
  assumes "crc_ref c (p @ x @ q) = crc_ref c (p @ y @ q)" and "length x = length y" and "length x \<le> 4"
  shows "x = y"
proof -
  let ?c = "crc_ref c p"
  have "crc_ref ?c x = crc_ref ?c y"
    using assms(1) by (simp only: crc_ref_append) (rule crc_ref_inj)
  then have "?c XOR from_le x = ?c XOR from_le y"
    using assms(2,3) by (simp add: crc_ref_word zeros_inj)
  then have "(from_le x :: u32) XOR ?c = from_le y XOR ?c"
    by (simp only: xor.commute)
  then have "(from_le x :: u32) = from_le y"
    by (rule word_xor_cancel)
  then have "to_le (length x) (from_le x :: u32) = to_le (length y) (from_le y :: u32)"
    by (simp only: assms(2))
  moreover have "8 * length x \<le> LENGTH(32)" "8 * length y \<le> LENGTH(32)"
    using assms(2,3) by simp_all
  ultimately show ?thesis
    by (simp only: to_le_from_le)
qed

text \<open>
  C18.
  The table-driven routine, and the hardware routines of both architectures with one and
  with three chains, compute the bit-serial CRC-32C of the bytes from the given register,
  at every address and for every length, when the processor's instructions advance the
  register over 1, 4 and 8 little-endian bytes; so the dispatched entry point returns the
  same checksum on every machine.
\<close>

theorem crc_routines_agree:
  assumes "\<And>c b. crc32_u8 c b = ref_byte c b"
    and "\<And>c v. ucast (crc32_u64 (ucast c :: u64) v) = crc_ref c (to_le 8 v)"
    and "\<And>c b. crc32cb c b = ref_byte c b" and "\<And>c w. crc32cw c w = crc_ref c (to_le 4 w)"
    and "\<And>c v. crc32cd c v = crc_ref c (to_le 8 v)"
  shows "slice_by_16_impl c a p = crc_ref c p \<and>
    sse42_1way_impl crc32_u8 (sse_d64 crc32_u64) c a p = crc_ref c p \<and>
    sse42_3way_impl crc32_u8 (sse_d64 crc32_u64) c a p = crc_ref c p \<and>
    arm_1way_impl crc32cb crc32cw crc32cd c a p = crc_ref c p \<and>
    arm_3way_impl crc32cb crc32cw crc32cd c a p = crc_ref c p \<and>
    crc32c_update (select_impl usable (sse42_3way_impl crc32_u8 (sse_d64 crc32_u64))) s a p =
      crc32c_update_portable s a p \<and>
    crc32c_update (select_impl usable (arm_3way_impl crc32cb crc32cw crc32cd)) s a p =
      crc32c_update_portable s a p"
proof -
  have sse: "crc_instructions crc32_u8 soft_w32 (sse_d64 crc32_u64)"
    using assms soft.w32_ref by unfold_locales (simp_all add: sse_d64_def)
  have arm: "crc_instructions crc32cb crc32cw crc32cd"
    using assms by unfold_locales simp_all
  note three = crc_instructions.three_way_impls[OF sse] crc_instructions.three_way_impls[OF arm]
  show ?thesis
    using crc_instructions.one_way_impls[OF sse] crc_instructions.one_way_impls[OF arm] three
    by (simp add: slice_by_16_impl_ref crc32c_update_def run_def select_impl_def crc32c_update_portable_ref)
qed

lemma soft_crc32_u64_ref: "ucast (soft_crc32_u64 (ucast c :: u64) v) = crc_ref c (to_le 8 v)"
proof -
  have "ucast (ucast x :: u64) = x" for x :: u32
    by (rule bit_word_eqI) (auto simp: bit_ucast_iff)
  then show ?thesis
    by (simp only: soft_crc32_u64_def soft.d64_ref)
qed

theorem crc_routines_agree_witness:
  "slice_by_16_impl 5 3 [1, 2, 3] = sse42_3way_impl crc_byte (sse_d64 soft_crc32_u64) 5 3 [1, 2, 3]"
  using crc_routines_agree[OF soft.b8_ref soft_crc32_u64_ref soft.b8_ref soft.w32_ref soft.d64_ref,
      of 5 3 "[1, 2, 3]"]
  by (simp only:)

text \<open>
  C19.
  Corruption of up to four consecutive bytes is always detected: the checksum of a message
  with any window of at most four bytes replaced differs, whatever surrounds the window
  and whatever the checksum so far, and checksumming in pieces gives the checksum of the
  whole.
\<close>

theorem crc_detects_burst:
  assumes "length x = length y" and "length x \<le> 4" and "x \<noteq> y"
  shows "crc32c_update_portable s a (p @ x @ q) \<noteq> crc32c_update_portable s a' (p @ y @ q) \<and>
    crc32c_update_portable (crc32c_update_portable s a p) a' q = crc32c_update_portable s a'' (p @ q)"
  using assms crc_ref_burst[of "NOT s" p x q y]
  by (auto simp: crc32c_update_portable_ref crc_ref_append)

lemma crc32c_check_value: "crc32c_update_portable 0 0 [0x31, 0x32, 0x33, 0x34, 0x35, 0x36, 0x37, 0x38, 0x39] = 0xE3069283"
proof -
  have eight: "ref_byte c b = (let x = c XOR ucast b in crc_bit (crc_bit (crc_bit (crc_bit (crc_bit (crc_bit (crc_bit (crc_bit x))))))))" for c b
    by (simp add: ref_byte_def zeros_def numeral_eq_Suc)
  show ?thesis
    by (simp add: crc32c_update_portable_ref crc_ref_def eight Let_def crc_bit_def kPolyReflected_def)
qed

theorem crc_detects_burst_witness:
  "crc32c_update_portable 0 0 [0x31, 0x32, 0x33, 0x34, 0x35, 0x36, 0x37, 0x38, 0x38] \<noteq> 0xE3069283"
  using crc_detects_burst[of "[0x38 :: byte]" "[0x39]" 0 0 "[0x31, 0x32, 0x33, 0x34, 0x35, 0x36, 0x37, 0x38]" "[]" 0]
    crc32c_check_value
  by simp

end
