(* ===== verification/Document.thy ===== *)
theory Document
  imports Crc32c
begin

text \<open>
  The on-disk document: src/src/core/document.hpp and src/src/core/document.cpp.  The
  record Document, its 132-byte wire header driven by the field table, the canonical header
  the checksum starts from, the builder that serialises a document and the reader that
  parses one, and the chain links packed into next_alternate_offset.

  The header's enum Type has a fixed underlying type, so a header read from disk may hold
  any byte there: the field is a byte, and the enumerators are constants.  The checksum is
  the one every routine of Crc32c computes, whatever the address.
\<close>

section \<open>The header\<close>

definition kMagic :: u32 where "kMagic = 0x5F129B14"
definition kVersionMajor :: u8 where "kVersionMajor = 9"
definition kVersionMinor :: u8 where "kVersionMinor = 0"
definition kHeaderSize :: nat where "kHeaderSize = 132"

definition Type_Empty :: u8 where "Type_Empty = 0"
definition Type_FirstFrag :: u8 where "Type_FirstFrag = 1"
definition Type_LastFrag :: u8 where "Type_LastFrag = 3"
definition Type_SingleFrag :: u8 where "Type_SingleFrag = 4"

record Document =
  magic :: u32
  len :: u32
  total_len :: u64
  first_key :: bytes
  fragment_key :: bytes
  header_len :: u32
  doc_type :: u8
  version_major :: u8
  version_minor :: u8
  flags :: u8
  fill_serial :: u32
  write_serial :: u32
  pin_until :: u32
  checksum :: u32
  frag_offset :: u32
  hit_count :: u32
  next_alternate_offset :: u64
  last_access :: u64
  alternate_id :: u8
  reserved2 :: bytes

definition Document_default :: Document where
  "Document_default =
     \<lparr>magic = kMagic, len = 0, total_len = 0, first_key = replicate 32 0, fragment_key = replicate 32 0,
      header_len = 0, doc_type = Type_Empty, version_major = kVersionMajor, version_minor = kVersionMinor,
      flags = 0, fill_serial = 0, write_serial = 0, pin_until = 0, checksum = 0, frag_offset = 0,
      hit_count = 0, next_alternate_offset = 0, last_access = 0, alternate_id = 0, reserved2 = replicate 3 0\<rparr>"

text \<open>The arrays of the struct have their declared sizes.\<close>

definition document_wf :: "Document \<Rightarrow> bool" where
  "document_wf d \<longleftrightarrow> length (first_key d) = 32 \<and> length (fragment_key d) = 32 \<and> length (reserved2 d) = 3"

section \<open>Wire layout\<close>

text \<open>The sizes of the field table, and the bytes of each field in its order.\<close>

definition kDocumentFields :: "nat list" where
  "kDocumentFields = [4, 4, 8, 32, 32, 4, 1, 1, 1, 1, 4, 4, 4, 4, 4, 4, 8, 8, 1, 3]"

definition wire_offset_of :: "nat \<Rightarrow> nat" where
  "wire_offset_of i = sum_list (take i kDocumentFields)"

definition kVersionMajorOffset :: nat where "kVersionMajorOffset = 85"
definition kFillSerialOffset :: nat where "kFillSerialOffset = 88"
definition kWriteSerialOffset :: nat where "kWriteSerialOffset = 92"
definition kChecksumOffset :: nat where "kChecksumOffset = 100"
definition kHitCountOffset :: nat where "kHitCountOffset = 108"
definition kNextAlternateOffsetPos :: nat where "kNextAlternateOffsetPos = 112"
definition kLastAccessOffset :: nat where "kLastAccessOffset = 120"
definition kAlternateIdOffset :: nat where "kAlternateIdOffset = 128"

definition field_bytes :: "Document \<Rightarrow> bytes list" where
  "field_bytes d =
     [to_le 4 (magic d), to_le 4 (len d), to_le 8 (total_len d), first_key d, fragment_key d,
      to_le 4 (header_len d), to_le 1 (doc_type d), to_le 1 (version_major d), to_le 1 (version_minor d),
      to_le 1 (flags d), to_le 4 (fill_serial d), to_le 4 (write_serial d), to_le 4 (pin_until d),
      to_le 4 (checksum d), to_le 4 (frag_offset d), to_le 4 (hit_count d),
      to_le 8 (next_alternate_offset d), to_le 8 (last_access d), to_le 1 (alternate_id d), reserved2 d]"

definition document_of :: "bytes list \<Rightarrow> Document" where
  "document_of fs =
     \<lparr>magic = from_le (fs ! 0), len = from_le (fs ! 1), total_len = from_le (fs ! 2),
      first_key = fs ! 3, fragment_key = fs ! 4, header_len = from_le (fs ! 5),
      doc_type = from_le (fs ! 6), version_major = from_le (fs ! 7), version_minor = from_le (fs ! 8),
      flags = from_le (fs ! 9), fill_serial = from_le (fs ! 10), write_serial = from_le (fs ! 11),
      pin_until = from_le (fs ! 12), checksum = from_le (fs ! 13), frag_offset = from_le (fs ! 14),
      hit_count = from_le (fs ! 15), next_alternate_offset = from_le (fs ! 16),
      last_access = from_le (fs ! 17), alternate_id = from_le (fs ! 18), reserved2 = fs ! 19\<rparr>"

definition serialize_to :: "Document \<Rightarrow> bytes" where
  "serialize_to d = concat (field_bytes d)"

definition serialize :: "Document \<Rightarrow> bytes \<Rightarrow> bytes" where
  "serialize d buffer = buffer @ serialize_to d"

text \<open>The loop over the field table: each field is the next f bytes.\<close>

fun read_fields :: "nat list \<Rightarrow> bytes \<Rightarrow> bytes list" where
  "read_fields [] p = []"
| "read_fields (f # fs) p = take f p # read_fields fs (drop f p)"

definition deserialize :: "bytes \<Rightarrow> Document" where
  "deserialize data =
     (if length data < kHeaderSize then Document_default\<lparr>magic := 0\<rparr>
      else document_of (read_fields kDocumentFields data))"

section \<open>Predicates and chain links\<close>

definition kLinkSerialShift :: nat where "kLinkSerialShift = 48"

definition kLinkOffsetMask :: u64 where
  "kLinkOffsetMask = push_bit kLinkSerialShift 1 - 1"

definition make_link :: "u64 \<Rightarrow> u16 \<Rightarrow> u64" where
  "make_link rel_offset serial =
     (if rel_offset = 0 then 0
      else (rel_offset AND kLinkOffsetMask) OR push_bit kLinkSerialShift (ucast serial))"

definition link_offset :: "u64 \<Rightarrow> u64" where
  "link_offset link = link AND kLinkOffsetMask"

definition link_serial :: "u64 \<Rightarrow> u16" where
  "link_serial link = ucast (drop_bit kLinkSerialShift link)"

definition bound_by_link :: "Document \<Rightarrow> u64 \<Rightarrow> bool" where
  "bound_by_link d link \<longleftrightarrow> fill_serial d = ucast (link_serial link)"

definition link_to :: "Document \<Rightarrow> u64 \<Rightarrow> u64" where
  "link_to d rel_offset = make_link rel_offset (ucast (fill_serial d))"

definition doc_is_valid :: "Document \<Rightarrow> bool" where
  "doc_is_valid d \<longleftrightarrow> magic d = kMagic"

definition is_version_compatible :: "Document \<Rightarrow> bool" where
  "is_version_compatible d \<longleftrightarrow> version_major d = kVersionMajor"

definition is_valid_and_compatible :: "Document \<Rightarrow> bool" where
  "is_valid_and_compatible d \<longleftrightarrow> doc_is_valid d \<and> is_version_compatible d"

definition is_complete :: "Document \<Rightarrow> bool" where
  "is_complete d \<longleftrightarrow> doc_type d = Type_SingleFrag \<or> doc_type d = Type_LastFrag"

definition is_first :: "Document \<Rightarrow> bool" where
  "is_first d \<longleftrightarrow> doc_type d = Type_FirstFrag \<or> doc_type d = Type_SingleFrag"

definition content_data_size :: "Document \<Rightarrow> nat" where
  "content_data_size d =
     (if unat (len d) < kHeaderSize \<or> unat (header_len d) > unat (len d) - kHeaderSize then 0
      else unat (len d) - kHeaderSize - unat (header_len d))"

definition has_volume_shape :: "Document \<Rightarrow> bool" where
  "has_volume_shape d \<longleftrightarrow>
     doc_type d = Type_SingleFrag \<and> frag_offset d = 0 \<and> unat (len d) \<ge> kHeaderSize \<and>
     unat (header_len d) \<le> unat (len d) - kHeaderSize \<and>
     unat (total_len d) = unat (len d) - kHeaderSize - unat (header_len d)"

section \<open>Checksum\<close>

definition doc_crc_update :: "u32 \<Rightarrow> bytes \<Rightarrow> u32" where
  "doc_crc_update s p = crc32c_update_portable s 0 p"

definition compute_checksum :: "bytes \<Rightarrow> u32" where
  "compute_checksum data = doc_crc_update 0 data"

text \<open>Offset and size of the fields stamped or updated after the checksum.\<close>

definition kInPlace :: "(nat \<times> nat) list" where
  "kInPlace = [(kFillSerialOffset, 4), (kWriteSerialOffset, 4), (kChecksumOffset, 4), (kHitCountOffset, 4),
     (kNextAlternateOffsetPos, 8), (kLastAccessOffset, 8)]"

definition canonical_header :: "bytes \<Rightarrow> bytes" where
  "canonical_header buf = foldl (\<lambda>b (off, size). put_at off (replicate size 0) b) buf kInPlace"

definition checksum_header_seed :: "Document \<Rightarrow> u32" where
  "checksum_header_seed d = doc_crc_update 0 (canonical_header (serialize_to d))"

definition verify_checksum :: "Document \<Rightarrow> bytes \<Rightarrow> bool" where
  "verify_checksum d payload \<longleftrightarrow> checksum d = doc_crc_update (checksum_header_seed d) payload"

section \<open>Builder\<close>

record DocumentBuilder =
  b_key :: bytes
  b_header :: bytes
  b_content :: bytes
  b_type :: u8
  b_flags :: u8
  b_total_len :: u64
  b_frag_offset :: u32
  b_enable_checksum :: bool
  b_alternate_id :: u8
  b_next_alternate_offset :: u64
  b_hit_count :: u32
  b_last_access :: u64

definition DocumentBuilder_default :: DocumentBuilder where
  "DocumentBuilder_default =
     \<lparr>b_key = replicate 32 0, b_header = [], b_content = [], b_type = Type_SingleFrag, b_flags = 0,
      b_total_len = 0, b_frag_offset = 0, b_enable_checksum = True, b_alternate_id = 0,
      b_next_alternate_offset = 0, b_hit_count = 0, b_last_access = 0\<rparr>"

definition builder_document :: "DocumentBuilder \<Rightarrow> bytes \<Rightarrow> Document" where
  "builder_document b content = Document_default
     \<lparr>len := of_nat (kHeaderSize + length (b_header b) + length content),
      total_len := (if b_total_len b > 0 then b_total_len b else of_nat (length content)),
      header_len := of_nat (length (b_header b)), doc_type := b_type b, flags := b_flags b,
      frag_offset := b_frag_offset b, alternate_id := b_alternate_id b,
      next_alternate_offset := b_next_alternate_offset b, hit_count := b_hit_count b,
      last_access := b_last_access b, first_key := b_key b, fragment_key := b_key b\<rparr>"

definition serialize_head :: "DocumentBuilder \<Rightarrow> bytes \<Rightarrow> bytes" where
  "serialize_head b content =
     (let total_size = kHeaderSize + length (b_header b) + length content in
      if total_size > 2 ^ 32 - 1 then []
      else if length (b_header b) > 2 ^ 32 - 1 then []
      else
        let doc = builder_document b content;
            result = serialize doc [] @ b_header b
        in if b_enable_checksum b then
             let crc = doc_crc_update (doc_crc_update (checksum_header_seed doc) (b_header b)) content
             in put_at kChecksumOffset (to_le 4 crc) result
           else result)"

definition build :: "DocumentBuilder \<Rightarrow> bytes" where
  "build b = (let result = serialize_head b (b_content b) in if result = [] then [] else result @ b_content b)"

definition build_head :: "DocumentBuilder \<Rightarrow> bytes \<Rightarrow> bytes" where
  "build_head b content = serialize_head b content"

section \<open>Reader\<close>

record DocumentReader =
  r_doc :: Document
  r_data :: bytes
  r_valid :: bool

definition document_reader :: "bytes \<Rightarrow> DocumentReader" where
  "document_reader data =
     (if length data \<ge> kHeaderSize then
        let doc = deserialize data in \<lparr>r_doc = doc, r_data = data, r_valid = is_valid_and_compatible doc\<rparr>
      else \<lparr>r_doc = Document_default, r_data = data, r_valid = False\<rparr>)"

definition mapped_document_reader :: "nat \<Rightarrow> bytes \<Rightarrow> DocumentReader" where
  "mapped_document_reader address data =
     (if address mod 8 \<noteq> 0 then \<lparr>r_doc = Document_default, r_data = data, r_valid = False\<rparr>
      else document_reader data)"

definition is_servable :: "DocumentReader \<Rightarrow> bool" where
  "is_servable r \<longleftrightarrow> r_valid r \<and> has_volume_shape (r_doc r)"

definition reader_header :: "DocumentReader \<Rightarrow> bytes" where
  "reader_header r =
     (if \<not> r_valid r \<or> length (r_data r) < kHeaderSize \<or>
         unat (header_len (r_doc r)) > length (r_data r) - kHeaderSize then []
      else subspan kHeaderSize (unat (header_len (r_doc r))) (r_data r))"

definition reader_content :: "DocumentReader \<Rightarrow> bytes" where
  "reader_content r =
     (let l = unat (len (r_doc r)); h = unat (header_len (r_doc r)); size = length (r_data r) in
      if \<not> r_valid r then []
      else if l < kHeaderSize \<or> h > l - kHeaderSize then []
      else
        let content_start = kHeaderSize + h in
        if content_start > size then []
        else
          let content_len = l - kHeaderSize - h;
              content_len = (if content_start + content_len > size then size - content_start else content_len)
          in subspan content_start content_len (r_data r))"

definition reader_payload :: "DocumentReader \<Rightarrow> bytes" where
  "reader_payload r =
     (let l = unat (len (r_doc r)); size = length (r_data r) in
      if \<not> r_valid r \<or> size \<le> kHeaderSize then []
      else
        let payload_len = (if l > kHeaderSize then l - kHeaderSize else 0);
            payload_len = (if kHeaderSize + payload_len > size then size - kHeaderSize else payload_len)
        in subspan kHeaderSize payload_len (r_data r))"

definition reader_first_key :: "DocumentReader \<Rightarrow> bytes" where
  "reader_first_key r = first_key (r_doc r)"

definition reader_fragment_key :: "DocumentReader \<Rightarrow> bytes" where
  "reader_fragment_key r = fragment_key (r_doc r)"

section \<open>In-place updates\<close>

text \<open>
  The stores of the volume into a document that is already serialised: the pass stamp, the
  fill serial, a chain repoint, and the saturating hit count with the access time.
\<close>

definition patch_pass_stamp :: "u64 \<Rightarrow> bytes \<Rightarrow> bytes" where
  "patch_pass_stamp pass doc =
     (if length doc < kHeaderSize then doc
      else put_at kWriteSerialOffset (to_le 4 (ucast pass :: u32)) doc)"

definition patch_fill_serial :: "u16 \<Rightarrow> bytes \<Rightarrow> bytes" where
  "patch_fill_serial serial doc =
     (if length doc < kHeaderSize then doc
      else put_at kFillSerialOffset (to_le 4 (ucast serial :: u32)) doc)"

definition apply_repoint :: "u64 \<Rightarrow> bytes \<Rightarrow> bytes" where
  "apply_repoint new_next_offset header = put_at kNextAlternateOffsetPos (to_le 8 new_next_offset) header"

definition apply_hit_count :: "u32 \<Rightarrow> u64 \<Rightarrow> bytes \<Rightarrow> bytes" where
  "apply_hit_count hit_delta last_access_ms header =
     (let current = from_le (subspan kHitCountOffset 4 header) :: u32;
          updated = (if hit_delta \<le> - 1 - current then current + hit_delta else - 1);
          header = put_at kHitCountOffset (to_le 4 updated) header
      in put_at kLastAccessOffset (to_le 8 last_access_ms) header)"

datatype in_place_op = StampPass u64 | StampFill u16 | Repoint u64 | AddHits u32 u64

fun in_place :: "in_place_op \<Rightarrow> bytes \<Rightarrow> bytes" where
  "in_place (StampPass pass) = patch_pass_stamp pass"
| "in_place (StampFill serial) = patch_fill_serial serial"
| "in_place (Repoint next) = apply_repoint next"
| "in_place (AddHits delta now) = apply_hit_count delta now"

section \<open>Lists of fields\<close>

lemma read_fields_concat:
  "map length cs = fs \<Longrightarrow> read_fields fs (concat cs @ rest) = cs"
proof (induction fs arbitrary: cs)
  case Nil
  then show ?case by simp
next
  case (Cons f fs)
  then obtain c cs' where "cs = c # cs'" "length c = f" "map length cs' = fs"
    by (cases cs) auto
  then show ?case
    using Cons.IH[of cs'] by simp
qed

lemma concat_read_fields: "sum_list fs \<le> length p \<Longrightarrow> concat (read_fields fs p) = take (sum_list fs) p"
proof (induction fs arbitrary: p)
  case Nil
  then show ?case by simp
next
  case (Cons f fs)
  then show ?case
    by (simp add: take_add)
qed

lemma map_length_read_fields: "sum_list fs \<le> length p \<Longrightarrow> map length (read_fields fs p) = fs"
  by (induction fs arbitrary: p) auto

text \<open>Overwriting a whole field of a concatenation.\<close>

lemma put_at_concat:
  assumes "k < length cs" and "length (cs ! k) = length src" and "off = sum_list (take k (map length cs))"
  shows "put_at off src (concat cs @ rest) = concat (cs[k := src]) @ rest"
proof -
  have cs: "concat cs = concat (take k cs) @ cs ! k @ concat (drop (Suc k) cs)"
    using id_take_nth_drop[OF assms(1)] by (metis concat.simps(2) concat_append)
  have off: "off = length (concat (take k cs))"
    by (simp add: assms(3) length_concat take_map)
  have "concat (cs[k := src]) = concat (take k cs) @ src @ concat (drop (Suc k) cs)"
    using assms(1) by (simp add: upd_conv_take_nth_drop)
  then show ?thesis
    by (simp add: put_at_def off cs assms(2)[symmetric])
qed

section \<open>The header round trip\<close>

lemma map_length_field_bytes [layout]: "document_wf d \<Longrightarrow> map length (field_bytes d) = kDocumentFields"
  by (simp add: document_wf_def field_bytes_def kDocumentFields_def)

lemma sum_kDocumentFields [layout]: "sum_list kDocumentFields = 132"
  by (simp add: kDocumentFields_def)

lemma length_serialize_to [layout]: "document_wf d \<Longrightarrow> length (serialize_to d) = 132"
  by (simp add: serialize_to_def length_concat map_length_field_bytes sum_kDocumentFields)

lemma document_of_field_bytes [simp]: "document_of (field_bytes d) = d"
  by (simp add: document_of_def field_bytes_def)

lemma deserialize_serialize:
  assumes "document_wf d"
  shows "deserialize (serialize_to d @ rest) = d"
  using assms by (simp add: deserialize_def length_serialize_to kHeaderSize_def)
    (simp add: serialize_to_def read_fields_concat map_length_field_bytes)

lemma to_le_from_le_n: "length p = n \<Longrightarrow> 8 * n \<le> LENGTH('a) \<Longrightarrow> to_le n (from_le p :: 'a::len word) = p"
  using to_le_from_le[of p, where 'a = 'a] by simp

lemma field_bytes_document_of:
  assumes "map length fs = kDocumentFields"
  shows "field_bytes (document_of fs) = fs" and "document_wf (document_of fs)"
proof -
  have len: "length fs = 20"
    using arg_cong[OF assms, of length] by (simp add: kDocumentFields_def)
  have l: "length (fs ! i) = kDocumentFields ! i" if "i < 20" for i
    using assms that len by (metis nth_map)
  have ls: "length (fs ! 0) = 4" "length (fs ! 1) = 4" "length (fs ! 2) = 8" "length (fs ! 3) = 32"
    "length (fs ! 4) = 32" "length (fs ! 5) = 4" "length (fs ! 6) = 1" "length (fs ! 7) = 1"
    "length (fs ! 8) = 1" "length (fs ! 9) = 1" "length (fs ! 10) = 4" "length (fs ! 11) = 4"
    "length (fs ! 12) = 4" "length (fs ! 13) = 4" "length (fs ! 14) = 4" "length (fs ! 15) = 4"
    "length (fs ! 16) = 8" "length (fs ! 17) = 8" "length (fs ! 18) = 1" "length (fs ! 19) = 3"
    by (simp_all add: l kDocumentFields_def)
  have upt: "[0 ..< 20] = [0, 1, 2, 3, 4, 5, 6, 7, 8, 9, 10, 11, 12, 13, 14, 15, 16, 17, 18, 19 :: nat]"
    by code_simp
  have "map (\<lambda>i. fs ! i) [0 ..< 20] = fs"
    using map_nth[of fs] len by simp
  then have "fs = [fs ! 0, fs ! 1, fs ! 2, fs ! 3, fs ! 4, fs ! 5, fs ! 6, fs ! 7, fs ! 8, fs ! 9,
      fs ! 10, fs ! 11, fs ! 12, fs ! 13, fs ! 14, fs ! 15, fs ! 16, fs ! 17, fs ! 18, fs ! 19]"
    unfolding upt by simp
  moreover have "field_bytes (document_of fs) = [fs ! 0, fs ! 1, fs ! 2, fs ! 3, fs ! 4, fs ! 5, fs ! 6, fs ! 7,
      fs ! 8, fs ! 9, fs ! 10, fs ! 11, fs ! 12, fs ! 13, fs ! 14, fs ! 15, fs ! 16, fs ! 17, fs ! 18, fs ! 19]"
    by (simp add: field_bytes_def document_of_def to_le_from_le_n ls del: One_nat_def)
  ultimately show "field_bytes (document_of fs) = fs" by simp
  show "document_wf (document_of fs)"
    by (simp add: document_wf_def document_of_def ls)
qed

lemma document_wf_deserialize: "document_wf (deserialize data)"
proof (cases "length data < kHeaderSize")
  case True
  then show ?thesis
    by (simp add: deserialize_def document_wf_def Document_default_def)
next
  case False
  then show ?thesis
    using field_bytes_document_of(2)[OF map_length_read_fields[of kDocumentFields data]]
    by (simp add: deserialize_def kHeaderSize_def sum_kDocumentFields)
qed

lemma serialize_deserialize:
  assumes "132 \<le> length data"
  shows "serialize_to (deserialize data) = take 132 data"
  using assms map_length_read_fields[of kDocumentFields data] concat_read_fields[of kDocumentFields data]
  by (simp add: deserialize_def serialize_to_def kHeaderSize_def sum_kDocumentFields field_bytes_document_of)

section \<open>In-place updates of a stored header\<close>

lemma put_field:
  assumes "document_wf d" and "k < 20" and "length src = kDocumentFields ! k"
  shows "put_at (wire_offset_of k) src (serialize_to d @ rest) = concat ((field_bytes d)[k := src]) @ rest"
  unfolding serialize_to_def
proof (rule put_at_concat)
  have l: "length (field_bytes d) = 20" by (simp add: field_bytes_def)
  then show "k < length (field_bytes d)" using assms by simp
  have "length (field_bytes d ! k) = map length (field_bytes d) ! k"
    using l assms(2) by simp
  then show "length (field_bytes d ! k) = length src"
    using assms by (simp add: map_length_field_bytes)
  show "wire_offset_of k = sum_list (take k (map length (field_bytes d)))"
    using assms by (simp add: wire_offset_of_def map_length_field_bytes)
qed

lemma put_in_place [layout]:
  assumes "document_wf d"
  shows "put_at kFillSerialOffset (to_le 4 v) (serialize_to d @ rest) = serialize_to (d\<lparr>fill_serial := v\<rparr>) @ rest"
    and "put_at kWriteSerialOffset (to_le 4 v) (serialize_to d @ rest) = serialize_to (d\<lparr>write_serial := v\<rparr>) @ rest"
    and "put_at kChecksumOffset (to_le 4 v) (serialize_to d @ rest) = serialize_to (d\<lparr>checksum := v\<rparr>) @ rest"
    and "put_at kHitCountOffset (to_le 4 v) (serialize_to d @ rest) = serialize_to (d\<lparr>hit_count := v\<rparr>) @ rest"
    and "put_at kNextAlternateOffsetPos (to_le 8 l) (serialize_to d @ rest) =
      serialize_to (d\<lparr>next_alternate_offset := l\<rparr>) @ rest"
    and "put_at kLastAccessOffset (to_le 8 l) (serialize_to d @ rest) = serialize_to (d\<lparr>last_access := l\<rparr>) @ rest"
proof -
  have off: "kFillSerialOffset = wire_offset_of 10" "kWriteSerialOffset = wire_offset_of 11"
    "kChecksumOffset = wire_offset_of 13" "kHitCountOffset = wire_offset_of 15"
    "kNextAlternateOffsetPos = wire_offset_of 16" "kLastAccessOffset = wire_offset_of 17"
    by (simp_all add: wire_offset_of_def kDocumentFields_def kFillSerialOffset_def kWriteSerialOffset_def
        kChecksumOffset_def kHitCountOffset_def kNextAlternateOffsetPos_def kLastAccessOffset_def)
  have sz: "kDocumentFields ! 10 = 4" "kDocumentFields ! 11 = 4" "kDocumentFields ! 13 = 4"
    "kDocumentFields ! 15 = 4" "kDocumentFields ! 16 = 8" "kDocumentFields ! 17 = 8"
    by (simp_all add: kDocumentFields_def)
  note put = put_field[OF assms]
  show "put_at kFillSerialOffset (to_le 4 v) (serialize_to d @ rest) = serialize_to (d\<lparr>fill_serial := v\<rparr>) @ rest"
    unfolding off by (subst put) (simp_all add: sz, simp add: serialize_to_def field_bytes_def)
  show "put_at kWriteSerialOffset (to_le 4 v) (serialize_to d @ rest) = serialize_to (d\<lparr>write_serial := v\<rparr>) @ rest"
    unfolding off by (subst put) (simp_all add: sz, simp add: serialize_to_def field_bytes_def)
  show "put_at kChecksumOffset (to_le 4 v) (serialize_to d @ rest) = serialize_to (d\<lparr>checksum := v\<rparr>) @ rest"
    unfolding off by (subst put) (simp_all add: sz, simp add: serialize_to_def field_bytes_def)
  show "put_at kHitCountOffset (to_le 4 v) (serialize_to d @ rest) = serialize_to (d\<lparr>hit_count := v\<rparr>) @ rest"
    unfolding off by (subst put) (simp_all add: sz, simp add: serialize_to_def field_bytes_def)
  show "put_at kNextAlternateOffsetPos (to_le 8 l) (serialize_to d @ rest) =
      serialize_to (d\<lparr>next_alternate_offset := l\<rparr>) @ rest"
    unfolding off by (subst put) (simp_all add: sz, simp add: serialize_to_def field_bytes_def)
  show "put_at kLastAccessOffset (to_le 8 l) (serialize_to d @ rest) = serialize_to (d\<lparr>last_access := l\<rparr>) @ rest"
    unfolding off by (subst put) (simp_all add: sz, simp add: serialize_to_def field_bytes_def)
qed

text \<open>The document with its mutable fields cleared: what the checksum sees of the header.\<close>

definition canonical_document :: "Document \<Rightarrow> Document" where
  "canonical_document d = d\<lparr>fill_serial := 0, write_serial := 0, checksum := 0, hit_count := 0,
     next_alternate_offset := 0, last_access := 0\<rparr>"

lemma document_wf_update [simp]:
  "document_wf (d\<lparr>fill_serial := v\<rparr>) = document_wf d" "document_wf (d\<lparr>write_serial := v\<rparr>) = document_wf d"
  "document_wf (d\<lparr>checksum := v\<rparr>) = document_wf d" "document_wf (d\<lparr>hit_count := v\<rparr>) = document_wf d"
  "document_wf (d\<lparr>next_alternate_offset := l\<rparr>) = document_wf d" "document_wf (d\<lparr>last_access := l\<rparr>) = document_wf d"
  "document_wf (canonical_document d) = document_wf d"
  by (simp_all add: document_wf_def canonical_document_def)

lemma replicate_to_le: "replicate n 0 = to_le n (0 :: 'a::len word)"
  by (rule nth_equalityI) simp_all

lemma canonical_header_serialize:
  assumes "document_wf d"
  shows "canonical_header (serialize_to d) = serialize_to (canonical_document d)"
proof -
  note p = put_in_place[where rest = "[]", simplified]
  have z: "replicate 4 (0 :: byte) = to_le 4 (0 :: u32)" "replicate 8 (0 :: byte) = to_le 8 (0 :: u64)"
    by (simp_all only: replicate_to_le)
  show ?thesis
    using assms by (simp add: canonical_header_def kInPlace_def z p canonical_document_def)
qed

lemma doc_crc_update_append: "doc_crc_update (doc_crc_update s p) q = doc_crc_update s (p @ q)"
  by (simp add: doc_crc_update_def crc32c_update_portable_ref crc_ref_append)

lemma verify_checksum_iff:
  assumes "document_wf d"
  shows "verify_checksum d payload \<longleftrightarrow>
    checksum d = doc_crc_update 0 (serialize_to (canonical_document d) @ payload)"
  using assms
  by (simp add: verify_checksum_def checksum_header_seed_def canonical_header_serialize doc_crc_update_append)

text \<open>An in-place update of a stored document is an update of the fields outside the checksum.\<close>

lemma subspan_hit_count:
  assumes "document_wf d"
  shows "from_le (subspan kHitCountOffset 4 (serialize_to d @ rest)) = hit_count d"
proof -
  have "length (serialize_to d) = 132"
    using assms by (rule length_serialize_to)
  then have "subspan kHitCountOffset 4 (serialize_to d @ rest) = subspan 108 4 (serialize_to d)"
    by (simp add: subspan_append_left kHitCountOffset_def)
  also have "\<dots> = to_le 4 (hit_count d)"
    using assms by (simp add: serialize_to_def field_bytes_def subspan_def document_wf_def)
  finally show ?thesis by simp
qed

lemma in_place_document:
  assumes "document_wf d"
  shows "\<exists>d'. in_place op (serialize_to d @ rest) = serialize_to d' @ rest \<and> document_wf d' \<and>
    canonical_document d' = canonical_document d \<and> checksum d' = checksum d"
proof (cases op)
  case (StampPass pass)
  then show ?thesis
    using assms length_serialize_to[OF assms] put_in_place(2)[OF assms]
    by (intro exI[of _ "d\<lparr>write_serial := ucast pass\<rparr>"])
      (simp add: patch_pass_stamp_def kHeaderSize_def canonical_document_def)
next
  case (StampFill serial)
  then show ?thesis
    using assms length_serialize_to[OF assms] put_in_place(1)[OF assms]
    by (intro exI[of _ "d\<lparr>fill_serial := ucast serial\<rparr>"])
      (simp add: patch_fill_serial_def kHeaderSize_def canonical_document_def)
next
  case (Repoint next_link)
  then show ?thesis
    using assms put_in_place(5)[OF assms]
    by (intro exI[of _ "d\<lparr>next_alternate_offset := next_link\<rparr>"])
      (simp add: apply_repoint_def canonical_document_def)
next
  case (AddHits delta now)
  let ?h = "if delta \<le> - 1 - hit_count d then hit_count d + delta else - 1"
  have "in_place op (serialize_to d @ rest) = serialize_to (d\<lparr>hit_count := ?h, last_access := now\<rparr>) @ rest"
    using assms by (simp add: AddHits apply_hit_count_def Let_def subspan_hit_count put_in_place)
  then show ?thesis
    using assms by (intro exI[of _ "d\<lparr>hit_count := ?h, last_access := now\<rparr>"])
      (simp add: canonical_document_def)
qed

lemma fold_in_place_document:
  assumes "document_wf d"
  shows "\<exists>d'. fold in_place ops (serialize_to d @ rest) = serialize_to d' @ rest \<and> document_wf d' \<and>
    canonical_document d' = canonical_document d \<and> checksum d' = checksum d"
  using assms
proof (induction ops arbitrary: d)
  case Nil
  then show ?case by auto
next
  case (Cons op ops)
  obtain d1 where "in_place op (serialize_to d @ rest) = serialize_to d1 @ rest" "document_wf d1"
    "canonical_document d1 = canonical_document d" "checksum d1 = checksum d"
    using in_place_document[OF Cons.prems] by blast
  then show ?case
    using Cons.IH[of d1] by auto
qed

lemma canonical_document_fields:
  assumes "canonical_document d' = canonical_document d"
  shows "magic d' = magic d" "len d' = len d" "total_len d' = total_len d" "first_key d' = first_key d"
    "fragment_key d' = fragment_key d" "header_len d' = header_len d" "doc_type d' = doc_type d"
    "version_major d' = version_major d" "flags d' = flags d" "frag_offset d' = frag_offset d"
    "alternate_id d' = alternate_id d"
  using assms by (cases d; cases d'; simp add: canonical_document_def)+

section \<open>Reading what was built\<close>

lemma reader_parts:
  assumes d: "document_wf d" "is_valid_and_compatible d"
    and l: "unat (len d) = 132 + length h + length c" "unat (header_len d) = length h"
    and r: "r = document_reader (serialize_to d @ h @ c @ rest)"
  shows "r_valid r" "r_doc r = d" "reader_header r = h" "reader_content r = c" "reader_payload r = h @ c"
proof -
  have len: "length (serialize_to d) = 132"
    using d(1) by (rule length_serialize_to)
  have r': "r = \<lparr>r_doc = d, r_data = serialize_to d @ h @ c @ rest, r_valid = True\<rparr>"
    using d by (simp add: r document_reader_def kHeaderSize_def len deserialize_serialize Let_def)
  show "r_valid r" "r_doc r = d"
    by (simp_all add: r')
  show "reader_header r = h" "reader_content r = c"
    using l by (simp_all add: r' reader_header_def reader_content_def kHeaderSize_def len Let_def subspan_def)
  show "reader_payload r = h @ c"
    using l by (cases "h @ c = []") (auto simp: r' reader_payload_def kHeaderSize_def len Let_def subspan_def)
qed

lemma document_wf_builder [simp]: "document_wf (builder_document b content) \<longleftrightarrow> length (b_key b) = 32"
  by (simp add: document_wf_def builder_document_def Document_default_def)

lemma builder_document_valid: "is_valid_and_compatible (builder_document b content)"
  by (simp add: is_valid_and_compatible_def doc_is_valid_def is_version_compatible_def
      builder_document_def Document_default_def)

lemma builder_document_sizes:
  assumes "132 + length (b_header b) + length content < 2 ^ 32" and "b_total_len b = 0"
  shows "unat (len (builder_document b content)) = 132 + length (b_header b) + length content"
    and "unat (header_len (builder_document b content)) = length (b_header b)"
    and "unat (total_len (builder_document b content)) = length content"
proof -
  have "unat (of_nat n :: u32) = n" "unat (of_nat n :: u64) = n" if "n < 2 ^ 32" for n
    using that by (simp_all add: unat_of_nat take_bit_nat_eq_self)
  then show "unat (len (builder_document b content)) = 132 + length (b_header b) + length content"
    "unat (header_len (builder_document b content)) = length (b_header b)"
    "unat (total_len (builder_document b content)) = length content"
    using assms by (simp_all add: builder_document_def kHeaderSize_def del: of_nat_add)
qed

lemma canonical_set_checksum [simp]: "canonical_document (d\<lparr>checksum := v\<rparr>) = canonical_document d"
  by (simp add: canonical_document_def)

lemma head_serialized:
  assumes "length (b_key b) = 32" and "132 + length (b_header b) + length content < 2 ^ 32" and "b_enable_checksum b"
  shows "\<exists>d. serialize_head b content = serialize_to d @ b_header b \<and> document_wf d \<and>
    canonical_document d = canonical_document (builder_document b content) \<and>
    verify_checksum d (b_header b @ content)"
proof -
  let ?doc = "builder_document b content"
  let ?crc = "doc_crc_update (doc_crc_update (checksum_header_seed ?doc) (b_header b)) content"
  let ?d = "?doc\<lparr>checksum := ?crc\<rparr>"
  have wf: "document_wf ?doc" using assms(1) by simp
  have "serialize_head b content = serialize_to ?d @ b_header b"
    using assms wf by (simp add: serialize_head_def kHeaderSize_def Let_def serialize_def put_in_place)
  moreover have "verify_checksum ?d (b_header b @ content)"
    using wf by (simp add: verify_checksum_iff checksum_header_seed_def canonical_header_serialize doc_crc_update_append)
  ultimately show ?thesis
    using wf by (intro exI[of _ ?d]) simp
qed

lemma build_serialized:
  assumes "length (b_key b) = 32" and "132 + length (b_header b) + length (b_content b) < 2 ^ 32" and "b_enable_checksum b"
  shows "\<exists>d. build b = serialize_to d @ b_header b @ b_content b \<and> document_wf d \<and>
    canonical_document d = canonical_document (builder_document b (b_content b)) \<and>
    verify_checksum d (b_header b @ b_content b)"
proof -
  obtain d where d: "serialize_head b (b_content b) = serialize_to d @ b_header b" "document_wf d"
    "canonical_document d = canonical_document (builder_document b (b_content b))" "verify_checksum d (b_header b @ b_content b)"
    using head_serialized[OF assms] by blast
  have "serialize_to d \<noteq> []"
    using length_serialize_to[OF d(2)] by auto
  then show ?thesis
    using d by (intro exI[of _ d]) (simp add: build_def Let_def)
qed

text \<open>A serialised document of the builder's shape, whatever its mutable fields hold.\<close>

definition volume_document :: "bytes \<Rightarrow> bytes \<Rightarrow> bytes \<Rightarrow> Document \<Rightarrow> bool" where
  "volume_document key h c d \<longleftrightarrow> document_wf d \<and> is_valid_and_compatible d \<and> has_volume_shape d \<and> first_key d = key \<and>
     fragment_key d = key \<and> unat (len d) = 132 + length h + length c \<and> unat (header_len d) = length h \<and>
     verify_checksum d (h @ c)"

lemma volume_documentI:
  assumes "132 + length (b_header b) + length content < 2 ^ 32" and "b_total_len b = 0"
    and "b_type b = Type_SingleFrag" and "b_frag_offset b = 0" and "document_wf d"
    and "canonical_document d = canonical_document (builder_document b content)" and "verify_checksum d (b_header b @ content)"
  shows "volume_document (b_key b) (b_header b) content d"
proof -
  note fields = canonical_document_fields[OF assms(6)]
  show ?thesis
    using assms(3-5,7) builder_document_sizes[OF assms(1,2)] builder_document_valid[of b content]
    by (simp add: volume_document_def fields is_valid_and_compatible_def doc_is_valid_def is_version_compatible_def
        has_volume_shape_def kHeaderSize_def, simp add: builder_document_def)
qed

lemma verify_checksum_in_place:
  assumes "document_wf d" "document_wf d'" "canonical_document d' = canonical_document d" "checksum d' = checksum d"
  shows "verify_checksum d' p = verify_checksum d p"
  using assms by (simp add: verify_checksum_iff)

text \<open>
  C20.
  The 132-byte wire header round trips: every document header reads back as itself from
  its serialisation, whatever follows it, and every header image of at least 132 bytes
  serialises back to the same bytes.
\<close>

theorem document_header_roundtrip:
  "(document_wf d \<longrightarrow> deserialize (serialize_to d @ rest) = d \<and> length (serialize_to d) = kHeaderSize) \<and>
   (kHeaderSize \<le> length data \<longrightarrow> serialize_to (deserialize data) = take kHeaderSize data)"
  using deserialize_serialize[of d rest] serialize_deserialize[of data] length_serialize_to[of d]
  by (simp add: kHeaderSize_def)

theorem document_header_roundtrip_witness:
  "deserialize (serialize_to (Document_default\<lparr>len := 140, hit_count := 7\<rparr>) @ [1, 2]) =
     Document_default\<lparr>len := 140, hit_count := 7\<rparr> \<and>
   serialize_to (deserialize (replicate 140 1)) = replicate 132 1"
  using document_header_roundtrip[of "Document_default\<lparr>len := 140, hit_count := 7\<rparr>" "[1, 2]" "replicate 140 1"]
  by (simp add: document_wf_def Document_default_def kHeaderSize_def)

text \<open>
  C21.
  What the builder serialises reads back: a document built with the volume's shape, with its
  pass stamp, fill serial, chain link, hit count and access time then updated in place any
  number of times, is servable from the 8-aligned mapping, yields the header bytes, the
  content and the key it was built from, and its checksum still verifies.
\<close>

theorem built_document_reads_back:
  assumes "length (b_key b) = 32" and "132 + length (b_header b) + length (b_content b) < 2 ^ 32"
    and "b_enable_checksum b" and "b_total_len b = 0" and "b_type b = Type_SingleFrag" and "b_frag_offset b = 0"
    and "address mod 8 = 0" and "r = mapped_document_reader address (fold in_place ops (build b @ rest))"
  shows "is_servable r \<and> reader_header r = b_header b \<and> reader_content r = b_content b \<and>
    reader_first_key r = b_key b \<and> reader_fragment_key r = b_key b \<and>
    verify_checksum (r_doc r) (reader_payload r)"
proof -
  let ?doc = "builder_document b (b_content b)" and ?rest = "b_header b @ b_content b @ rest"
  obtain d0 where d0: "build b = serialize_to d0 @ b_header b @ b_content b" "document_wf d0"
    "canonical_document d0 = canonical_document ?doc" "verify_checksum d0 (b_header b @ b_content b)"
    using build_serialized assms by blast
  obtain d where d: "fold in_place ops (serialize_to d0 @ ?rest) = serialize_to d @ ?rest"
    "document_wf d" "canonical_document d = canonical_document d0" "checksum d = checksum d0"
    using fold_in_place_document[OF d0(2)] by blast
  have r: "r = document_reader (serialize_to d @ ?rest)"
    using assms(7,8) d(1) d0(1) by (simp add: mapped_document_reader_def)
  have doc: "volume_document (b_key b) (b_header b) (b_content b) d"
    using assms d(2) d(3)[unfolded d0(3)] verify_checksum_in_place[OF d0(2) d(2,3,4)] d0(4) by (intro volume_documentI) simp_all
  note parts = reader_parts[OF _ _ _ _ r]
  show ?thesis
    using doc parts
    by (simp add: volume_document_def is_servable_def reader_first_key_def reader_fragment_key_def)
qed

definition sample_builder :: DocumentBuilder where
  "sample_builder = DocumentBuilder_default\<lparr>b_header := [1, 2, 3], b_content := [4, 5]\<rparr>"

theorem built_document_reads_back_witness:
  "reader_content (mapped_document_reader 4096
     (fold in_place [StampPass 3, AddHits 2 1000, Repoint 4096, StampFill 9] (build sample_builder @ [0, 0, 0]))) = [4, 5]"
  using built_document_reads_back[of sample_builder 4096 _ "[StampPass 3, AddHits 2 1000, Repoint 4096, StampFill 9]" "[0, 0, 0]", OF _ _ _ _ _ _ _ refl]
  by (simp add: sample_builder_def DocumentBuilder_default_def)

section \<open>Corruption is detected\<close>

lemma read_fields_nth:
  "k < length fs \<Longrightarrow> read_fields fs p ! k = subspan (sum_list (take k fs)) (fs ! k) p"
proof (induction fs arbitrary: k p)
  case Nil
  then show ?case by simp
next
  case (Cons f fs)
  then show ?case
    by (cases k) (simp_all add: subspan_def add.commute)
qed

lemma deserialize_len_checksum:
  assumes "132 \<le> length data"
  shows "len (deserialize data) = from_le (subspan 4 4 data)"
    and "checksum (deserialize data) = from_le (subspan kChecksumOffset 4 data)"
  using assms read_fields_nth[of 1 kDocumentFields data] read_fields_nth[of 13 kDocumentFields data]
  by (simp_all add: deserialize_def kHeaderSize_def document_of_def kDocumentFields_def kChecksumOffset_def)

text \<open>Byte i of the fixed header is stamped or updated in place.\<close>

definition mutable_byte :: "nat \<Rightarrow> bool" where
  "mutable_byte i \<longleftrightarrow> list_ex (\<lambda>(off, size). off \<le> i \<and> i < off + size) kInPlace"

text \<open>The window of n bytes at off touches neither the mutable fields nor the length field.\<close>

definition window_covered :: "nat \<Rightarrow> nat \<Rightarrow> bool" where
  "window_covered off n \<longleftrightarrow> list_all (\<lambda>(o', s). off + n \<le> o' \<or> o' + s \<le> off) ((4, 4) # kInPlace)"

lemma foldl_put_zero_nth:
  assumes "list_all (\<lambda>(off, size). off + size \<le> length buf) ps" and "i < length buf"
  shows "length (foldl (\<lambda>b (off, size). put_at off (replicate size (0 :: byte)) b) buf ps) = length buf \<and>
    foldl (\<lambda>b (off, size). put_at off (replicate size 0) b) buf ps ! i =
      (if list_ex (\<lambda>(off, size). off \<le> i \<and> i < off + size) ps then 0 else buf ! i)"
  using assms
proof (induction ps arbitrary: buf)
  case Nil
  then show ?case by simp
next
  case (Cons q ps)
  obtain off size where q: "q = (off, size)" by (cases q)
  have fit: "off + size \<le> length buf" using Cons.prems(1) by (simp add: q)
  then show ?case
    using Cons.IH[of "put_at off (replicate size 0) buf"] Cons.prems
    by (auto simp: q nth_put_at)
qed

text \<open>What the checksum of an image covers: its canonical header and m - 132 bytes of payload.\<close>

definition checked_image :: "nat \<Rightarrow> bytes \<Rightarrow> bytes" where
  "checked_image m data = canonical_header (take 132 data) @ subspan 132 (m - 132) data"

lemma checked_image_nth:
  assumes "132 \<le> m" and "m \<le> length data"
  shows "length (checked_image m data) = m"
    and "i < m \<Longrightarrow> checked_image m data ! i = (if mutable_byte i then 0 else data ! i)"
proof -
  have ps: "list_all (\<lambda>(off, size). off + size \<le> length (take 132 data)) kInPlace"
    using assms by (simp add: kInPlace_def kFillSerialOffset_def kWriteSerialOffset_def kChecksumOffset_def
        kHitCountOffset_def kNextAlternateOffsetPos_def kLastAccessOffset_def)
  have c: "length (canonical_header (take 132 data)) = 132"
    "i < 132 \<Longrightarrow> canonical_header (take 132 data) ! i = (if mutable_byte i then 0 else data ! i)" for i
    using foldl_put_zero_nth[OF ps, of 0] foldl_put_zero_nth[OF ps, of i] assms
    by (simp_all add: canonical_header_def mutable_byte_def)
  show "length (checked_image m data) = m"
    using assms by (simp add: checked_image_def c)
  have hi: "\<not> mutable_byte i" if "132 \<le> i" for i
    using that by (simp add: mutable_byte_def kInPlace_def kFillSerialOffset_def kWriteSerialOffset_def
        kChecksumOffset_def kHitCountOffset_def kNextAlternateOffsetPos_def kLastAccessOffset_def)
  show "checked_image m data ! i = (if mutable_byte i then 0 else data ! i)" if "i < m"
  proof (cases "i < 132")
    case True
    then show ?thesis by (simp add: checked_image_def nth_append c)
  next
    case False
    then show ?thesis using that assms hi[of i] by (simp add: checked_image_def nth_append c nth_subspan)
  qed
qed

lemma reader_verifies_iff:
  assumes "r = document_reader data" and "r_valid r" and "132 \<le> m" "m \<le> length data" "unat (len (r_doc r)) = m"
  shows "verify_checksum (r_doc r) (reader_payload r) \<longleftrightarrow>
    from_le (subspan kChecksumOffset 4 data) = doc_crc_update 0 (checked_image m data)"
proof -
  have l: "132 \<le> length data" using assms by simp
  then have d: "r_doc r = deserialize data" "r_data r = data"
    by (simp_all add: assms(1) document_reader_def kHeaderSize_def Let_def)
  have "reader_payload r = subspan 132 (m - 132) data"
    using assms(2-5) d by (auto simp: reader_payload_def kHeaderSize_def Let_def subspan_def)
  moreover have "serialize_to (canonical_document (deserialize data)) = canonical_header (take 132 data)"
    using canonical_header_serialize[OF document_wf_deserialize, of data] serialize_deserialize[OF l] by simp
  ultimately show ?thesis
    using verify_checksum_iff[OF document_wf_deserialize, of data] deserialize_len_checksum(2)[OF l]
    by (simp add: d checked_image_def)
qed

lemma doc_crc_update_burst:
  assumes "doc_crc_update s I = doc_crc_update s I'" and "length I = length I'" and "n \<le> 4" and "off + n \<le> length I"
    and "\<And>i. i < length I \<Longrightarrow> i < off \<or> off + n \<le> i \<Longrightarrow> I ! i = I' ! i"
  shows "I = I'"
proof -
  have split: "I = take off I @ subspan off n I @ drop (off + n) I" for I :: bytes
    using take_add[of off n I] by (metis append.assoc append_take_drop_id subspan_def)
  have t: "take off I' = take off I"
    using assms(2,4,5) by (intro nth_equalityI) auto
  have d: "drop (off + n) I' = drop (off + n) I"
    using assms(2,4,5) by (intro nth_equalityI) auto
  have "crc_ref (NOT s) I = crc_ref (NOT s) I'"
    using assms(1) by (simp add: doc_crc_update_def crc32c_update_portable_ref)
  then have "crc_ref (NOT s) (take off I @ subspan off n I @ drop (off + n) I) =
      crc_ref (NOT s) (take off I @ subspan off n I' @ drop (off + n) I)"
    using split[of I] split[of I'] by (simp add: t d)
  then have "subspan off n I = subspan off n I'"
    by (rule crc_ref_burst) (use assms in simp_all)
  then show ?thesis
    using split[of I] split[of I'] by (simp add: t d)
qed

text \<open>
  C22.
  The checksum protects the whole stored document except the fields updated in place: when
  a stored document verifies and up to four consecutive bytes of it change, anywhere
  outside the length field and the mutable fields, the reader finds the changed document
  invalid or its checksum wrong.
\<close>

theorem covered_corruption_detected:
  assumes r: "r = document_reader data" "r_valid r" "verify_checksum (r_doc r) (reader_payload r)"
    and size: "132 \<le> unat (len (r_doc r))" "unat (len (r_doc r)) \<le> length data" "length data' = length data"
    and window: "n \<le> 4" "off + n \<le> unat (len (r_doc r))" "window_covered off n"
    and differ: "\<forall>i < length data. i < off \<or> off + n \<le> i \<longrightarrow> data' ! i = data ! i" "data' \<noteq> data"
    and r': "r' = document_reader data'"
  shows "\<not> (r_valid r' \<and> verify_checksum (r_doc r') (reader_payload r'))"
proof
  let ?m = "unat (len (r_doc r))"
  assume v: "r_valid r' \<and> verify_checksum (r_doc r') (reader_payload r')"
  have l: "132 \<le> length data" "132 \<le> length data'" using size by simp_all
  have sub: "subspan o' s data' = subspan o' s data"
    if "o' + s \<le> length data" "off + n \<le> o' \<or> o' + s \<le> off" for o' s
    using that differ(1) size(3) by (intro nth_equalityI) (auto simp: nth_subspan)
  have w: "off + n \<le> 4 \<or> 8 \<le> off" "off + n \<le> kChecksumOffset \<or> kChecksumOffset + 4 \<le> off"
    using window(3) by (auto simp: window_covered_def kInPlace_def)
  have same: "len (r_doc r') = len (r_doc r)" "from_le (subspan kChecksumOffset 4 data') = (from_le (subspan kChecksumOffset 4 data) :: u32)"
    using l w sub[of 4 4] sub[of kChecksumOffset 4]
    by (simp_all add: r r' document_reader_def kHeaderSize_def Let_def deserialize_len_checksum kChecksumOffset_def)
  have m': "?m \<le> length data'" using size by simp
  have "doc_crc_update 0 (checked_image ?m data) = doc_crc_update 0 (checked_image ?m data')"
    using v r reader_verifies_iff[OF r(1,2) size(1,2) refl]
      reader_verifies_iff[OF r' conjunct1[OF v] size(1) m' arg_cong[OF same(1)]] same(2) by simp
  then have eq: "checked_image ?m data = checked_image ?m data'"
  proof (rule doc_crc_update_burst[where n = n and off = off])
    show "length (checked_image ?m data) = length (checked_image ?m data')" "off + n \<le> length (checked_image ?m data)"
      using size m' window by (simp_all add: checked_image_nth)
    show "checked_image ?m data ! i = checked_image ?m data' ! i"
      if "i < length (checked_image ?m data)" "i < off \<or> off + n \<le> i" for i
      using that size m' differ(1) by (auto simp: checked_image_nth)
  qed (rule window(1))
  have inside: "data' ! i = data ! i" if "off \<le> i" "i < off + n" for i
  proof -
    have "\<not> mutable_byte i"
      using that window(3) by (fastforce simp: window_covered_def mutable_byte_def list_all_iff list_ex_iff)
    then show ?thesis
      using arg_cong[OF eq, of "\<lambda>I. I ! i"] that window(2) size m' by (simp add: checked_image_nth)
  qed
  have "data' = data"
    using differ(1) inside size(3) by (intro nth_equalityI) (auto simp: not_less)
  then show False using differ(2) by simp
qed

lemma sample_built:
  "\<exists>d. build sample_builder = serialize_to d @ [1, 2, 3, 4, 5] \<and> length (serialize_to d) = 132 \<and>
    r_valid (document_reader (build sample_builder)) \<and> unat (len (r_doc (document_reader (build sample_builder)))) = 137 \<and>
    verify_checksum (r_doc (document_reader (build sample_builder))) (reader_payload (document_reader (build sample_builder)))"
proof -
  have b: "b_header sample_builder = [1, 2, 3]" "b_content sample_builder = [4, 5]" "length (b_key sample_builder) = 32"
    "b_enable_checksum sample_builder" "b_total_len sample_builder = 0"
    by (simp_all add: sample_builder_def DocumentBuilder_default_def)
  obtain d where d: "build sample_builder = serialize_to d @ [1, 2, 3] @ [4, 5]" "document_wf d"
    "canonical_document d = canonical_document (builder_document sample_builder [4, 5])" "verify_checksum d ([1, 2, 3] @ [4, 5])"
    using build_serialized[of sample_builder] b by auto
  note fields = canonical_document_fields[OF d(3)]
  have doc: "is_valid_and_compatible d" "unat (len d) = 132 + length [1, 2, 3 :: byte] + length [4, 5 :: byte]"
    "unat (header_len d) = length [1, 2, 3 :: byte]"
    using builder_document_sizes[of sample_builder "[4, 5]"] builder_document_valid[of sample_builder "[4, 5]"] b
    by (simp_all add: fields is_valid_and_compatible_def doc_is_valid_def is_version_compatible_def)
  have r: "document_reader (build sample_builder) = document_reader (serialize_to d @ [1, 2, 3] @ [4, 5] @ [])"
    by (simp add: d(1))
  show ?thesis
    using reader_parts[OF d(2) doc r] d(1,4) doc(2) length_serialize_to[OF d(2)] by (intro exI[of _ d]) simp
qed

theorem covered_corruption_detected_witness:
  "\<not> (r_valid (document_reader ((build sample_builder)[135 := 99])) \<and>
    verify_checksum (r_doc (document_reader ((build sample_builder)[135 := 99])))
      (reader_payload (document_reader ((build sample_builder)[135 := 99]))))"
proof -
  obtain d where d: "build sample_builder = serialize_to d @ [1, 2, 3, 4, 5]" "length (serialize_to d) = 132"
    "r_valid (document_reader (build sample_builder))" "unat (len (r_doc (document_reader (build sample_builder)))) = 137"
    "verify_checksum (r_doc (document_reader (build sample_builder))) (reader_payload (document_reader (build sample_builder)))"
    using sample_built by blast
  have "build sample_builder ! 135 = 4" "(build sample_builder)[135 := 99] ! 135 = 99"
    by (simp_all add: d(1,2) nth_append)
  then have ne: "(build sample_builder)[135 := 99] \<noteq> build sample_builder"
    by fastforce
  have l: "length (build sample_builder) = 137"
    by (simp add: d(1,2))
  have w: "window_covered 135 1"
    by (simp add: window_covered_def kInPlace_def kFillSerialOffset_def kWriteSerialOffset_def
        kChecksumOffset_def kHitCountOffset_def kNextAlternateOffsetPos_def kLastAccessOffset_def)
  have same: "\<forall>i < length xs. i < 135 \<or> 135 + 1 \<le> i \<longrightarrow> xs[135 := 99] ! i = xs ! i" for xs :: bytes
    by auto
  show ?thesis
    by (rule covered_corruption_detected[OF refl d(3,5), of _ 1 135, OF _ _ _ _ _ w same ne refl])
      (simp_all add: d(4) l)
qed

end
