(* ===== verification/Fast_Div.thy ===== *)
theory Fast_Div
  imports Cyclone_Prelude
begin

text \<open>
  Division by a divisor fixed at open, without a hardware divide: the class
  FastDivU64 of src/src/core/volume.hpp.  The read path splits the exposure
  generation and finds a document's chunk with it on every probe.  The high half
  of the 64 x 64 bit product has three implementations, chosen at compile time;
  the division takes it as an argument, and the locale below is the one law it
  relies on.
\<close>

unbundle bit_operations_syntax

section \<open>The operations\<close>

record FastDivU64 =
  fd_d :: u64
  fd_m :: u64

definition make_FastDivU64 :: "u64 \<Rightarrow> FastDivU64" where
  "make_FastDivU64 divisor =
     (let d = (if divisor = 0 then 1 else divisor)
      in \<lparr>fd_d = d, fd_m = (if d \<le> 1 then 0 else (NOT 0) div d)\<rparr>)"

definition mulhi_portable :: "u64 \<Rightarrow> u64 \<Rightarrow> u64" where
  "mulhi_portable a b =
     (let kLo = 0xFFFFFFFF;
          a_lo = a AND kLo; a_hi = drop_bit 32 a;
          b_lo = b AND kLo; b_hi = drop_bit 32 b;
          lo_lo = a_lo * b_lo; hi_lo = a_hi * b_lo;
          lo_hi = a_lo * b_hi; hi_hi = a_hi * b_hi;
          cross = drop_bit 32 lo_lo + (hi_lo AND kLo) + lo_hi
      in hi_hi + drop_bit 32 hi_lo + drop_bit 32 cross)"

text \<open>The unsigned __int128 branch: widen, multiply, shift, narrow.\<close>

definition mulhi_u128 :: "u64 \<Rightarrow> u64 \<Rightarrow> u64" where
  "mulhi_u128 a b = ucast (drop_bit 64 ((ucast a :: 128 word) * ucast b))"

definition quot :: "(u64 \<Rightarrow> u64 \<Rightarrow> u64) \<Rightarrow> FastDivU64 \<Rightarrow> u64 \<Rightarrow> u64" where
  "quot mulhi fd n =
     (if fd_d fd = 1 then n
      else let q = mulhi n (fd_m fd)
           in if n - q * fd_d fd \<ge> fd_d fd then q + 1 else q)"

section \<open>The contract of the high multiply, and exact division from it\<close>

lemma reciprocal_bounds:
  fixes n d m q B :: nat
  assumes n: "n < B" and d: "0 < d" and m: "m = (B - 1) div d" and q: "q = n * m div B"
  shows "q * d \<le> n" "n < (q + 2) * d"
proof -
  have B: "0 < B" using n by simp
  have md: "m * d \<le> B - 1" using m by simp
  have md': "B \<le> (m + 1) * d"
    using m B dividend_less_times_div[OF d, of "B - 1"] by (simp add: algebra_simps)
  have qB: "q * B \<le> n * m" using q by simp
  have qB': "n * m < (q + 1) * B"
    using q dividend_less_times_div[OF B, of "n * m"] by (simp add: algebra_simps)
  have "q * d * B \<le> n * (m * d)" using mult_right_mono[OF qB, of d] by (simp add: algebra_simps)
  also have "\<dots> \<le> n * B" using md by (intro mult_left_mono) auto
  finally show "q * d \<le> n" using B by simp
  have "n * B \<le> n * ((m + 1) * d)" using md' by (intro mult_left_mono) auto
  also have "\<dots> = n * m * d + n * d" by (simp add: algebra_simps)
  also have "\<dots> < (q + 1) * B * d + B * d"
    using qB' d n by (intro add_less_le_mono mult_strict_right_mono mult_right_mono) auto
  also have "\<dots> = (q + 2) * d * B" by (simp add: algebra_simps)
  finally show "n < (q + 2) * d" using B by simp
qed

lemma quotient_by_correction:
  fixes n d q :: nat
  assumes "q * d \<le> n" "n < (q + 2) * d" "0 < d"
  shows "n div d = (if d \<le> n - q * d then q + 1 else q)"
proof (cases "d \<le> n - q * d")
  case True
  then have "n div d = q + 1"
    using assms by (intro div_nat_eqI) (simp_all add: algebra_simps)
  then show ?thesis using True by simp
next
  case False
  then have "n div d = q"
    using assms by (intro div_nat_eqI) (simp_all add: algebra_simps)
  then show ?thesis using False by simp
qed

locale high_multiply =
  fixes mulhi :: "u64 \<Rightarrow> u64 \<Rightarrow> u64"
  assumes unat_mulhi: "unat (mulhi a b) = unat a * unat b div 2 ^ 64"
begin

lemma quot_is_div: "quot mulhi (make_FastDivU64 d) n = n div (if d = 0 then 1 else d)"
proof (cases "d = 0 \<or> d = 1")
  case True
  then show ?thesis by (auto simp: quot_def make_FastDivU64_def)
next
  case False
  then have "unat d \<noteq> 0" "unat d \<noteq> 1"
    using unat_eq_oneD[of d] by (auto simp: unsigned_eq_0_iff)
  then have d: "1 < unat d" by linarith
  define m :: u64 where "m = (NOT 0) div d"
  define q where "q = mulhi n m"
  have mx: "unat (NOT 0 :: u64) = 2 ^ 64 - 1" by (simp add: unsigned_minus_1_eq_mask mask_eq_exp_minus_1)
  have m': "unat m = (2 ^ 64 - 1) div unat d" by (simp only: m_def unat_div_distrib mx)
  have q': "unat q = unat n * unat m div 2 ^ 64" by (simp add: q_def unat_mulhi)
  have nB: "unat n < 2 ^ 64" using unsigned_less[of n] by simp
  have r: "unat q * unat d \<le> unat n" "unat n < (unat q + 2) * unat d"
    using reciprocal_bounds[OF nB _ m' q'] d by auto
  have qd: "unat (q * d) = unat q * unat d"
    using le_less_trans[OF r(1) nB] by (simp add: unat_word_ariths)
  have diff: "unat (n - q * d) = unat n - unat q * unat d"
    using r(1) qd by (simp add: unat_sub word_le_nat_alt)
  have le: "d \<le> n - q * d \<longleftrightarrow> unat d \<le> unat n - unat q * unat d"
    using diff by (simp add: word_le_nat_alt)
  have fd: "make_FastDivU64 d = \<lparr>fd_d = d, fd_m = m\<rparr>"
    using False d by (auto simp: make_FastDivU64_def m_def word_le_nat_alt)
  have res: "quot mulhi (make_FastDivU64 d) n = (if d \<le> n - q * d then q + 1 else q)"
    using False by (simp add: quot_def fd q_def)
  have dv: "unat n div unat d = (if d \<le> n - q * d then unat q + 1 else unat q)"
    using quotient_by_correction[OF r] d le by simp
  have bnd: "unat n div unat d < 2 ^ 64" using nB div_le_dividend le_less_trans by blast
  have "unat (quot mulhi (make_FastDivU64 d) n) = unat n div unat d"
  proof (cases "d \<le> n - q * d")
    case True
    then have "unat q + 1 < 2 ^ 64" using bnd dv by simp
    then show ?thesis using True dv by (simp add: res unat_word_ariths)
  next
    case False
    then show ?thesis using dv by (simp add: res)
  qed
  then have "unat (quot mulhi (make_FastDivU64 d) n) = unat (n div d)"
    by (simp only: unat_div_distrib)
  then show ?thesis using False by (simp only: word_unat_eq_iff if_False de_Morgan_disj simp_thms)
qed

end

section \<open>The two implementations meet the contract\<close>

lemma unat_mulhi_u128: "unat (mulhi_u128 a b) = unat a * unat b div 2 ^ 64"
proof -
  have a: "unat a < 2 ^ 64" and b: "unat b < 2 ^ 64" using unsigned_less[of a] unsigned_less[of b] by auto
  have "unat a * unat b < 2 ^ 64 * 2 ^ 64" using a b by (intro mult_strict_mono) auto
  moreover have "unat (ucast a :: 128 word) = unat a" "unat (ucast b :: 128 word) = unat b"
    using a b by (simp_all add: unsigned_ucast_eq take_bit_nat_eq_self)
  ultimately have p: "unat ((ucast a :: 128 word) * ucast b) = unat a * unat b"
    by (simp add: unat_word_ariths)
  have "unat a * unat b div 2 ^ 64 < 2 ^ 64"
    using \<open>unat a * unat b < _\<close> by (simp add: less_mult_imp_div_less)
  then show ?thesis
    by (simp only: mulhi_u128_def unsigned_ucast_eq unsigned_drop_bit_eq)
       (simp add: drop_bit_eq_div p take_bit_eq_mod)
qed

lemma split32: 
  fixes x :: u64
  shows "unat (x AND 0xFFFFFFFF) = unat x mod 2 ^ 32" "unat (drop_bit 32 x) = unat x div 2 ^ 32"
proof -
  have "x AND 0xFFFFFFFF = take_bit 32 x" by (simp add: take_bit_eq_mask mask_eq_exp_minus_1)
  then show "unat (x AND 0xFFFFFFFF) = unat x mod 2 ^ 32"
    by (simp only: unsigned_take_bit_eq) (simp only: take_bit_eq_mod)
  show "unat (drop_bit 32 x) = unat x div 2 ^ 32"
    by (simp only: unsigned_drop_bit_eq) (simp only: drop_bit_eq_div take_bit_nat_eq_self unsigned_less)
qed

lemma mulhi_partial_products:
  fixes ah al bh bl H :: nat
  assumes H: "0 < H"
  shows "(ah * H + al) * (bh * H + bl) div (H * H)
       = ah * bh + (ah * bl) div H + ((al * bl) div H + (ah * bl) mod H + al * bh) div H"
proof -
  define hl where "hl = ah * bl"
  have 1: "(ah * H + al) * (bh * H + bl)
      = al * bl + H * (al * bh + hl + H * (ah * bh))"
    by (simp add: algebra_simps hl_def)
  have "(ah * H + al) * (bh * H + bl) div H = al * bl div H + (al * bh + hl + H * (ah * bh))"
    unfolding 1 using H by (simp add: div_add1_eq)
  also have "\<dots> = (al * bl div H + hl mod H + al * bh) + H * (hl div H + ah * bh)"
    using mult_div_mod_eq[of H hl] by (simp add: algebra_simps)
  finally have 2: "(ah * H + al) * (bh * H + bl) div H
      = (al * bl div H + hl mod H + al * bh) + H * (hl div H + ah * bh)" .
  show ?thesis unfolding div_mult2_eq 2 using H by (simp add: hl_def)
qed

lemma square32_bound:
  fixes x y :: nat
  assumes "x < 2 ^ 32" "y < 2 ^ 32"
  shows "x * y \<le> 18446744065119617025"
proof -
  have "x * y \<le> 4294967295 * 4294967295" using assms by (intro mult_mono) auto
  then show ?thesis by simp
qed

lemma unat_mult_32:
  fixes x y :: u64
  assumes "unat x < 2 ^ 32" "unat y < 2 ^ 32"
  shows "unat (x * y) = unat x * unat y"
  using square32_bound[OF assms] by (simp add: unat_word_ariths)

lemma unat_add_no_wrap:
  fixes x y :: u64
  assumes "unat x + unat y < 2 ^ 64"
  shows "unat (x + y) = unat x + unat y"
  using assms by (simp add: unat_word_ariths)

lemma unat_mulhi_portable: "unat (mulhi_portable a b) = unat a * unat b div 2 ^ 64"
proof -
  define H :: nat where "H = 2 ^ 32"
  define al ah bl bh where "al = a AND 0xFFFFFFFF" and "ah = drop_bit 32 a"
    and "bl = b AND 0xFFFFFFFF" and "bh = drop_bit 32 b"
  have B: "unat a < 2 ^ 64" "unat b < 2 ^ 64" using unsigned_less[of a] unsigned_less[of b] by auto
  have sp: "unat al = unat a mod H" "unat ah = unat a div H" "unat bl = unat b mod H" "unat bh = unat b div H"
    by (simp_all only: al_def ah_def bl_def bh_def H_def split32)
  have lt: "unat al < 2 ^ 32" "unat ah < 2 ^ 32" "unat bl < 2 ^ 32" "unat bh < 2 ^ 32"
    using B by (simp_all add: sp H_def less_mult_imp_div_less)
  have ll: "unat (al * bl) = unat al * unat bl" and hl: "unat (ah * bl) = unat ah * unat bl"
    and lh: "unat (al * bh) = unat al * unat bh" and hh: "unat (ah * bh) = unat ah * unat bh"
    using lt by (simp_all only: unat_mult_32)
  define c1 where "c1 = drop_bit 32 (al * bl)"
  define c2 where "c2 = (ah * bl) AND 0xFFFFFFFF"
  define c3 where "c3 = drop_bit 32 (ah * bl)"
  have c: "unat c1 = unat al * unat bl div H" "unat c2 = unat ah * unat bl mod H"
    "unat c3 = unat ah * unat bl div H"
    by (simp_all only: c1_def c2_def c3_def H_def split32 ll hl)
  have cb: "unat c1 < 2 ^ 32" "unat c2 < 2 ^ 32"
    using square32_bound[OF lt(1) lt(3)] by (simp_all add: c H_def less_mult_imp_div_less)
  have s1: "unat (c1 + c2) = unat c1 + unat c2" using cb by (intro unat_add_no_wrap) simp
  have s2: "unat (c1 + c2 + al * bh) = unat c1 + unat c2 + unat al * unat bh"
    using cb square32_bound[OF lt(1) lt(4)] by (subst unat_add_no_wrap) (simp_all add: s1 lh)
  define r where "r = drop_bit 32 (c1 + c2 + al * bh)"
  have r: "unat r = (unat c1 + unat c2 + unat al * unat bh) div H"
    by (simp only: r_def split32 s2 H_def)
  have "unat a * unat b = (unat ah * H + unat al) * (unat bh * H + unat bl)"
    by (simp add: sp)
  then have prod: "unat a * unat b div 2 ^ 64 = unat ah * unat bh + unat c3 + unat r"
    using mulhi_partial_products[of H "unat ah" "unat al" "unat bh" "unat bl"]
    by (simp add: H_def c r)
  have "unat a * unat b < 2 ^ 64 * 2 ^ 64" using B by (intro mult_strict_mono) auto
  then have tot: "unat ah * unat bh + unat c3 + unat r < 2 ^ 64"
    unfolding prod[symmetric] by (simp add: less_mult_imp_div_less)
  have "unat (ah * bh + c3 + r) = unat ah * unat bh + unat c3 + unat r"
    using tot by (simp add: unat_add_no_wrap hh)
  moreover have "mulhi_portable a b = ah * bh + c3 + r"
    by (simp add: mulhi_portable_def Let_def al_def ah_def bl_def bh_def c1_def c2_def c3_def r_def)
  ultimately show ?thesis by (simp only: prod)
qed

interpretation portable: high_multiply mulhi_portable
  by unfold_locales (rule unat_mulhi_portable)

interpretation wide: high_multiply mulhi_u128
  by unfold_locales (rule unat_mulhi_u128)

text \<open>
  C14.  For every divisor and every 64-bit dividend, the multiply-and-correct
  routine FastDivU64::quot returns exactly the quotient (a zero divisor counts as
  one), with the portable high multiply and with the 128-bit one alike.
\<close>

theorem fast_div_exact:
  "quot mulhi_portable (make_FastDivU64 d) n = n div (if d = 0 then 1 else d) \<and>
   quot mulhi_u128 (make_FastDivU64 d) n = n div (if d = 0 then 1 else d)"
  using portable.quot_is_div[of d n] wide.quot_is_div[of d n] by blast

end
