(* ===== verification/Volume_IO.thy ===== *)
theory Volume_IO
  imports Document Fast_Div
begin

text \<open>
  How a volume reaches its file (\<^verbatim>\<open>src/src/core/volume.cpp\<close>, \<^verbatim>\<open>src/src/core/volume.hpp\<close>,
  \<^verbatim>\<open>src/src/io/mapped_file.cpp\<close>): the loops that write the parts of a document with pwrite and
  pwritev, the bounds of a mapped region, and the cache of checksum verdicts.

  The file is its bytes.  Each system call of a loop consumes one answer of the kernel: it was
  interrupted, it failed, or it wrote some of the bytes it was given, possibly fewer than all.
  A loop whose answers run out has not returned yet, which is \<open>None\<close>.
\<close>

section \<open>Writing the parts of a document\<close>

datatype answer = Interrupted | Failed | Wrote nat

text \<open>The inner loop of pwrite_parts: one part, with the offset it has reached.\<close>

fun pwrite_part :: "answer list \<Rightarrow> bytes \<Rightarrow> nat \<Rightarrow> bytes \<Rightarrow> (bool \<times> nat \<times> answer list \<times> bytes) option" where
  "pwrite_part ks [] offset disk = Some (True, offset, ks, disk)"
| "pwrite_part [] (b # part) offset disk = None"
| "pwrite_part (Interrupted # ks) (b # part) offset disk = pwrite_part ks (b # part) offset disk"
| "pwrite_part (Failed # ks) (b # part) offset disk = Some (False, offset, ks, disk)"
| "pwrite_part (Wrote n # ks) (b # part) offset disk =
     (let n = min n (length (b # part)) in
      if n = 0 then Some (False, offset, ks, disk)
      else pwrite_part ks (drop n (b # part)) (offset + n) (put_at offset (take n (b # part)) disk))"

fun pwrite_parts :: "answer list \<Rightarrow> bytes list \<Rightarrow> nat \<Rightarrow> bytes \<Rightarrow> (bool \<times> answer list \<times> bytes) option" where
  "pwrite_parts ks [] offset disk = Some (True, ks, disk)"
| "pwrite_parts ks (part # parts) offset disk =
     (case pwrite_part ks part offset disk of
        None \<Rightarrow> None
      | Some (ok, offset, ks, disk) \<Rightarrow>
          if ok then pwrite_parts ks parts offset disk else Some (False, ks, disk))"

definition kMaxParts :: nat where "kMaxParts = 4"

text \<open>After a short pwritev: skip the vectors it completed, trim the one it ended in.\<close>

fun trim_iov :: "nat \<Rightarrow> bytes list \<Rightarrow> bytes list" where
  "trim_iov d [] = []"
| "trim_iov d (v # iov) = (if d \<ge> length v then trim_iov (d - length v) iov else drop d v # iov)"

fun pwritev_loop :: "answer list \<Rightarrow> bytes list \<Rightarrow> nat \<Rightarrow> bytes \<Rightarrow> (bool \<times> answer list \<times> bytes) option" where
  "pwritev_loop ks [] offset disk = Some (True, ks, disk)"
| "pwritev_loop [] (v # iov) offset disk = None"
| "pwritev_loop (Interrupted # ks) (v # iov) offset disk = pwritev_loop ks (v # iov) offset disk"
| "pwritev_loop (Failed # ks) (v # iov) offset disk = Some (False, ks, disk)"
| "pwritev_loop (Wrote n # ks) (v # iov) offset disk =
     (let n = min n (length (concat (v # iov))) in
      if n = 0 then Some (False, ks, disk)
      else pwritev_loop ks (trim_iov n (v # iov)) (offset + n) (put_at offset (take n (concat (v # iov))) disk))"

definition pwritev_parts :: "answer list \<Rightarrow> bytes list \<Rightarrow> nat \<Rightarrow> bytes \<Rightarrow> (bool \<times> answer list \<times> bytes) option" where
  "pwritev_parts ks parts offset disk =
     (let iov = filter (\<lambda>p. p \<noteq> []) parts in
      if length iov > kMaxParts then Some (False, ks, disk) else pwritev_loop ks iov offset disk)"

section \<open>Mapped regions\<close>

text \<open>
  MappedFile::map_region with the whole file mapped.  The mapping starts on a page, so the address of
  a region is a multiple of eight exactly when its offset in the file is.
\<close>

definition map_region :: "bytes \<Rightarrow> nat \<Rightarrow> nat \<Rightarrow> bytes option" where
  "map_region disk offset length' =
     (if offset > length disk \<or> length' > length disk - offset then None
      else Some (subspan offset length' disk))"

section \<open>Checksum verdicts\<close>

definition kChecksumCacheSize :: nat where "kChecksumCacheSize = 65536"
definition kChecksumCacheShift :: nat where "kChecksumCacheShift = 64 - 16"
definition kChecksumRevalidateInterval :: u64 where "kChecksumRevalidateInterval = 256"

definition checksum_cache_index :: "u64 \<Rightarrow> nat" where
  "checksum_cache_index offset = unat (drop_bit kChecksumCacheShift (offset * 0x9E3779B97F4A7C15))"

definition fold_mul :: "u64 \<Rightarrow> u64 \<Rightarrow> u64" where
  "fold_mul x y = (x * y) XOR mulhi_u128 x y"

definition checksum_token :: "u64 \<times> u64 \<times> u64 \<times> u64 \<Rightarrow> u64 \<Rightarrow> Document \<Rightarrow> u64" where
  "checksum_token salt offset doc =
     (case salt of (s0, s1, s2, s3) \<Rightarrow>
      let key_prefix = from_le (take 8 (first_key doc)) :: u64;
          crc_stamp = push_bit 32 (ucast (checksum doc)) OR ucast (write_serial doc);
          lengths = push_bit 32 (ucast (len doc)) OR ucast (header_len doc);
          covered = push_bit 32 (ucast (checksum_header_seed doc));
          a = fold_mul (offset XOR s0) (key_prefix XOR s1);
          b = fold_mul (crc_stamp XOR s2) (lengths XOR s3)
      in fold_mul (a XOR covered XOR 0xa0761d6478bd642f) (b XOR 0xe7037ed1a0b428db))"

type_synonym checksum_cache = "nat \<Rightarrow> u64"

definition is_checksum_validated :: "u64 \<Rightarrow> u64 \<Rightarrow> checksum_cache \<Rightarrow> bool" where
  "is_checksum_validated offset token cache \<longleftrightarrow> token \<noteq> 0 \<and> cache (checksum_cache_index offset) = token"

definition mark_checksum_validated :: "u64 \<Rightarrow> u64 \<Rightarrow> checksum_cache \<Rightarrow> checksum_cache" where
  "mark_checksum_validated offset token cache = cache(checksum_cache_index offset := token)"

definition forget_checksum_validated :: "u64 \<Rightarrow> u64 \<Rightarrow> checksum_cache \<Rightarrow> checksum_cache" where
  "forget_checksum_validated offset token cache =
     (let i = checksum_cache_index offset in if cache i = token then cache(i := 0) else cache)"

definition clear_checksum_cache :: "checksum_cache \<Rightarrow> checksum_cache" where
  "clear_checksum_cache cache = (\<lambda>i. if i < kChecksumCacheSize then 0 else cache i)"

text \<open>The thread's draw, an xorshift step.\<close>

definition checksum_revalidation_due :: "u64 \<Rightarrow> bool \<times> u64" where
  "checksum_revalidation_due x =
     (let x = x XOR push_bit 13 x; x = x XOR drop_bit 7 x; x = x XOR push_bit 17 x
      in (drop_bit 32 x mod kChecksumRevalidateInterval = 0, x))"

section \<open>Lemmas\<close>

lemma put_at_length: "put_at (length xs) b (xs @ rest) = xs @ b @ drop (length b) rest"
  by (simp add: put_at_def)

lemma put_at_put_at:
  assumes "off + length a \<le> length disk"
  shows "put_at (off + length a) b (put_at off a disk) = put_at off (a @ b) disk"
  using assms put_at_length[of "take off disk @ a" b "drop (off + length a) disk"]
  by (simp add: put_at_def[of off] min_absorb2 add.commute add.left_commute)

lemma put_at_Nil [simp]: "off \<le> length disk \<Longrightarrow> put_at off [] disk = disk"
  by (simp add: put_at_def)

lemma subspan_put_at: "off + length src \<le> length disk \<Longrightarrow> subspan off (length src) (put_at off src disk) = src"
  by (simp add: subspan_def put_at_def)

lemma concat_trim_iov: "concat (trim_iov d iov) = drop d (concat iov)"
  by (induction d iov rule: trim_iov.induct) auto

lemma checksum_cache_index_less: "checksum_cache_index offset < kChecksumCacheSize"
proof -
  have "unat (drop_bit 48 w) < 65536" for w :: u64
  proof -
    have "drop_bit 48 w = w div 2 ^ 48" by (simp add: drop_bit_eq_div)
    then have "unat (drop_bit 48 w) = unat w div 2 ^ 48" by (simp add: unat_div)
    then show ?thesis using unsigned_less[of w, where 'a = nat] by (simp add: less_mult_imp_div_less)
  qed
  then show ?thesis
    by (simp add: checksum_cache_index_def kChecksumCacheSize_def kChecksumCacheShift_def)
qed

text \<open>What a write loop may leave in the file: a prefix of the data, all of it on success.\<close>

definition filled :: "bool \<Rightarrow> bytes \<Rightarrow> nat \<Rightarrow> bytes \<Rightarrow> bytes \<Rightarrow> bool" where
  "filled ok data off disk disk' \<longleftrightarrow>
     (\<exists>k \<le> length data. disk' = put_at off (take k data) disk \<and> (ok \<longrightarrow> k = length data))"

lemma filled_none: "off \<le> length disk \<Longrightarrow> filled False data off disk disk"
  unfolding filled_def by (rule exI[of _ 0]) simp

lemma filled_Nil: "off \<le> length disk \<Longrightarrow> filled ok [] off disk disk"
  by (simp add: filled_def)

lemma filled_whole: "filled ok data off disk (put_at off data disk)"
  unfolding filled_def by (rule exI[of _ "length data"]) simp

lemma filled_length: "filled ok data off disk disk' \<Longrightarrow> off + length data \<le> length disk \<Longrightarrow> length disk' = length disk"
  by (auto simp: filled_def)

text \<open>A step of k bytes, then the rest.\<close>

lemma filled_step:
  assumes "filled ok b (off + length a) (put_at off a disk) disk'" and "off + length a \<le> length disk"
  shows "filled ok (a @ b) off disk disk'"
proof -
  obtain k where k: "k \<le> length b" "disk' = put_at (off + length a) (take k b) (put_at off a disk)" "ok \<longrightarrow> k = length b"
    using assms(1) by (auto simp: filled_def)
  then have "disk' = put_at off (take (length a + k) (a @ b)) disk"
    using put_at_put_at[OF assms(2)] by simp
  then show ?thesis
    unfolding filled_def using k by (intro exI[of _ "length a + k"]) simp
qed

lemma filled_take:
  assumes "filled ok (drop n p) (off + n) (put_at off (take n p) disk) disk'" and "n \<le> length p" "off + length p \<le> length disk"
  shows "filled ok p off disk disk'"
  using filled_step[of ok "drop n p" off "take n p" disk disk'] assms by (simp add: min_absorb2)

lemma pwrite_part_filled:
  assumes "pwrite_part ks part off disk = Some (ok, off', ks', disk')" and "off + length part \<le> length disk"
  shows "filled ok part off disk disk' \<and> (ok \<longrightarrow> off' = off + length part)"
  using assms
proof (induction ks part off disk rule: pwrite_part.induct)
  case (5 n ks b part offset disk)
  let ?p = "b # part" let ?n = "min n (length ?p)"
  show ?case
  proof (cases "?n = 0")
    case True
    then show ?thesis using 5(2,3) by (auto intro: filled_none)
  next
    case False
    have r: "pwrite_part ks (drop ?n ?p) (offset + ?n) (put_at offset (take ?n ?p) disk) = Some (ok, off', ks', disk')"
      using 5(2) False by (simp only: pwrite_part.simps Let_def if_False)
    have len: "offset + ?n + length (drop ?n ?p) \<le> length (put_at offset (take ?n ?p) disk)"
      using 5(3) by simp
    have "filled ok (drop ?n ?p) (offset + ?n) (put_at offset (take ?n ?p) disk) disk' \<and>
        (ok \<longrightarrow> off' = offset + ?n + length (drop ?n ?p))"
      using 5(1)[OF refl False r len] .
    then show ?thesis
      using filled_take[of ok ?n ?p offset disk disk'] 5(3) by auto
  qed
qed (auto intro: filled_none filled_Nil)

lemma pwrite_parts_filled:
  assumes "pwrite_parts ks parts off disk = Some (ok, ks', disk')" and "off + length (concat parts) \<le> length disk"
  shows "filled ok (concat parts) off disk disk'"
  using assms
proof (induction parts arbitrary: ks off disk)
  case Nil
  then show ?case by (simp add: filled_Nil)
next
  case (Cons part parts)
  obtain ok1 off1 ks1 disk1 where p: "pwrite_part ks part off disk = Some (ok1, off1, ks1, disk1)"
    using Cons.prems(1) by (auto split: option.splits)
  have f: "filled ok1 part off disk disk1" "ok1 \<longrightarrow> off1 = off + length part"
    using pwrite_part_filled[OF p] Cons.prems(2) by auto
  show ?case
  proof (cases ok1)
    case True
    then have "disk1 = put_at off part disk" using f(1) by (auto simp: filled_def)
    then show ?thesis
      using Cons.IH[of ks1 off1 disk1] Cons.prems p True f(2) filled_step[of ok "concat parts" off part disk disk'] by simp
  next
    case False
    then obtain k where "k \<le> length part" "disk1 = put_at off (take k part) disk"
      using f(1) by (auto simp: filled_def)
    then show ?thesis
      using Cons.prems(1) p False by (auto simp: filled_def intro!: exI[of _ k])
  qed
qed

lemma pwritev_loop_filled:
  assumes "pwritev_loop ks iov off disk = Some (ok, ks', disk')" and "off + length (concat iov) \<le> length disk"
  shows "filled ok (concat iov) off disk disk'"
  using assms
proof (induction ks iov off disk rule: pwritev_loop.induct)
  case (5 n ks v iov offset disk)
  let ?p = "concat (v # iov)" let ?n = "min n (length ?p)"
  show ?case
  proof (cases "?n = 0")
    case True
    then show ?thesis using 5(2,3) by (auto simp: Let_def intro: filled_none)
  next
    case False
    have r: "pwritev_loop ks (trim_iov ?n (v # iov)) (offset + ?n) (put_at offset (take ?n ?p) disk) = Some (ok, ks', disk')"
      using 5(2) False by (simp only: pwritev_loop.simps Let_def if_False)
    have "filled ok (drop ?n ?p) (offset + ?n) (put_at offset (take ?n ?p) disk) disk'"
      using 5(1)[OF refl False r] 5(3) by (simp only: concat_trim_iov) simp
    then show ?thesis
      using filled_take[of ok ?n ?p offset disk disk'] 5(3) by simp
  qed
qed (auto intro: filled_none filled_Nil)

lemma concat_filter_nonempty: "concat (filter (\<lambda>p. p \<noteq> []) parts) = concat parts"
  by (induction parts) auto

lemma pwritev_parts_filled:
  assumes "pwritev_parts ks parts off disk = Some (ok, ks', disk')" and "off + length (concat parts) \<le> length disk"
  shows "filled ok (concat parts) off disk disk'"
  using assms pwritev_loop_filled[of ks "filter (\<lambda>p. p \<noteq> []) parts" off disk ok ks' disk']
  by (auto simp: pwritev_parts_def Let_def concat_filter_nonempty intro: filled_none split: if_splits)

text \<open>Answers without a failure, and how many of them are writes.\<close>

definition no_failure :: "answer list \<Rightarrow> bool" where
  "no_failure ks \<longleftrightarrow> Failed \<notin> set ks \<and> Wrote 0 \<notin> set ks"

definition writes :: "answer list \<Rightarrow> nat" where
  "writes ks = length (filter (\<lambda>k. k \<noteq> Interrupted) ks)"

lemma writes_simps [simp]:
  "writes [] = 0" "writes (Interrupted # ks) = writes ks" "writes (Failed # ks) = Suc (writes ks)"
  "writes (Wrote n # ks) = Suc (writes ks)"
  "no_failure (Interrupted # ks) = no_failure ks" "\<not> no_failure (Failed # ks)"
  "no_failure (Wrote n # ks) \<longleftrightarrow> 0 < n \<and> no_failure ks"
  by (auto simp: writes_def no_failure_def)

lemma pwrite_part_returns:
  assumes "no_failure ks" and "length part \<le> writes ks"
  shows "\<exists>off' ks' disk'. pwrite_part ks part off disk = Some (True, off', ks', disk') \<and> no_failure ks' \<and>
    writes ks - length part \<le> writes ks'"
  using assms
proof (induction ks part off disk rule: pwrite_part.induct)
  case (5 n ks b part offset disk)
  let ?p = "b # part" let ?n = "min n (length ?p)"
  have n: "?n \<noteq> 0" and nf: "no_failure ks" using 5(2) by auto
  then have le: "length (drop ?n ?p) \<le> writes ks" using 5(3) by auto
  obtain off' ks' disk' where "pwrite_part ks (drop ?n ?p) (offset + ?n) (put_at offset (take ?n ?p) disk) = Some (True, off', ks', disk')"
    "no_failure ks'" "writes ks - length (drop ?n ?p) \<le> writes ks'"
    using 5(1)[OF refl n nf le] by blast
  moreover have "writes (Wrote n # ks) - length ?p \<le> writes ks - length (drop ?n ?p)"
    using n by (simp add: min_def split: if_splits)
  ultimately show ?case
    using n by (simp only: pwrite_part.simps Let_def if_False) auto
qed auto

lemma pwrite_parts_returns:
  "no_failure ks \<Longrightarrow> length (concat parts) \<le> writes ks \<Longrightarrow> \<exists>ks' disk'. pwrite_parts ks parts off disk = Some (True, ks', disk')"
proof (induction parts arbitrary: ks off disk)
  case (Cons part parts)
  obtain off' ks' disk' where "pwrite_part ks part off disk = Some (True, off', ks', disk')" "no_failure ks'"
      "writes ks - length part \<le> writes ks'"
    using pwrite_part_returns[OF Cons.prems(1), of part off disk] Cons.prems(2) by auto
  then show ?case
    using Cons.IH[of ks' off' disk'] Cons.prems(2) by simp
qed simp

lemma trim_iov_nonempty: "[] \<notin> set iov \<Longrightarrow> [] \<notin> set (trim_iov d iov)"
  by (induction d iov rule: trim_iov.induct) auto

lemma pwritev_loop_returns:
  assumes "no_failure ks" and "length (concat iov) \<le> writes ks" and "[] \<notin> set iov"
  shows "\<exists>ks' disk'. pwritev_loop ks iov off disk = Some (True, ks', disk')"
  using assms
proof (induction ks iov off disk rule: pwritev_loop.induct)
  case (2 v iov offset disk)
  then show ?case by auto
next
  case (5 n ks v iov offset disk)
  let ?p = "concat (v # iov)" let ?n = "min n (length ?p)"
  have n: "?n \<noteq> 0" using 5(2,4) by (cases v) auto
  have nf: "no_failure ks" using 5(2) by simp
  have le: "length (concat (trim_iov ?n (v # iov))) \<le> writes ks"
    using 5(3) n by (simp only: concat_trim_iov) auto
  show ?case
    using 5(1)[OF refl n nf le trim_iov_nonempty[OF 5(4)]] n
    by (simp only: pwritev_loop.simps Let_def if_False)
qed auto

lemma pwritev_parts_returns:
  assumes "no_failure ks" and "length (concat parts) \<le> writes ks" and "length parts \<le> kMaxParts"
  shows "\<exists>ks' disk'. pwritev_parts ks parts off disk = Some (True, ks', disk')"
proof -
  have "length (filter (\<lambda>p. p \<noteq> []) parts) \<le> kMaxParts"
    using assms(3) length_filter_le[of "\<lambda>p. p \<noteq> []" parts] by linarith
  moreover have "\<exists>ks' disk'. pwritev_loop ks (filter (\<lambda>p. p \<noteq> []) parts) off disk = Some (True, ks', disk')"
    by (rule pwritev_loop_returns) (use assms in \<open>auto simp: concat_filter_nonempty\<close>)
  ultimately show ?thesis by (simp add: pwritev_parts_def Let_def)
qed

text \<open>
  C39.
  Writing a document to the file survives whatever the kernel does.  However it splits the
  write into short ones and interrupts it, both write loops leave in the file a prefix of the
  parts' bytes at the given offset and nothing else; when a loop reports success that prefix is
  everything, and once the kernel has accepted as many writes as there are bytes without
  failing, the loop has returned success.
\<close>

theorem write_loops_fill:
  assumes "off + length (concat parts) \<le> length disk" and "length parts \<le> kMaxParts"
    and "write = pwrite_parts \<or> write = pwritev_parts"
  shows "(write ks parts off disk = Some (ok, ks', disk') \<longrightarrow>
      (\<exists>k. disk' = put_at off (take k (concat parts)) disk) \<and> (ok \<longrightarrow> disk' = put_at off (concat parts) disk)) \<and>
    (no_failure ks \<and> length (concat parts) \<le> writes ks \<longrightarrow> (\<exists>ks' disk'. write ks parts off disk = Some (True, ks', disk')))"
proof -
  have "filled ok (concat parts) off disk disk'" if "write ks parts off disk = Some (ok, ks', disk')"
    using assms that pwrite_parts_filled pwritev_parts_filled by metis
  moreover have "\<exists>ks' disk'. write ks parts off disk = Some (True, ks', disk')"
    if "no_failure ks" "length (concat parts) \<le> writes ks"
    using assms(2,3) pwrite_parts_returns[OF that] pwritev_parts_returns[OF that] by metis
  ultimately show ?thesis by (auto simp: filled_def)
qed

theorem write_loops_fill_witness:
  "pwritev_parts [Wrote 1, Interrupted, Wrote 2] [[1, 2], [], [3]] 1 (replicate 5 0) = Some (True, [], [0, 1, 2, 3, 0]) \<and>
   put_at 1 (concat [[1, 2], [], [3]]) (replicate 5 0) = [0, 1, 2, 3, 0 :: byte]"
proof -
  have r: "pwritev_parts [Wrote 1, Interrupted, Wrote 2] [[1, 2], [], [3]] 1 (replicate 5 0) = Some (True, [], [0, 1, 2, 3, 0])"
    by code_simp
  have h: "1 + length (concat [[1, 2], [], [3 :: byte]]) \<le> length (replicate 5 (0 :: byte))"
    "length [[1, 2], [], [3 :: byte]] \<le> kMaxParts" "pwritev_parts = pwrite_parts \<or> pwritev_parts = pwritev_parts"
    by (simp_all add: kMaxParts_def)
  show ?thesis
    using r write_loops_fill[OF h, of "[Wrote 1, Interrupted, Wrote 2]" True "[]" "[0, 1, 2, 3, 0]"] by auto
qed

end
