(* ===== verification/Dir_Entry.thy ===== *)
theory Dir_Entry
  imports Cyclone_Prelude
begin

text \<open>
  The 10-byte directory entry: struct DirEntry of src/src/core/directory.hpp and its packed
  accessors in src/src/core/directory.cpp.  Each field is read and written by masks and shifts
  on five 16-bit words; the lemmas give the get/set laws of every pair of fields and the
  rounding of the size code.
\<close>

unbundle bit_operations_syntax

section \<open>Model\<close>

record DirEntry =
  w0 :: u16
  w1 :: u16
  w2 :: u16
  w3 :: u16
  w4 :: u16

definition empty_entry :: DirEntry where
  "empty_entry = \<lparr>w0 = 0, w1 = 0, w2 = 0, w3 = 0, w4 = 0\<rparr>"

definition e_offset :: "DirEntry \<Rightarrow> u64" where
  "e_offset e = ucast (w0 e) OR push_bit 16 (ucast (w1 e AND 0xFF)) OR push_bit 24 (ucast (w4 e))"

definition set_offset :: "u64 \<Rightarrow> DirEntry \<Rightarrow> DirEntry" where
  "set_offset off e = e\<lparr>
     w0 := ucast (off AND 0xFFFF),
     w1 := (w1 e AND 0xFF00) OR ucast (drop_bit 16 off AND 0xFF),
     w4 := ucast (drop_bit 24 off AND 0xFFFF)\<rparr>"

definition e_big :: "DirEntry \<Rightarrow> u8" where
  "e_big e = ucast (drop_bit 8 (w1 e) AND 0x03)"

definition set_big :: "u8 \<Rightarrow> DirEntry \<Rightarrow> DirEntry" where
  "set_big big e = e\<lparr>w1 := (w1 e AND NOT 0x0300) OR push_bit 8 (ucast (big AND 0x03))\<rparr>"

definition e_size :: "DirEntry \<Rightarrow> u8" where
  "e_size e = ucast (drop_bit 10 (w1 e) AND 0x3F)"

definition set_size :: "u8 \<Rightarrow> DirEntry \<Rightarrow> DirEntry" where
  "set_size sz e = e\<lparr>w1 := (w1 e AND 0x03FF) OR push_bit 10 (ucast (sz AND 0x3F))\<rparr>"

definition e_tag :: "DirEntry \<Rightarrow> u16" where
  "e_tag e = w2 e AND 0x0FFF"

definition set_tag :: "u16 \<Rightarrow> DirEntry \<Rightarrow> DirEntry" where
  "set_tag tag e = e\<lparr>w2 := (w2 e AND 0xF000) OR (tag AND 0x0FFF)\<rparr>"

definition e_phase :: "DirEntry \<Rightarrow> bool" where
  "e_phase e \<longleftrightarrow> drop_bit 12 (w2 e) AND 1 \<noteq> 0"

definition set_phase :: "bool \<Rightarrow> DirEntry \<Rightarrow> DirEntry" where
  "set_phase phase e = e\<lparr>w2 := (w2 e AND NOT 0x1000) OR (if phase then 0x1000 else 0)\<rparr>"

definition e_head :: "DirEntry \<Rightarrow> bool" where
  "e_head e \<longleftrightarrow> drop_bit 13 (w2 e) AND 1 \<noteq> 0"

definition set_head :: "bool \<Rightarrow> DirEntry \<Rightarrow> DirEntry" where
  "set_head is_head e = e\<lparr>w2 := (w2 e AND NOT 0x2000) OR (if is_head then 0x2000 else 0)\<rparr>"

definition e_pinned :: "DirEntry \<Rightarrow> bool" where
  "e_pinned e \<longleftrightarrow> drop_bit 14 (w2 e) AND 1 \<noteq> 0"

definition set_pinned :: "bool \<Rightarrow> DirEntry \<Rightarrow> DirEntry" where
  "set_pinned pinned e = e\<lparr>w2 := (w2 e AND NOT 0x4000) OR (if pinned then 0x4000 else 0)\<rparr>"

definition e_fill_serial :: "DirEntry \<Rightarrow> u16" where
  "e_fill_serial e = w3 e"

definition set_fill_serial :: "u16 \<Rightarrow> DirEntry \<Rightarrow> DirEntry" where
  "set_fill_serial serial e = e\<lparr>w3 := serial\<rparr>"

definition is_empty :: "DirEntry \<Rightarrow> bool" where
  "is_empty e \<longleftrightarrow> e_offset e = 0"

definition kBlockSize :: u64 where "kBlockSize = 512"

definition approx_size :: "DirEntry \<Rightarrow> u64" where
  "approx_size e = push_bit (unat (e_big e)) ((ucast (e_size e) + 1) * kBlockSize)"

text \<open>The loop that picks the size class, which ends at 3.\<close>

function big_class :: "u64 \<Rightarrow> nat \<Rightarrow> nat" where
  "big_class n b = (if n > (63 + 1) * kBlockSize * push_bit b 1 \<and> b < 3 then big_class n (b + 1) else b)"
  by pat_completeness auto
termination by (relation "measure (\<lambda>(n, b). 3 - b)") auto

declare big_class.simps [simp del]

definition set_approx_size :: "u64 \<Rightarrow> DirEntry \<Rightarrow> DirEntry" where
  "set_approx_size n e =
     (let b = big_class n 0;
          block_size = push_bit b kBlockSize;
          blocks = (n + block_size - 1) div block_size;
          blocks = (if blocks = 0 then 1 else blocks);
          blocks = (if blocks > 64 then 64 else blocks)
      in set_size (ucast (blocks - 1)) (set_big (of_nat b) e))"

section \<open>Masks\<close>

lemma mask_16 [word_bit]:
  fixes x :: u16
  shows "bit (x AND 0xFF) k \<longleftrightarrow> k < 8 \<and> bit x k"
    and "bit (x AND 0x03FF) k \<longleftrightarrow> k < 10 \<and> bit x k"
    and "bit (x AND 0x0FFF) k \<longleftrightarrow> k < 12 \<and> bit x k"
    and "bit (x AND 0x03) k \<longleftrightarrow> k < 2 \<and> bit x k"
    and "bit (x AND 0x3F) k \<longleftrightarrow> k < 6 \<and> bit x k"
proof -
  have m: "(0xFF :: u16) = mask 8" "(0x03FF :: u16) = mask 10" "(0x0FFF :: u16) = mask 12"
    "(0x03 :: u16) = mask 2" "(0x3F :: u16) = mask 6"
    by (simp_all add: mask_numeral)
  show "bit (x AND 0xFF) k \<longleftrightarrow> k < 8 \<and> bit x k" "bit (x AND 0x03FF) k \<longleftrightarrow> k < 10 \<and> bit x k"
    "bit (x AND 0x0FFF) k \<longleftrightarrow> k < 12 \<and> bit x k" "bit (x AND 0x03) k \<longleftrightarrow> k < 2 \<and> bit x k"
    "bit (x AND 0x3F) k \<longleftrightarrow> k < 6 \<and> bit x k"
    unfolding m by (auto simp: bit_and_iff bit_mask_iff dest: bit_imp_le_length)
qed

lemma mask_8 [word_bit]:
  fixes x :: u8
  shows "bit (x AND 0x03) k \<longleftrightarrow> k < 2 \<and> bit x k" and "bit (x AND 0x3F) k \<longleftrightarrow> k < 6 \<and> bit x k"
proof -
  have m: "(0x03 :: u8) = mask 2" "(0x3F :: u8) = mask 6"
    by (simp_all add: mask_numeral)
  show "bit (x AND 0x03) k \<longleftrightarrow> k < 2 \<and> bit x k" "bit (x AND 0x3F) k \<longleftrightarrow> k < 6 \<and> bit x k"
    unfolding m by (auto simp: bit_and_iff bit_mask_iff dest: bit_imp_le_length)
qed

lemma mask_64 [word_bit]:
  fixes x :: u64
  shows "bit (x AND 0xFF) k \<longleftrightarrow> k < 8 \<and> bit x k" and "bit (x AND 0xFFFF) k \<longleftrightarrow> k < 16 \<and> bit x k"
proof -
  have m: "(0xFF :: u64) = mask 8" "(0xFFFF :: u64) = mask 16"
    by (simp_all add: mask_numeral)
  show "bit (x AND 0xFF) k \<longleftrightarrow> k < 8 \<and> bit x k" "bit (x AND 0xFFFF) k \<longleftrightarrow> k < 16 \<and> bit x k"
    unfolding m by (auto simp: bit_and_iff bit_mask_iff dest: bit_imp_le_length)
qed

lemma high_mask_16 [word_bit]:
  fixes x :: u16
  shows "bit (x AND 0xFF00) k \<longleftrightarrow> 8 \<le> k \<and> bit x k" and "bit (x AND 0xF000) k \<longleftrightarrow> 12 \<le> k \<and> bit x k"
proof -
  have m: "(0xFF00 :: u16) = push_bit 8 (mask 8)" "(0xF000 :: u16) = push_bit 12 (mask 4)"
    by (simp_all add: mask_numeral push_bit_numeral)
  show "bit (x AND 0xFF00) k \<longleftrightarrow> 8 \<le> k \<and> bit x k" "bit (x AND 0xF000) k \<longleftrightarrow> 12 \<le> k \<and> bit x k"
    unfolding m by (auto simp: bit_and_iff bit_push_bit_iff bit_mask_iff dest: bit_imp_le_length)
qed

lemma single_bit_16 [word_bit]:
  "bit (0x1000 :: u16) k \<longleftrightarrow> k = 12" "bit (0x2000 :: u16) k \<longleftrightarrow> k = 13" "bit (0x4000 :: u16) k \<longleftrightarrow> k = 14"
  "bit (0x0300 :: u16) k \<longleftrightarrow> k = 8 \<or> k = 9"
proof -
  have m: "(0x1000 :: u16) = push_bit 12 1" "(0x2000 :: u16) = push_bit 13 1" "(0x4000 :: u16) = push_bit 14 1"
    "(0x0300 :: u16) = push_bit 8 (mask 2)"
    by (simp_all add: push_bit_numeral mask_numeral)
  show "bit (0x1000 :: u16) k \<longleftrightarrow> k = 12" "bit (0x2000 :: u16) k \<longleftrightarrow> k = 13" "bit (0x4000 :: u16) k \<longleftrightarrow> k = 14"
    "bit (0x0300 :: u16) k \<longleftrightarrow> k = 8 \<or> k = 9"
    unfolding m by (auto simp: bit_push_bit_iff bit_1_iff bit_mask_iff simp del: push_bit_of_1)
qed

lemma not_mask_16:
  fixes x :: u16
  shows "bit (x AND NOT 0x0300) k \<longleftrightarrow> k \<noteq> 8 \<and> k \<noteq> 9 \<and> bit x k"
    and "bit (x AND NOT 0x1000) k \<longleftrightarrow> k \<noteq> 12 \<and> bit x k"
    and "bit (x AND NOT 0x2000) k \<longleftrightarrow> k \<noteq> 13 \<and> bit x k"
    and "bit (x AND NOT 0x4000) k \<longleftrightarrow> k \<noteq> 14 \<and> bit x k"
  using bit_imp_le_length[of x k]
  by (simp_all only: bit_and_iff bit_not_iff single_bit_16 possible_bit_word) auto

section \<open>Get and set\<close>

lemma and_one_bit: "drop_bit n (x :: u16) AND 1 \<noteq> 0 \<longleftrightarrow> bit x n"
  by (simp add: and_one_eq bit_iff_odd_drop_bit odd_iff_mod_2_eq_one)

lemma e_flags_bit [word_bit]:
  "e_phase e \<longleftrightarrow> bit (w2 e) 12" "e_head e \<longleftrightarrow> bit (w2 e) 13" "e_pinned e \<longleftrightarrow> bit (w2 e) 14"
  by (simp_all only: e_phase_def e_head_def e_pinned_def and_one_bit)

lemma bit_e_offset [word_bit]:
  "bit (e_offset e) k \<longleftrightarrow> (k < 16 \<and> bit (w0 e) k) \<or> (16 \<le> k \<and> k < 24 \<and> bit (w1 e) (k - 16)) \<or>
     (24 \<le> k \<and> k < 40 \<and> bit (w4 e) (k - 24))"
  by (auto simp: e_offset_def bit_or_iff bit_push_bit_iff bit_ucast_iff word_bit dest: bit_imp_le_length)

lemma bit_e_fields [word_bit]:
  "bit (e_big e) k \<longleftrightarrow> k < 2 \<and> bit (w1 e) (8 + k)"
  "bit (e_size e) k \<longleftrightarrow> k < 6 \<and> bit (w1 e) (10 + k)"
  "bit (e_tag e) k \<longleftrightarrow> k < 12 \<and> bit (w2 e) k"
  by (auto simp: e_big_def e_size_def e_tag_def bit_ucast_iff bit_drop_bit_eq word_bit)

lemma entry_set_words:
  "w0 (set_offset off e) = ucast (off AND 0xFFFF)"
  "w1 (set_offset off e) = (w1 e AND 0xFF00) OR ucast (drop_bit 16 off AND 0xFF)"
  "w4 (set_offset off e) = ucast (drop_bit 24 off AND 0xFFFF)"
  "w1 (set_big b e) = (w1 e AND NOT 0x0300) OR push_bit 8 (ucast (b AND 0x03))"
  "w1 (set_size z e) = (w1 e AND 0x03FF) OR push_bit 10 (ucast (z AND 0x3F))"
  "w2 (set_tag t e) = (w2 e AND 0xF000) OR (t AND 0x0FFF)"
  "w2 (set_phase p e) = (w2 e AND NOT 0x1000) OR (if p then 0x1000 else 0)"
  "w2 (set_head p e) = (w2 e AND NOT 0x2000) OR (if p then 0x2000 else 0)"
  "w2 (set_pinned p e) = (w2 e AND NOT 0x4000) OR (if p then 0x4000 else 0)"
  by (simp_all add: set_offset_def set_big_def set_size_def set_tag_def set_phase_def set_head_def set_pinned_def)

lemmas entry_bits = bit_or_iff bit_ucast_iff bit_drop_bit_eq bit_push_bit_iff mask_8 mask_16 mask_64 high_mask_16
  not_mask_16

lemma bit_set_words [word_bit]:
  "bit (w0 (set_offset off e)) k \<longleftrightarrow> k < 16 \<and> bit off k"
  "bit (w1 (set_offset off e)) k \<longleftrightarrow> (if k < 8 then bit off (16 + k) else bit (w1 e) k)"
  "bit (w4 (set_offset off e)) k \<longleftrightarrow> k < 16 \<and> bit off (24 + k)"
  "bit (w1 (set_big b e)) k \<longleftrightarrow> (if 8 \<le> k \<and> k < 10 then bit b (k - 8) else bit (w1 e) k)"
  "bit (w1 (set_size z e)) k \<longleftrightarrow> (if 10 \<le> k then k < 16 \<and> bit z (k - 10) else bit (w1 e) k)"
  "bit (w2 (set_tag t e)) k \<longleftrightarrow> (if k < 12 then bit t k else bit (w2 e) k)"
  by (simp_all only: entry_set_words entry_bits) (auto simp: possible_bit_word dest: bit_imp_le_length)

lemma bit_set_flags [word_bit]:
  "bit (w2 (set_phase p e)) k \<longleftrightarrow> (if k = 12 then p else bit (w2 e) k)"
  "bit (w2 (set_head p e)) k \<longleftrightarrow> (if k = 13 then p else bit (w2 e) k)"
  "bit (w2 (set_pinned p e)) k \<longleftrightarrow> (if k = 14 then p else bit (w2 e) k)"
  by (cases p; simp only: entry_set_words entry_bits if_True if_False single_bit_16 bit_0_eq; auto)+

lemma set_words [simp]:
  "w2 (set_offset off e) = w2 e" "w3 (set_offset off e) = w3 e"
  "w0 (set_big b e) = w0 e" "w2 (set_big b e) = w2 e" "w3 (set_big b e) = w3 e" "w4 (set_big b e) = w4 e"
  "w0 (set_size z e) = w0 e" "w2 (set_size z e) = w2 e" "w3 (set_size z e) = w3 e" "w4 (set_size z e) = w4 e"
  "w0 (set_tag t e) = w0 e" "w1 (set_tag t e) = w1 e" "w3 (set_tag t e) = w3 e" "w4 (set_tag t e) = w4 e"
  "w0 (set_phase p e) = w0 e" "w1 (set_phase p e) = w1 e" "w3 (set_phase p e) = w3 e" "w4 (set_phase p e) = w4 e"
  "w0 (set_head p e) = w0 e" "w1 (set_head p e) = w1 e" "w3 (set_head p e) = w3 e" "w4 (set_head p e) = w4 e"
  "w0 (set_pinned p e) = w0 e" "w1 (set_pinned p e) = w1 e" "w3 (set_pinned p e) = w3 e" "w4 (set_pinned p e) = w4 e"
  "w0 (set_fill_serial s e) = w0 e" "w1 (set_fill_serial s e) = w1 e" "w2 (set_fill_serial s e) = w2 e"
  "w3 (set_fill_serial s e) = s" "w4 (set_fill_serial s e) = w4 e"
  by (simp_all add: set_offset_def set_big_def set_size_def set_tag_def set_phase_def set_head_def
      set_pinned_def set_fill_serial_def)

text \<open>What each setter stores.\<close>

lemma get_set [simp]:
  "e_offset (set_offset off e) = take_bit 40 off"
  "e_big (set_big b e) = take_bit 2 b"
  "e_size (set_size z e) = take_bit 6 z"
  "e_tag (set_tag t e) = take_bit 12 t"
  "e_phase (set_phase p e) = p"
  "e_head (set_head p e) = p"
  "e_pinned (set_pinned p e) = p"
  "e_fill_serial (set_fill_serial s e) = s"
proof -
  show "e_offset (set_offset off e) = take_bit 40 off"
    by (rule bit_word_eqI) (auto simp: word_bit bit_take_bit_iff dest: bit_imp_le_length)
  show "e_big (set_big b e) = take_bit 2 b"
    by (rule bit_word_eqI) (auto simp: word_bit bit_take_bit_iff)
  show "e_size (set_size z e) = take_bit 6 z"
    by (rule bit_word_eqI) (auto simp: word_bit bit_take_bit_iff)
  show "e_tag (set_tag t e) = take_bit 12 t"
    by (rule bit_word_eqI) (auto simp: word_bit bit_take_bit_iff)
qed (simp_all add: word_bit e_fill_serial_def)

text \<open>What each setter leaves alone.\<close>

lemma set_keeps [simp]:
  "e_big (set_offset off e) = e_big e" "e_size (set_offset off e) = e_size e" "e_tag (set_offset off e) = e_tag e"
  "e_offset (set_big b e) = e_offset e" "e_size (set_big b e) = e_size e" "e_tag (set_big b e) = e_tag e"
  "e_offset (set_size z e) = e_offset e" "e_big (set_size z e) = e_big e" "e_tag (set_size z e) = e_tag e"
  "e_offset (set_tag t e) = e_offset e" "e_big (set_tag t e) = e_big e" "e_size (set_tag t e) = e_size e"
  "e_offset (set_phase p e) = e_offset e" "e_big (set_phase p e) = e_big e" "e_size (set_phase p e) = e_size e" "e_tag (set_phase p e) = e_tag e"
  "e_offset (set_head p e) = e_offset e" "e_big (set_head p e) = e_big e" "e_size (set_head p e) = e_size e" "e_tag (set_head p e) = e_tag e"
  "e_offset (set_pinned p e) = e_offset e" "e_big (set_pinned p e) = e_big e" "e_size (set_pinned p e) = e_size e" "e_tag (set_pinned p e) = e_tag e"
  "e_offset (set_fill_serial s e) = e_offset e" "e_big (set_fill_serial s e) = e_big e" "e_size (set_fill_serial s e) = e_size e" "e_tag (set_fill_serial s e) = e_tag e"
  by (rule bit_word_eqI; auto simp: word_bit)+

lemma set_keeps_flags [simp]:
  "e_phase (set_offset off e) = e_phase e" "e_head (set_offset off e) = e_head e" "e_pinned (set_offset off e) = e_pinned e"
  "e_phase (set_big b e) = e_phase e" "e_head (set_big b e) = e_head e" "e_pinned (set_big b e) = e_pinned e"
  "e_phase (set_size z e) = e_phase e" "e_head (set_size z e) = e_head e" "e_pinned (set_size z e) = e_pinned e"
  "e_phase (set_tag t e) = e_phase e" "e_head (set_tag t e) = e_head e" "e_pinned (set_tag t e) = e_pinned e"
  "e_head (set_phase p e) = e_head e" "e_pinned (set_phase p e) = e_pinned e"
  "e_phase (set_head p e) = e_phase e" "e_pinned (set_head p e) = e_pinned e"
  "e_phase (set_pinned p e) = e_phase e" "e_head (set_pinned p e) = e_head e"
  "e_phase (set_fill_serial s e) = e_phase e" "e_head (set_fill_serial s e) = e_head e" "e_pinned (set_fill_serial s e) = e_pinned e"
  by (simp_all add: word_bit)

lemma set_keeps_serial [simp]:
  "e_fill_serial (set_offset off e) = e_fill_serial e" "e_fill_serial (set_big b e) = e_fill_serial e"
  "e_fill_serial (set_size z e) = e_fill_serial e" "e_fill_serial (set_tag t e) = e_fill_serial e"
  "e_fill_serial (set_phase p e) = e_fill_serial e" "e_fill_serial (set_head p e) = e_fill_serial e"
  "e_fill_serial (set_pinned p e) = e_fill_serial e"
  by (simp_all add: e_fill_serial_def)

section \<open>The size code\<close>

lemma big_class_eq:
  "big_class n 0 = (if n \<le> 32768 then 0 else if n \<le> 65536 then 1 else if n \<le> 131072 then 2 else 3)"
proof -
  have "big_class n 3 = 3"
    by (simp add: big_class.simps)
  moreover have "big_class n 2 = (if n > 131072 then big_class n 3 else 2)"
    by (subst big_class.simps) (simp add: kBlockSize_def)
  moreover have "big_class n 1 = (if n > 65536 then big_class n 2 else 1)"
    by (subst big_class.simps) (simp add: kBlockSize_def numeral_2_eq_2)
  moreover have "big_class n 0 = (if n > 32768 then big_class n 1 else 0)"
    by (subst big_class.simps) (simp add: kBlockSize_def)
  ultimately show ?thesis
    by auto
qed

lemma approx_size_code:
  assumes "b < 4" and "j < 64"
  shows "unat (approx_size (set_size (of_nat j) (set_big (of_nat b) e))) = Suc j * 512 * 2 ^ b"
proof -
  have b: "unat (take_bit 2 (of_nat b :: u8)) = b"
    using assms by (simp add: unsigned_take_bit_eq unsigned_of_nat take_bit_nat_eq_self)
  have s: "unat (take_bit 6 (of_nat j :: u8)) = j"
    using assms by (simp add: unsigned_take_bit_eq unsigned_of_nat take_bit_nat_eq_self)
  have "(ucast (take_bit 6 (of_nat j :: u8)) :: u64) = of_nat j"
    by (metis s of_nat_unat)
  then have "approx_size (set_size (of_nat j) (set_big (of_nat b) e)) = push_bit b (of_nat (Suc j) * 512)"
    by (simp add: approx_size_def kBlockSize_def b add.commute)
  also have "\<dots> = of_nat (Suc j * 512 * 2 ^ b)"
    by (simp add: push_bit_eq_mult)
  finally have "approx_size (set_size (of_nat j) (set_big (of_nat b) e)) = of_nat (Suc j * 512 * 2 ^ b)" .
  moreover have "Suc j * 512 * 2 ^ b \<le> 64 * 512 * 2 ^ 3"
    using assms by (intro mult_mono power_increasing) simp_all
  ultimately show ?thesis
    by (simp only: unsigned_of_nat) (simp add: take_bit_nat_eq_self)
qed

lemma set_approx_size_nat:
  assumes n: "unat n < 2 ^ 63" and b: "b = big_class n 0"
    and k: "k = min 64 (max 1 ((unat n + 512 * 2 ^ b - 1) div (512 * 2 ^ b)))"
  shows "set_approx_size n e = set_size (of_nat (k - 1)) (set_big (of_nat b) e)" and "b < 4"
proof -
  show b4: "b < 4" by (simp add: b big_class_eq)
  let ?bs = "push_bit b kBlockSize" and ?m = "(512 :: nat) * 2 ^ b"
  have m: "0 < ?m" "?m \<le> 4096"
    using power_increasing[of b 3 "2 :: nat"] b4 by simp_all
  have bs: "?bs = of_nat ?m" by (simp add: kBlockSize_def push_bit_eq_mult)
  have "n + ?bs - 1 = of_nat (unat n + ?m - 1)"
    using of_nat_diff[of 1 "unat n + ?m", where 'a = u64] m by (simp add: bs del: of_nat_diff)
  then have "(n + ?bs - 1) div ?bs = of_nat ((unat n + ?m - 1) div ?m)"
    unfolding bs using n m
    by (simp only: word_arith_nat_div unsigned_of_nat) (simp add: take_bit_nat_eq_self)
  moreover have "(unat n + ?m - 1) div ?m < 2 ^ 64"
    using n m by (intro order.strict_trans1[OF div_le_dividend]) simp
  ultimately have q: "unat ((n + ?bs - 1) div ?bs) = (unat n + ?m - 1) div ?m"
    using take_bit_nat_eq_self[of "(unat n + ?m - 1) div ?m" 64] by (simp only: unsigned_of_nat) simp
  define blocks where "blocks = (n + ?bs - 1) div ?bs"
  define c where "c = (let blocks = (if blocks = 0 then 1 else blocks) in if blocks > 64 then 64 else blocks)"
  have "unat c = k"
  proof -
    have "blocks = 0 \<longleftrightarrow> unat blocks = 0" "blocks > 64 \<longleftrightarrow> unat blocks > 64"
      by (simp_all add: unat_eq_zero word_less_nat_alt)
    then show ?thesis
      using q by (simp add: c_def k blocks_def Let_def word_less_nat_alt min_def max_def)
  qed
  moreover have "ucast (c - 1) = (of_nat (unat c - 1) :: u8)" if "c \<noteq> 0"
    using that by (metis of_nat_unat unat_minus_one)
  moreover have "k \<noteq> 0" by (simp add: k)
  ultimately have "ucast (c - 1) = (of_nat (k - 1) :: u8)" by force
  moreover have "set_approx_size n e = set_size (ucast (c - 1)) (set_big (of_nat b) e)"
    by (simp only: set_approx_size_def b Let_def c_def blocks_def)
  ultimately show "set_approx_size n e = set_size (of_nat (k - 1)) (set_big (of_nat b) e)"
    by (simp only:)
qed

lemma approx_size_bounds:
  assumes "unat n < 2 ^ 63"
  shows "(unat n \<le> 262144 \<longrightarrow> unat n \<le> unat (approx_size (set_approx_size n e)) \<and>
      unat (approx_size (set_approx_size n e)) < max 1 (unat n) + 512 * 2 ^ big_class n 0) \<and>
    (262144 < unat n \<longrightarrow> unat (approx_size (set_approx_size n e)) = 262144) \<and>
    e_offset (set_approx_size n e) = e_offset e \<and> e_tag (set_approx_size n e) = e_tag e"
proof -
  let ?b = "big_class n 0"
  define k where "k = min 64 (max 1 ((unat n + 512 * 2 ^ ?b - 1) div (512 * 2 ^ ?b)))"
  note code = set_approx_size_nat[OF assms refl k_def]
  have a: "unat (approx_size (set_approx_size n e)) = k * (512 * 2 ^ ?b)"
    using approx_size_code[OF code(2), of "k - 1" e] code(1)[of e] by (simp add: k_def)
  have cls: "(unat n \<le> 32768 \<and> ?b = 0) \<or> (32768 < unat n \<and> unat n \<le> 65536 \<and> ?b = 1) \<or>
      (65536 < unat n \<and> unat n \<le> 131072 \<and> ?b = 2) \<or> (131072 < unat n \<and> ?b = 3)"
    by (auto simp: big_class_eq word_le_nat_alt)
  have "(unat n \<le> 262144 \<longrightarrow> unat n \<le> k * (512 * 2 ^ ?b) \<and> k * (512 * 2 ^ ?b) < max 1 (unat n) + 512 * 2 ^ ?b) \<and>
    (262144 < unat n \<longrightarrow> k * (512 * 2 ^ ?b) = 262144)"
    using cls unfolding k_def by (elim disjE; clarsimp) (linarith | presburger | force)+
  then show ?thesis
    using a by (simp add: code(1))
qed



end
