(* ===== verification/Sha256.thy ===== *)
theory Sha256
  imports Cyclone_Prelude
begin

text \<open>
  The bundled SHA-256, src/src/core/sha256.hpp: the streaming context with its block buffer,
  and the proof that it computes the digest of FIPS 180-4 (padding, then one transform per
  64-byte block) of the concatenated message however the message is cut into updates.
\<close>

unbundle bit_operations_syntax

section \<open>The compression function\<close>

definition K256 :: "u32 list" where
  "K256 = concat [
     [0x428a2f98, 0x71374491, 0xb5c0fbcf, 0xe9b5dba5, 0x3956c25b, 0x59f111f1],
     [0x923f82a4, 0xab1c5ed5, 0xd807aa98, 0x12835b01, 0x243185be, 0x550c7dc3],
     [0x72be5d74, 0x80deb1fe, 0x9bdc06a7, 0xc19bf174, 0xe49b69c1, 0xefbe4786],
     [0x0fc19dc6, 0x240ca1cc, 0x2de92c6f, 0x4a7484aa, 0x5cb0a9dc, 0x76f988da],
     [0x983e5152, 0xa831c66d, 0xb00327c8, 0xbf597fc7, 0xc6e00bf3, 0xd5a79147],
     [0x06ca6351, 0x14292967, 0x27b70a85, 0x2e1b2138, 0x4d2c6dfc, 0x53380d13],
     [0x650a7354, 0x766a0abb, 0x81c2c92e, 0x92722c85, 0xa2bfe8a1, 0xa81a664b],
     [0xc24b8b70, 0xc76c51a3, 0xd192e819, 0xd6990624, 0xf40e3585, 0x106aa070],
     [0x19a4c116, 0x1e376c08, 0x2748774c, 0x34b0bcb5, 0x391c0cb3, 0x4ed8aa4a],
     [0x5b9cca4f, 0x682e6ff3, 0x748f82ee, 0x78a5636f, 0x84c87814, 0x8cc70208],
     [0x90befffa, 0xa4506ceb, 0xbef9a3f7, 0xc67178f2]]"

definition rotr :: "u32 \<Rightarrow> nat \<Rightarrow> u32" where
  "rotr x n = drop_bit n x OR push_bit (32 - n) x"

definition ch :: "u32 \<Rightarrow> u32 \<Rightarrow> u32 \<Rightarrow> u32" where
  "ch x y z = (x AND y) XOR (NOT x AND z)"

definition maj :: "u32 \<Rightarrow> u32 \<Rightarrow> u32 \<Rightarrow> u32" where
  "maj x y z = (x AND y) XOR (x AND z) XOR (y AND z)"

definition sigma0 :: "u32 \<Rightarrow> u32" where
  "sigma0 x = rotr x 2 XOR rotr x 13 XOR rotr x 22"

definition sigma1 :: "u32 \<Rightarrow> u32" where
  "sigma1 x = rotr x 6 XOR rotr x 11 XOR rotr x 25"

definition gamma0 :: "u32 \<Rightarrow> u32" where
  "gamma0 x = rotr x 7 XOR rotr x 18 XOR drop_bit 3 x"

definition gamma1 :: "u32 \<Rightarrow> u32" where
  "gamma1 x = rotr x 17 XOR rotr x 19 XOR drop_bit 10 x"

definition load_be32 :: "bytes \<Rightarrow> nat \<Rightarrow> u32" where
  "load_be32 block i =
     push_bit 24 (ucast (block ! (i * 4 + 0))) OR push_bit 16 (ucast (block ! (i * 4 + 1))) OR
     push_bit 8 (ucast (block ! (i * 4 + 2))) OR ucast (block ! (i * 4 + 3))"

text \<open>The message schedule: n more words after the first i.\<close>

fun extend_schedule :: "nat \<Rightarrow> u32 list \<Rightarrow> u32 list" where
  "extend_schedule 0 W = W"
| "extend_schedule (Suc n) W =
     (let i = length W
      in extend_schedule n
           (W @ [gamma1 (W ! (i - 2)) + W ! (i - 7) + gamma0 (W ! (i - 15)) + W ! (i - 16)]))"

type_synonym sha_vars = "u32 \<times> u32 \<times> u32 \<times> u32 \<times> u32 \<times> u32 \<times> u32 \<times> u32"

definition sha_round :: "sha_vars \<Rightarrow> u32 \<times> u32 \<Rightarrow> sha_vars" where
  "sha_round v kw =
     (case v of (a, b, c, d, e, f, g, h) \<Rightarrow>
      let t1 = h + sigma1 e + ch e f g + fst kw + snd kw;
          t2 = sigma0 a + maj a b c
      in (t1 + t2, a, b, c, d + t1, e, f, g))"

definition transform :: "bytes \<Rightarrow> u32 list \<Rightarrow> u32 list" where
  "transform block s =
     (let W = extend_schedule 48 (map (load_be32 block) [0 ..< 16])
      in case foldl sha_round (s ! 0, s ! 1, s ! 2, s ! 3, s ! 4, s ! 5, s ! 6, s ! 7) (zip K256 W) of
           (a, b, c, d, e, f, g, h) \<Rightarrow>
             [s ! 0 + a, s ! 1 + b, s ! 2 + c, s ! 3 + d, s ! 4 + e, s ! 5 + f, s ! 6 + g, s ! 7 + h])"

section \<open>The streaming context\<close>

definition BLOCK_SIZE :: nat where "BLOCK_SIZE = 64"

record SHA256 =
  sha_state :: "u32 list"
  sha_buffer :: bytes
  sha_buffer_len :: nat
  sha_count :: u64

definition initial_state :: "u32 list" where
  "initial_state = [0x6a09e667, 0xbb67ae85, 0x3c6ef372, 0xa54ff53a, 0x510e527f, 0x9b05688c, 0x1f83d9ab, 0x5be0cd19]"

text \<open>reset leaves the bytes of the block buffer as they are.\<close>

definition sha_reset :: "SHA256 \<Rightarrow> SHA256" where
  "sha_reset c = c\<lparr>sha_state := initial_state, sha_count := 0, sha_buffer_len := 0\<rparr>"

function sha_blocks :: "bytes \<Rightarrow> u32 list \<Rightarrow> u32 list \<times> bytes" where
  "sha_blocks p s =
     (if length p \<ge> BLOCK_SIZE then sha_blocks (drop BLOCK_SIZE p) (transform (take BLOCK_SIZE p) s) else (s, p))"
  by pat_completeness auto
termination by (relation "measure (\<lambda>(p, s). length p)") (auto simp: BLOCK_SIZE_def)

declare sha_blocks.simps [simp del]

text \<open>The first branch of update: top up a partly filled block.\<close>

definition sha_top_up :: "bytes \<Rightarrow> SHA256 \<Rightarrow> SHA256 \<times> bytes" where
  "sha_top_up p c =
     (if sha_buffer_len c > 0 then
        let to_copy = min (length p) (BLOCK_SIZE - sha_buffer_len c);
            c = c\<lparr>sha_buffer := put_at (sha_buffer_len c) (take to_copy p) (sha_buffer c),
                  sha_buffer_len := sha_buffer_len c + to_copy\<rparr>;
            c = (if sha_buffer_len c = BLOCK_SIZE
                 then c\<lparr>sha_state := transform (sha_buffer c) (sha_state c), sha_buffer_len := 0\<rparr> else c)
        in (c, drop to_copy p)
      else (c, p))"

definition sha_update :: "bytes \<Rightarrow> SHA256 \<Rightarrow> SHA256" where
  "sha_update data c =
     (let c = c\<lparr>sha_count := sha_count c + of_nat (length data)\<rparr>
      in case sha_top_up data c of (c, p) \<Rightarrow>
         case sha_blocks p (sha_state c) of (s, p) \<Rightarrow>
           let c = c\<lparr>sha_state := s\<rparr>
           in if length p > 0 then c\<lparr>sha_buffer := put_at 0 p (sha_buffer c), sha_buffer_len := length p\<rparr> else c)"

definition push_byte :: "byte \<Rightarrow> SHA256 \<Rightarrow> SHA256" where
  "push_byte b c = c\<lparr>sha_buffer := (sha_buffer c)[sha_buffer_len c := b], sha_buffer_len := sha_buffer_len c + 1\<rparr>"

text \<open>Zero bytes until the buffer holds n.\<close>

definition pad_to :: "nat \<Rightarrow> SHA256 \<Rightarrow> SHA256" where
  "pad_to n c = (push_byte 0 ^^ (n - sha_buffer_len c)) c"

definition sha_block_full :: "SHA256 \<Rightarrow> SHA256" where
  "sha_block_full c = c\<lparr>sha_state := transform (sha_buffer c) (sha_state c)\<rparr>"

definition be32_bytes :: "u32 \<Rightarrow> bytes" where
  "be32_bytes w = [ucast (drop_bit 24 w), ucast (drop_bit 16 w), ucast (drop_bit 8 w), ucast w]"

definition be64_bytes :: "u64 \<Rightarrow> bytes" where
  "be64_bytes w = map (\<lambda>i. ucast (drop_bit (i * 8) w)) [7, 6, 5, 4, 3, 2, 1, 0]"

definition sha_finalize :: "SHA256 \<Rightarrow> bytes \<times> SHA256" where
  "sha_finalize c =
     (let bits = sha_count c * 8;
          c = push_byte 0x80 c;
          c = (if sha_buffer_len c > 56
               then (sha_block_full (pad_to BLOCK_SIZE c))\<lparr>sha_buffer_len := 0\<rparr> else c);
          c = pad_to 56 c;
          c = sha_block_full (fold push_byte (be64_bytes bits) c);
          result = concat (map be32_bytes (sha_state c))
      in (result, sha_reset c))"

definition sha256_hash :: "SHA256 \<Rightarrow> bytes \<Rightarrow> bytes" where
  "sha256_hash fresh data = fst (sha_finalize (sha_update data (sha_reset fresh)))"

section \<open>The specification\<close>

definition sha_padding :: "nat \<Rightarrow> bytes" where
  "sha_padding n = 0x80 # replicate ((119 - n mod 64) mod 64) 0 @ be64_bytes (of_nat n * 8)"

definition sha256_spec :: "bytes \<Rightarrow> bytes" where
  "sha256_spec m = concat (map be32_bytes (fst (sha_blocks (m @ sha_padding (length m)) initial_state)))"

section \<open>Blocks\<close>

lemma sha_blocks_short: "length p < 64 \<Longrightarrow> sha_blocks p s = (s, p)"
  by (simp add: sha_blocks.simps BLOCK_SIZE_def)

lemma sha_blocks_step: "length p = 64 \<Longrightarrow> sha_blocks (p @ q) s = sha_blocks q (transform p s)"
  by (subst sha_blocks.simps) (simp add: BLOCK_SIZE_def)

lemma sha_blocks_append:
  "sha_blocks p s = (s', r) \<Longrightarrow> length r < 64 \<and> sha_blocks (p @ q) s = sha_blocks (r @ q) s'"
proof (induction p s rule: sha_blocks.induct)
  case (1 p s)
  show ?case
  proof (cases "64 \<le> length p")
    case True
    have "sha_blocks (p @ q) s = sha_blocks (drop 64 p @ q) (transform (take 64 p) s)"
      using sha_blocks_step[of "take 64 p" "drop 64 p @ q" s] True by (simp flip: append_assoc)
    moreover have "sha_blocks (drop 64 p) (transform (take 64 p) s) = (s', r)"
      using 1(2) True by (subst (asm) sha_blocks.simps) (simp add: BLOCK_SIZE_def)
    ultimately show ?thesis
      using 1(1) True by (simp add: BLOCK_SIZE_def)
  next
    case False
    then show ?thesis
      using 1(2) by (simp add: sha_blocks_short)
  qed
qed

lemma sha_blocks_rest: "sha_blocks p s = (s', r) \<Longrightarrow> length r = length p mod 64"
proof (induction p s rule: sha_blocks.induct)
  case (1 p s)
  show ?case
  proof (cases "64 \<le> length p")
    case True
    then have "sha_blocks (drop 64 p) (transform (take 64 p) s) = (s', r)"
      using 1(2) by (subst (asm) sha_blocks.simps) (simp add: BLOCK_SIZE_def)
    then show ?thesis
      using 1(1) True by (simp add: BLOCK_SIZE_def le_mod_geq)
  next
    case False
    then show ?thesis
      using 1(2) by (simp add: sha_blocks_short)
  qed
qed

section \<open>The context represents a message\<close>

definition content :: "SHA256 \<Rightarrow> bytes" where
  "content c = take (sha_buffer_len c) (sha_buffer c)"

definition represents :: "SHA256 \<Rightarrow> bytes \<Rightarrow> bool" where
  "represents c m \<longleftrightarrow> length (sha_buffer c) = 64 \<and> sha_buffer_len c < 64 \<and>
     sha_blocks m initial_state = (sha_state c, content c) \<and> sha_count c = of_nat (length m)"

lemma represents_reset: "length (sha_buffer c) = 64 \<Longrightarrow> represents (sha_reset c) []"
  by (simp add: represents_def sha_reset_def content_def sha_blocks_short)

lemma take_put_at: "off \<le> length b \<Longrightarrow> take (off + length x) (put_at off x b) = take off b @ x"
  by (simp add: put_at_def)

lemma sha_top_up_blocks:
  assumes "length (sha_buffer c) = 64" and "sha_buffer_len c < 64" and "sha_top_up p c = (c', p')"
  shows "sha_blocks (content c @ p) (sha_state c) = sha_blocks (content c' @ p') (sha_state c')"
    and "length (sha_buffer c') = 64" "sha_buffer_len c' < 64" "sha_count c' = sha_count c"
    and "sha_buffer_len c' = 0 \<or> p' = []"
proof -
  let ?l = "sha_buffer_len c" and ?n = "min (length p) (64 - sha_buffer_len c)"
  let ?b = "put_at ?l (take ?n p) (sha_buffer c)"
  have lb: "length ?b = 64" using assms(1,2) by simp
  have tb: "take (?l + ?n) ?b = content c @ take ?n p"
    using take_put_at[of ?l "sha_buffer c" "take ?n p"] assms(1,2) by (simp add: content_def)
  have "sha_blocks (content c @ p) (sha_state c) = sha_blocks (content c' @ p') (sha_state c') \<and>
    length (sha_buffer c') = 64 \<and> sha_buffer_len c' < 64 \<and> sha_count c' = sha_count c \<and>
    (sha_buffer_len c' = 0 \<or> p' = [])"
  proof (cases "?l > 0 \<and> ?l + ?n = 64")
    case True
    then have c': "c' = c\<lparr>sha_buffer := ?b, sha_state := transform ?b (sha_state c), sha_buffer_len := 0\<rparr>"
      "p' = drop ?n p"
      using assms(3) by (auto simp: sha_top_up_def Let_def BLOCK_SIZE_def)
    have "?b = content c @ take ?n p"
      using tb lb True by simp
    then have "sha_blocks (content c @ p) (sha_state c) = sha_blocks (drop ?n p) (transform ?b (sha_state c))"
      using sha_blocks_step[OF lb, of "drop ?n p" "sha_state c"] by simp
    then show ?thesis
      using lb by (simp add: c' content_def)
  next
    case False
    show ?thesis
    proof (cases "?l > 0")
      case True
      then have c': "c' = c\<lparr>sha_buffer := ?b, sha_buffer_len := ?l + ?n\<rparr>" "p' = []" "?n = length p"
        using assms(2,3) False by (auto simp: sha_top_up_def Let_def BLOCK_SIZE_def min_def split: if_splits)
      then show ?thesis
        using lb tb False True assms(2) by (simp add: content_def min_def split: if_splits)
    next
      case False
      then show ?thesis
        using assms by (simp add: sha_top_up_def)
    qed
  qed
  then show "sha_blocks (content c @ p) (sha_state c) = sha_blocks (content c' @ p') (sha_state c')"
    "length (sha_buffer c') = 64" "sha_buffer_len c' < 64" "sha_count c' = sha_count c"
    "sha_buffer_len c' = 0 \<or> p' = []"
    by simp_all
qed

lemma represents_update:
  assumes "represents c m"
  shows "represents (sha_update d c) (m @ d)"
proof -
  let ?c = "c\<lparr>sha_count := sha_count c + of_nat (length d)\<rparr>"
  obtain c1 p1 where t: "sha_top_up d ?c = (c1, p1)" by force
  obtain s2 p2 where b: "sha_blocks p1 (sha_state c1) = (s2, p2)" by force
  have m: "sha_blocks m initial_state = (sha_state c, content c)" "sha_count c = of_nat (length m)"
    using assms by (simp_all add: represents_def)
  have top: "sha_blocks (content c @ d) (sha_state c) = sha_blocks (content c1 @ p1) (sha_state c1)"
    "length (sha_buffer c1) = 64" "sha_buffer_len c1 < 64" "sha_count c1 = sha_count c + of_nat (length d)"
    "sha_buffer_len c1 = 0 \<or> p1 = []"
    using sha_top_up_blocks[OF _ _ t] assms by (simp_all add: represents_def content_def)
  have md: "sha_blocks (m @ d) initial_state = sha_blocks (content c1 @ p1) (sha_state c1)"
    using sha_blocks_append[OF m(1), of d] top(1) by simp
  have u: "sha_update d c = (if p2 \<noteq> [] then c1\<lparr>sha_state := s2, sha_buffer := put_at 0 p2 (sha_buffer c1),
      sha_buffer_len := length p2\<rparr> else c1\<lparr>sha_state := s2\<rparr>)"
    by (simp add: sha_update_def t b Let_def)
  have p2: "length p2 < 64" using sha_blocks_append[OF b] by simp
  show ?thesis
  proof (cases "sha_buffer_len c1 = 0")
    case True
    then have "sha_blocks (m @ d) initial_state = (s2, p2)"
      using md b by (simp add: content_def)
    moreover have "take (length p2) (put_at 0 p2 (sha_buffer c1)) = p2"
      using take_put_at[of 0 "sha_buffer c1" p2] by simp
    ultimately show ?thesis
      using p2 top True
      by (simp add: u represents_def content_def m)
  next
    case False
    then have "p1 = []" using top(5) by simp
    then have "s2 = sha_state c1" "p2 = []"
      using b by (simp_all add: sha_blocks_short)
    moreover have "length (content c1) < 64"
      using top(2,3) by (simp add: content_def)
    ultimately show ?thesis
      using md top \<open>p1 = []\<close> by (simp add: u represents_def content_def m sha_blocks_short)
  qed
qed

section \<open>Padding\<close>

text \<open>The buffer as a growing list of at most 64 bytes.\<close>

definition open_block :: "SHA256 \<Rightarrow> bool" where
  "open_block c \<longleftrightarrow> length (sha_buffer c) = 64 \<and> sha_buffer_len c \<le> 64"

lemma length_content: "open_block c \<Longrightarrow> length (content c) = sha_buffer_len c"
  by (simp add: open_block_def content_def)

lemma push_byte_content:
  assumes "open_block c" and "sha_buffer_len c < 64"
  shows "open_block (push_byte b c)" "content (push_byte b c) = content c @ [b]"
    "sha_state (push_byte b c) = sha_state c" "sha_buffer_len (push_byte b c) = sha_buffer_len c + 1"
    "sha_count (push_byte b c) = sha_count c"
  using assms by (simp_all add: push_byte_def open_block_def content_def take_Suc_conv_app_nth)

lemma fold_push_byte:
  assumes "open_block c" and "sha_buffer_len c + length bs \<le> 64"
  shows "open_block (fold push_byte bs c) \<and> content (fold push_byte bs c) = content c @ bs \<and>
    sha_state (fold push_byte bs c) = sha_state c \<and> sha_buffer_len (fold push_byte bs c) = sha_buffer_len c + length bs"
  using assms
proof (induction bs arbitrary: c)
  case Nil
  then show ?case by simp
next
  case (Cons b bs)
  then show ?case
    using Cons.IH[of "push_byte b c"] push_byte_content[of c b] by simp
qed

lemma pad_to_fold: "pad_to n c = fold push_byte (replicate (n - sha_buffer_len c) 0) c"
proof -
  have "(push_byte 0 ^^ k) c = fold push_byte (replicate k 0) c" for k
    by (induction k arbitrary: c) (simp_all add: funpow_swap1)
  then show ?thesis by (simp add: pad_to_def)
qed

lemma pad_to_content:
  assumes "open_block c" and "sha_buffer_len c \<le> n" and "n \<le> 64"
  shows "open_block (pad_to n c)" "content (pad_to n c) = content c @ replicate (n - sha_buffer_len c) 0"
    "sha_state (pad_to n c) = sha_state c" "sha_buffer_len (pad_to n c) = n"
  using fold_push_byte[of c "replicate (n - sha_buffer_len c) 0"] assms
  by (simp_all add: pad_to_fold)

lemma sha_block_full_state:
  assumes "open_block c" and "sha_buffer_len c = 64"
  shows "sha_state (sha_block_full c) = transform (content c) (sha_state c)"
  using assms by (simp add: sha_block_full_def open_block_def content_def)

lemma length_be64_bytes [simp]: "length (be64_bytes w) = 8"
  by (simp add: be64_bytes_def)

text \<open>The padding loop of finalize, from a context with room for the marker byte.\<close>

lemma finalize_one_block:
  assumes c: "open_block c" and l: "sha_buffer_len c \<le> 55"
  shows "sha_state (sha_block_full (fold push_byte (be64_bytes w) (pad_to 56 (push_byte 0x80 c)))) =
    fst (sha_blocks (content c @ 0x80 # replicate (55 - sha_buffer_len c) 0 @ be64_bytes w) (sha_state c))"
proof -
  let ?p = "push_byte 0x80 c"
  have p: "open_block ?p" "content ?p = content c @ [0x80]" "sha_state ?p = sha_state c" "sha_buffer_len ?p = sha_buffer_len c + 1"
    using push_byte_content[OF c] l by simp_all
  note q = pad_to_content[of ?p 56] fold_push_byte[of "pad_to 56 ?p" "be64_bytes w"]
  let ?f = "fold push_byte (be64_bytes w) (pad_to 56 ?p)"
  have f: "open_block ?f" "sha_buffer_len ?f = 64" "sha_state ?f = sha_state c"
    "content ?f = content c @ 0x80 # replicate (55 - sha_buffer_len c) 0 @ be64_bytes w"
    using q p l by simp_all
  then show ?thesis
    using sha_block_full_state[OF f(1,2)] sha_blocks_step[of "content ?f" "[]" "sha_state c"] length_content[OF f(1)]
    by (simp add: sha_blocks_short)
qed

lemma finalize_two_blocks:
  assumes c: "open_block c" and l: "56 \<le> sha_buffer_len c" "sha_buffer_len c < 64"
  shows "sha_state (sha_block_full (fold push_byte (be64_bytes w) (pad_to 56
      ((sha_block_full (pad_to 64 (push_byte 0x80 c)))\<lparr>sha_buffer_len := 0\<rparr>)))) =
    fst (sha_blocks (content c @ 0x80 # replicate (119 - sha_buffer_len c) 0 @ be64_bytes w) (sha_state c))"
proof -
  let ?p = "push_byte 0x80 c"
  have p: "open_block ?p" "content ?p = content c @ [0x80]" "sha_state ?p = sha_state c" "sha_buffer_len ?p = sha_buffer_len c + 1"
    using push_byte_content[OF c] l by simp_all
  let ?q = "pad_to 64 ?p"
  have q: "open_block ?q" "sha_buffer_len ?q = 64" "sha_state ?q = sha_state c"
    "content ?q = content c @ 0x80 # replicate (63 - sha_buffer_len c) 0"
    using pad_to_content[of ?p 64] p l by simp_all
  let ?r = "(sha_block_full ?q)\<lparr>sha_buffer_len := 0\<rparr>"
  have r: "open_block ?r" "content ?r = []" "sha_state ?r = transform (content ?q) (sha_state c)" "sha_buffer_len ?r = 0"
    using q sha_block_full_state[OF q(1,2)] by (simp_all add: open_block_def content_def sha_block_full_def)
  let ?f = "fold push_byte (be64_bytes w) (pad_to 56 ?r)"
  have f: "open_block ?f" "sha_buffer_len ?f = 64" "sha_state ?f = transform (content ?q) (sha_state c)"
    "content ?f = replicate 56 0 @ be64_bytes w"
    using pad_to_content[of ?r 56] fold_push_byte[of "pad_to 56 ?r" "be64_bytes w"] r by simp_all
  have zeros: "replicate (119 - sha_buffer_len c) (0 :: byte) = replicate (63 - sha_buffer_len c) 0 @ replicate 56 0"
    using l by (simp flip: replicate_add)
  have "content c @ 0x80 # replicate (119 - sha_buffer_len c) 0 @ be64_bytes w = content ?q @ content ?f @ []"
    by (simp only: zeros q(4) f(4) append_assoc append_Cons append_Nil2)
  then have "sha_blocks (content c @ 0x80 # replicate (119 - sha_buffer_len c) 0 @ be64_bytes w) (sha_state c)
      = (transform (content ?f) (transform (content ?q) (sha_state c)), [])"
    using length_content[OF q(1)] length_content[OF f(1)] q(2) f(2) by (simp only: sha_blocks_step) (simp add: sha_blocks_short)
  then show ?thesis
    using sha_block_full_state[OF f(1,2)] f(3) by simp
qed

lemma finalize_represents:
  assumes "represents c m"
  shows "fst (sha_finalize c) = sha256_spec m"
proof -
  have c: "open_block c" "sha_buffer_len c < 64" "sha_count c = of_nat (length m)"
    using assms by (simp_all add: represents_def open_block_def)
  have m: "sha_blocks m initial_state = (sha_state c, content c)"
    using assms by (simp add: represents_def)
  have len: "length m mod 64 = sha_buffer_len c"
    using sha_blocks_rest[OF m] length_content[OF c(1)] by simp
  have spec: "sha256_spec m = concat (map be32_bytes (fst (sha_blocks (content c @ sha_padding (length m)) (sha_state c))))"
    using sha_blocks_append[OF m] by (simp add: sha256_spec_def)
  show ?thesis
  proof (cases "sha_buffer_len c \<le> 55")
    case True
    then have "119 - length m mod 64 = (55 - sha_buffer_len c) + 64"
      unfolding len by simp
    then have "(119 - length m mod 64) mod 64 = 55 - sha_buffer_len c"
      by (simp only: mod_add_self2) simp
    then show ?thesis
      using finalize_one_block[OF c(1) True, of "sha_count c * 8"] True push_byte_content(4)[OF c(1,2)]
      by (simp add: sha_finalize_def Let_def spec sha_padding_def c(3))
  next
    case False
    then have "(119 - length m mod 64) mod 64 = 119 - sha_buffer_len c"
      unfolding len by simp
    then show ?thesis
      using finalize_two_blocks[OF c(1) _ c(2), of "sha_count c * 8"] False push_byte_content(4)[OF c(1,2)]
      by (simp add: sha_finalize_def Let_def spec sha_padding_def c(3) BLOCK_SIZE_def)
  qed
qed

lemma length_push_byte [simp]: "length (sha_buffer (push_byte b c)) = length (sha_buffer c)"
  by (simp add: push_byte_def)

lemma length_push_bytes [simp]: "length (sha_buffer (fold push_byte bs c)) = length (sha_buffer c)"
  by (induction bs arbitrary: c) simp_all

lemma length_pad_to [simp]: "length (sha_buffer (pad_to n c)) = length (sha_buffer c)"
  by (simp add: pad_to_fold del: fold_replicate)

lemma length_finalize_buffer: "length (sha_buffer (snd (sha_finalize c))) = length (sha_buffer c)"
  by (simp add: sha_finalize_def Let_def sha_reset_def sha_block_full_def)

lemma reset_finalize: "sha_reset (snd (sha_finalize c)) = snd (sha_finalize c)"
  by (simp add: sha_finalize_def Let_def sha_reset_def)

lemma represents_updates: "represents c m \<Longrightarrow> represents (fold sha_update ds c) (m @ concat ds)"
proof (induction ds arbitrary: c m)
  case Nil
  then show ?case by simp
next
  case (Cons d ds)
  then show ?case
    using Cons.IH[OF represents_update[OF Cons.prems, of d]] by simp
qed



end
