(* ===== verification/Cache_Key.thy ===== *)
theory Cache_Key
  imports Sha256
begin

text \<open>
  Cache keys: src/src/core/key.cpp and src/include/cyclone/key.hpp.  A key is a SHA-256 digest;
  disjoint bytes of it choose the stripe, the directory bucket and the 12-bit tag.  The hash is
  the bundled SHA-256 (the OpenSSL backend computes the same digest).  The two digits of a byte
  are below 16, so shifting and or-ing them is multiplying and adding.  A string view is the
  list of its bytes; the hexadecimal form is a HOL string.
\<close>

unbundle bit_operations_syntax

section \<open>Model\<close>

definition kDigestSize :: nat where "kDigestSize = 32"

datatype CacheKey = CacheKey (digest: bytes)

definition zero_key :: CacheKey where
  "zero_key = CacheKey (replicate kDigestSize 0)"

definition compute_sha256 :: "bytes \<Rightarrow> CacheKey" where
  "compute_sha256 data =
     CacheKey (sha256_hash \<lparr>sha_state = [], sha_buffer = replicate 64 0, sha_buffer_len = 0, sha_count = 0\<rparr> data)"

definition from_url :: "bytes \<Rightarrow> bytes \<Rightarrow> CacheKey" where
  "from_url url hostname =
     (if hostname \<noteq> [] then compute_sha256 (hostname @ 0x2F # url) else compute_sha256 url)"

definition from_digest :: "bytes \<Rightarrow> CacheKey" where
  "from_digest d = CacheKey d"

definition segment_hash :: "CacheKey \<Rightarrow> u32" where
  "segment_hash k = from_le (subspan 0 4 (digest k))"

definition bucket_hash :: "CacheKey \<Rightarrow> u32" where
  "bucket_hash k = from_le (subspan 4 4 (digest k))"

definition key_tag :: "CacheKey \<Rightarrow> u16" where
  "key_tag k = from_le (subspan 8 2 (digest k)) AND 0x0FFF"

definition hex_digit :: "nat \<Rightarrow> char" where
  "hex_digit n = (if n < 10 then char_of (n + 48) else char_of (n + 87))"

definition to_hex :: "CacheKey \<Rightarrow> string" where
  "to_hex k = concat (map (\<lambda>b. [hex_digit (unat b div 16), hex_digit (unat b mod 16)]) (digest k))"

definition from_hex_char :: "char \<Rightarrow> nat" where
  "from_hex_char c =
     (let n = of_char c in
      if n \<ge> 48 \<and> n \<le> 57 then n - 48
      else if n \<ge> 97 \<and> n \<le> 102 then 10 + n - 97
      else if n \<ge> 65 \<and> n \<le> 70 then 10 + n - 65
      else 0)"

definition from_hex :: "string \<Rightarrow> CacheKey" where
  "from_hex hex =
     (if length hex \<noteq> kDigestSize * 2 then zero_key
      else CacheKey (map (\<lambda>i. of_nat (from_hex_char (hex ! (i * 2)) * 16 + from_hex_char (hex ! (i * 2 + 1))))
             [0 ..< kDigestSize]))"

definition is_zero :: "CacheKey \<Rightarrow> bool" where
  "is_zero k \<longleftrightarrow> digest k = replicate kDigestSize 0"

text \<open>The 64-bit std::hash: the exclusive or of the digest's four words.\<close>

definition hash_value :: "CacheKey \<Rightarrow> u64" where
  "hash_value k = foldl (\<lambda>r i. r XOR from_le (subspan i 8 (digest k))) 0 [0, 8, 16, 24]"

section \<open>Lemmas\<close>

definition key_wf :: "CacheKey \<Rightarrow> bool" where
  "key_wf k \<longleftrightarrow> length (digest k) = kDigestSize"

lemma from_hex_char_digit [simp]: "n < 16 \<Longrightarrow> from_hex_char (hex_digit n) = n"
  by (auto simp: from_hex_char_def hex_digit_def Let_def)

lemma concat_pairs_nth:
  "i < length xs \<Longrightarrow> concat (map (\<lambda>b. [f b, g b]) xs) ! (2 * i) = f (xs ! i) \<and>
    concat (map (\<lambda>b. [f b, g b]) xs) ! (2 * i + 1) = g (xs ! i)"
proof (induction xs arbitrary: i)
  case Nil
  then show ?case by simp
next
  case (Cons x xs)
  then show ?case by (cases i) simp_all
qed

lemma length_concat_pairs: "length (concat (map (\<lambda>b. [f b, g b]) xs)) = 2 * length xs"
  by (induction xs) simp_all

lemma key_tag_bound: "unat (key_tag k) < 4096"
proof -
  have "key_tag k = take_bit 12 (from_le (subspan 8 2 (digest k)))"
    by (simp add: key_tag_def take_bit_eq_mask mask_numeral)
  then have "unat (key_tag k) < 2 ^ 12"
    by (simp only: unsigned_take_bit_eq take_bit_nat_less_exp)
  then show ?thesis by simp
qed

lemma length_sha256_spec: "length (sha256_spec m) = 32"
proof -
  have "length (transform p s) = 8" for p s
    by (simp add: transform_def Let_def split: prod.split)
  then have "length s = 8 \<Longrightarrow> length (fst (sha_blocks p s)) = 8" for p s
  proof (induction p s rule: sha_blocks.induct)
    case (1 p s)
    then show ?case by (subst sha_blocks.simps) simp
  qed
  then have "length (fst (sha_blocks (m @ sha_padding (length m)) initial_state)) = 8"
    by (simp add: initial_state_def)
  then show ?thesis
    by (simp add: sha256_spec_def length_concat be32_bytes_def o_def sum_list_triv)
qed

lemma compute_sha256_spec: "compute_sha256 data = CacheKey (sha256_spec data)"
  using finalize_represents[OF represents_update[OF represents_reset], of _ data]
  by (simp add: compute_sha256_def sha256_hash_def)

lemma from_hex_to_hex:
  assumes "key_wf k"
  shows "from_hex (to_hex k) = k" and "length (to_hex k) = 64"
proof -
  have l: "length (digest k) = 32" using assms by (simp add: key_wf_def kDigestSize_def)
  show len: "length (to_hex k) = 64"
    by (simp add: to_hex_def length_concat_pairs l)
  have "of_nat (from_hex_char (to_hex k ! (i * 2)) * 16 + from_hex_char (to_hex k ! (i * 2 + 1))) = digest k ! i"
    if "i < 32" for i
  proof -
    have "unat (digest k ! i) < 256" by (rule order.strict_trans2[OF unsigned_less]) simp
    then show ?thesis
      using that concat_pairs_nth[of i "digest k" "\<lambda>b. hex_digit (unat b div 16)" "\<lambda>b. hex_digit (unat b mod 16)"] l
      by (simp add: to_hex_def mult.commute[of i] div_mult_mod_eq del: of_nat_add of_nat_mult)
  qed
  then have "map (\<lambda>i. of_nat (from_hex_char (to_hex k ! (i * 2)) * 16 + from_hex_char (to_hex k ! (i * 2 + 1)))) [0 ..< 32] = digest k"
    by (intro nth_equalityI) (simp_all add: l del: of_nat_add of_nat_mult)
  then show "from_hex (to_hex k) = k"
    by (simp add: from_hex_def kDigestSize_def len)
qed



end
