(* ===== verification/Stripe_Geometry.thy ===== *)
theory Stripe_Geometry
  imports Cyclone_Prelude
begin

text \<open>
  How a volume file is cut up: the stripes of a volume
  (compute_stripe_geometry, stripe_directory_span, stripe_geometry_fits and the
  offsets of Volume::init_stripes in src/src/core/volume.cpp) and the frontier
  chunks of a stripe's data area (retention_geometry in src/src/core/volume.hpp).
  File offsets and sizes are natural numbers: every sum below stays far under
  2^64 for a file that exists.
\<close>

section \<open>Constants\<close>

definition kMiB :: nat where "kMiB = 1048576"

definition VolumeHeader_kSize :: nat where "VolumeHeader_kSize = 64"
definition kMinStripeSize :: nat where "kMinStripeSize = 128 * kMiB"
definition kAutoStripeGranularity :: nat where "kAutoStripeGranularity = 32 * kMiB"
definition kAutoStripeTarget :: nat where "kAutoStripeTarget = 16"
definition kDirectoryEntriesPerSegment :: nat where "kDirectoryEntriesPerSegment = 16 * 1024"
definition kEntriesPerBucket :: nat where "kEntriesPerBucket = 4"
definition DirEntry_kSize :: nat where "DirEntry_kSize = 10"
definition Document_kHeaderSize :: nat where "Document_kHeaderSize = 132"
definition kMinFrontierChunk :: nat where "kMinFrontierChunk = kMiB"
definition kMaxChunks :: nat where "kMaxChunks = 64"

definition align_down :: "nat \<Rightarrow> nat \<Rightarrow> nat" where
  "align_down a n = n div a * a"

definition round_up8 :: "nat \<Rightarrow> nat" where
  "round_up8 n = align_down 8 (n + 7)"

lemma align_down_le: "align_down a n \<le> n" by (simp add: align_down_def)

lemma dvd_align_down [simp]: "a dvd align_down a n" by (simp add: align_down_def)

lemma round_up8_ge: "n \<le> round_up8 n" by (simp add: round_up8_def align_down_def)

lemma round_up8_less: "round_up8 n < n + 8"
  using align_down_le[of 8 "n + 7"] by (simp add: round_up8_def)

lemma dvd_round_up8 [simp]: "8 dvd round_up8 n" by (simp add: round_up8_def)

section \<open>Frontier chunks\<close>

record FrontierGeometry =
  fg_chunks :: nat
  fg_chunk_size :: nat

definition retention_geometry :: "nat \<Rightarrow> FrontierGeometry" where
  "retention_geometry data_area =
     (if data_area = 0 then \<lparr>fg_chunks = 1, fg_chunk_size = 0\<rparr>
      else let q = (data_area + kMaxChunks - 1) div kMaxChunks;
               q = round_up8 q;
               q = (if q < kMinFrontierChunk then kMinFrontierChunk else q);
               n = (data_area + q - 1) div q;
               n = (if n < 1 then 1 else n);
               n = (if n > kMaxChunks then kMaxChunks else n)
           in \<lparr>fg_chunks = n, fg_chunk_size = q\<rparr>)"

lemma ceil_div_le_iff:
  fixes a q n :: nat
  assumes q: "0 < q"
  shows "(a + q - 1) div q \<le> n \<longleftrightarrow> a \<le> n * q"
proof -
  have "(a + q - 1) div q \<le> n \<longleftrightarrow> a + q - 1 < Suc n * q"
    using div_less_iff_less_mult[OF q, of "a + q - 1" "Suc n"] by (simp only: less_Suc_eq_le)
  also have "\<dots> \<longleftrightarrow> a \<le> n * q" using q by (simp, linarith)
  finally show ?thesis .
qed

lemma retention_geometry_bounds:
  assumes "0 < a"
  defines "n \<equiv> fg_chunks (retention_geometry a)" and "q \<equiv> fg_chunk_size (retention_geometry a)"
  shows "1 \<le> n" "n \<le> kMaxChunks" "kMinFrontierChunk \<le> q" "8 dvd q" "a \<le> n * q" "(n - 1) * q < a"
proof -
  define q0 where "q0 = round_up8 ((a + kMaxChunks - 1) div kMaxChunks)"
  define n0 where "n0 = (a + q - 1) div q"
  have q: "q = (if q0 < kMinFrontierChunk then kMinFrontierChunk else q0)"
    using assms(1) by (simp add: q_def retention_geometry_def Let_def q0_def)
  show kq: "kMinFrontierChunk \<le> q" by (simp add: q)
  have "(8::nat) dvd kMinFrontierChunk" by (simp add: kMinFrontierChunk_def kMiB_def)
  then show "8 dvd q" by (simp add: q q0_def)
  have q0: "0 < q" using kq by (simp add: kMinFrontierChunk_def kMiB_def)
  have "(a + kMaxChunks - 1) div kMaxChunks \<le> q"
    using round_up8_ge[of "(a + kMaxChunks - 1) div kMaxChunks"] by (simp add: q q0_def)
  then have "a \<le> q * kMaxChunks"
    using ceil_div_le_iff[of kMaxChunks a q] by (simp add: kMaxChunks_def)
  then have nk: "n0 \<le> kMaxChunks" unfolding n0_def using ceil_div_le_iff[OF q0] by (simp add: mult.commute)
  have n1: "1 \<le> n0" unfolding n0_def using assms(1) q0 by (simp add: Suc_le_eq div_greater_zero_iff)
  have n: "n = n0" unfolding n_def n0_def q_def using assms(1) nk n1
    by (simp add: retention_geometry_def Let_def n0_def q_def)
  show "1 \<le> n" "n \<le> kMaxChunks" using n n1 nk by simp_all
  show "a \<le> n * q" unfolding n n0_def using ceil_div_le_iff[OF q0] by blast
  show "(n - 1) * q < a"
    using ceil_div_le_iff[OF q0, of a "n0 - 1", folded n0_def] n1 unfolding n by linarith
qed

lemma retention_chunk_bound: "fg_chunk_size (retention_geometry a) \<le> a + kMiB"
proof -
  have "(a + kMaxChunks - 1) div kMaxChunks \<le> a"
    using ceil_div_le_iff[of kMaxChunks a a] by (simp add: kMaxChunks_def)
  then have "round_up8 ((a + kMaxChunks - 1) div kMaxChunks) \<le> a + 8"
    using round_up8_less[of "(a + kMaxChunks - 1) div kMaxChunks"] by linarith
  then show ?thesis by (simp add: retention_geometry_def Let_def kMinFrontierChunk_def kMiB_def)
qed

section \<open>Stripes of a volume\<close>

record StripeGeometry =
  sg_num_stripes :: nat
  sg_base_stripe_size :: nat
  sg_stripe_remainder :: nat

definition compute_stripe_geometry :: "nat \<Rightarrow> nat \<Rightarrow> StripeGeometry" where
  "compute_stripe_geometry volume_size explicit_stripe_size =
     (let usable_size = volume_size - VolumeHeader_kSize; kStripeAlign = 4096 in
      if explicit_stripe_size = 0 then
        let num = (usable_size + kAutoStripeGranularity div 2) div kAutoStripeGranularity;
            num = max 1 (min num kAutoStripeTarget);
            base = align_down kStripeAlign (usable_size div num)
        in if base = 0
           then \<lparr>sg_num_stripes = 1, sg_base_stripe_size = usable_size, sg_stripe_remainder = 0\<rparr>
           else \<lparr>sg_num_stripes = num, sg_base_stripe_size = base,
                  sg_stripe_remainder = usable_size - base * num\<rparr>
      else
        let base = align_down kStripeAlign (max explicit_stripe_size kMinStripeSize);
            num = usable_size div base
        in if num = 0
           then \<lparr>sg_num_stripes = 1, sg_base_stripe_size = usable_size, sg_stripe_remainder = 0\<rparr>
           else \<lparr>sg_num_stripes = num, sg_base_stripe_size = base, sg_stripe_remainder = 0\<rparr>)"

text \<open>The size of an mmap directory: MmapDirectory::required_size.\<close>

definition mmap_entries_offset :: "nat \<Rightarrow> nat" where
  "mmap_entries_offset num_buckets = round_up8 (64 + num_buckets * 4)"

definition mmap_retention_offset :: "nat \<Rightarrow> nat" where
  "mmap_retention_offset num_buckets =
     round_up8 (mmap_entries_offset num_buckets + num_buckets * kEntriesPerBucket * DirEntry_kSize)"

definition mmap_required_size :: "nat \<Rightarrow> nat" where
  "mmap_required_size num_buckets =
     (if num_buckets > (2 ^ 64 - 1) div (kEntriesPerBucket * DirEntry_kSize + 4 + 1) then 2 ^ 64 - 1
      else mmap_retention_offset num_buckets + 264)"

definition stripe_directory_span :: "bool \<Rightarrow> nat" where
  "stripe_directory_span mmap_directory =
     (if mmap_directory
      then (mmap_required_size kDirectoryEntriesPerSegment + 4096 - 1) div 4096 * 4096
      else round_up8 (kDirectoryEntriesPerSegment * kEntriesPerBucket * DirEntry_kSize))"

definition stripe_geometry_fits :: "nat \<Rightarrow> nat \<Rightarrow> bool \<Rightarrow> bool" where
  "stripe_geometry_fits volume_size explicit_stripe_size mmap_directory =
     (if volume_size \<le> VolumeHeader_kSize then False
      else sg_base_stripe_size (compute_stripe_geometry volume_size explicit_stripe_size)
             \<ge> stripe_directory_span mmap_directory + Document_kHeaderSize)"

text \<open>The (offset, size) of every stripe, as the loop of Volume::init_stripes lays them out.\<close>

fun stripe_layout_from :: "StripeGeometry \<Rightarrow> nat \<Rightarrow> nat \<Rightarrow> (nat \<times> nat) list" where
  "stripe_layout_from g offset 0 = []"
| "stripe_layout_from g offset (Suc k) =
     (let stripe_size = sg_base_stripe_size g + (if k = 0 then sg_stripe_remainder g else 0)
      in (offset, stripe_size) # stripe_layout_from g (offset + stripe_size) k)"

definition stripe_layout :: "StripeGeometry \<Rightarrow> (nat \<times> nat) list" where
  "stripe_layout g = stripe_layout_from g VolumeHeader_kSize (sg_num_stripes g)"

definition expected_retain_chunks :: "bool \<Rightarrow> bool \<Rightarrow> nat \<Rightarrow> nat \<Rightarrow> nat" where
  "expected_retain_chunks wrap_retention mp_enabled volume_size stripe_size =
     (if \<not> wrap_retention then 0
      else let base = sg_base_stripe_size (compute_stripe_geometry volume_size stripe_size);
               dir_bytes = stripe_directory_span mp_enabled;
               area = (if base > dir_bytes then base - dir_bytes else 0)
           in fg_chunks (retention_geometry area))"

section \<open>The stripes tile the volume\<close>

lemma stripe_layout_from_nth:
  "i < k \<Longrightarrow> stripe_layout_from g off k ! i =
     (off + i * sg_base_stripe_size g,
      sg_base_stripe_size g + (if i + 1 = k then sg_stripe_remainder g else 0))"
proof (induction k arbitrary: off i)
  case (Suc k)
  show ?case
  proof (cases i)
    case 0
    then show ?thesis by (auto simp: Let_def)
  next
    case (Suc j)
    then show ?thesis using Suc.IH[of j "off + sg_base_stripe_size g"] Suc.prems
      by (cases k) (auto simp: Let_def)
  qed
qed simp

lemma length_stripe_layout_from [simp]: "length (stripe_layout_from g off k) = k"
  by (induction k arbitrary: off) (auto simp: Let_def)

lemma geometry_total:
  fixes v e :: nat
  defines "g \<equiv> compute_stripe_geometry v e"
  shows "1 \<le> sg_num_stripes g"
    and "sg_num_stripes g * sg_base_stripe_size g + sg_stripe_remainder g \<le> v - VolumeHeader_kSize"
    and "e = 0 \<Longrightarrow> sg_num_stripes g * sg_base_stripe_size g + sg_stripe_remainder g = v - VolumeHeader_kSize"
    and "sg_num_stripes g \<noteq> 1 \<Longrightarrow> 4096 dvd sg_base_stripe_size g"
proof -
  define u where "u = v - VolumeHeader_kSize"
  define num where "num = max 1 (min ((u + kAutoStripeGranularity div 2) div kAutoStripeGranularity) kAutoStripeTarget)"
  have num: "1 \<le> num" by (simp add: num_def)
  have b: "align_down 4096 (u div num) * num \<le> u"
    by (rule le_trans[OF mult_right_mono[OF align_down_le]]) simp_all
  have a: "g = (if e = 0 then (if align_down 4096 (u div num) = 0
       then \<lparr>sg_num_stripes = 1, sg_base_stripe_size = u, sg_stripe_remainder = 0\<rparr>
       else \<lparr>sg_num_stripes = num, sg_base_stripe_size = align_down 4096 (u div num),
              sg_stripe_remainder = u - align_down 4096 (u div num) * num\<rparr>)
     else (let base = align_down 4096 (max e kMinStripeSize) in if u div base = 0
       then \<lparr>sg_num_stripes = 1, sg_base_stripe_size = u, sg_stripe_remainder = 0\<rparr>
       else \<lparr>sg_num_stripes = u div base, sg_base_stripe_size = base, sg_stripe_remainder = 0\<rparr>))"
    by (simp only: g_def compute_stripe_geometry_def Let_def u_def num_def)
  show "1 \<le> sg_num_stripes g" using num by (auto simp: a Let_def)
  show "sg_num_stripes g * sg_base_stripe_size g + sg_stripe_remainder g \<le> v - VolumeHeader_kSize"
    using b by (auto simp: a Let_def u_def[symmetric] mult.commute)
  show "e = 0 \<Longrightarrow> sg_num_stripes g * sg_base_stripe_size g + sg_stripe_remainder g = v - VolumeHeader_kSize"
    using b by (auto simp: a u_def[symmetric] mult.commute)
  show "sg_num_stripes g \<noteq> 1 \<Longrightarrow> 4096 dvd sg_base_stripe_size g"
    by (auto simp: a Let_def split: if_splits)
qed

lemma stripe_offset_aligned:
  assumes "i < sg_num_stripes (compute_stripe_geometry v e)"
  shows "8 dvd VolumeHeader_kSize + i * sg_base_stripe_size (compute_stripe_geometry v e)"
proof (cases "i = 0")
  case True
  then show ?thesis by (simp add: VolumeHeader_kSize_def)
next
  case False
  then have "(4096::nat) dvd sg_base_stripe_size (compute_stripe_geometry v e)"
    using assms by (intro geometry_total(4)) auto
  moreover have "(8::nat) dvd 4096" by simp
  ultimately have "8 dvd sg_base_stripe_size (compute_stripe_geometry v e)" by (rule dvd_trans[rotated])
  then show ?thesis by (simp add: VolumeHeader_kSize_def)
qed

lemma stripe_layout_contiguous:
  fixes v e :: nat
  defines "L \<equiv> stripe_layout (compute_stripe_geometry v e)"
  assumes "i + 1 < length L"
  shows "fst (L ! (i + 1)) = fst (L ! i) + snd (L ! i)"
  using assms by (auto simp: stripe_layout_def stripe_layout_from_nth)

lemma stripe_layout_end:
  fixes v e :: nat
  defines "L \<equiv> stripe_layout (compute_stripe_geometry v e)"
  assumes "VolumeHeader_kSize \<le> v"
  shows "fst (last L) + snd (last L) \<le> v" "e = 0 \<Longrightarrow> fst (last L) + snd (last L) = v"
proof -
  let ?g = "compute_stripe_geometry v e"
  define n where "n = sg_num_stripes ?g"
  have n: "1 \<le> n" using geometry_total(1) by (simp add: n_def)
  then have "L \<noteq> []" by (simp add: L_def stripe_layout_def n_def[symmetric] flip: length_0_conv)
  then have "last L = L ! (n - 1)" by (simp add: last_conv_nth L_def stripe_layout_def n_def)
  also have "\<dots> = (VolumeHeader_kSize + (n - 1) * sg_base_stripe_size ?g,
      sg_base_stripe_size ?g + sg_stripe_remainder ?g)"
    using n by (simp add: L_def stripe_layout_def stripe_layout_from_nth n_def)
  finally have "fst (last L) + snd (last L)
      = VolumeHeader_kSize + (Suc (n - 1) * sg_base_stripe_size ?g + sg_stripe_remainder ?g)" by simp
  then have t: "fst (last L) + snd (last L)
      = VolumeHeader_kSize + (n * sg_base_stripe_size ?g + sg_stripe_remainder ?g)" using n by simp
  show "fst (last L) + snd (last L) \<le> v"
    using geometry_total(2)[of v e, folded n_def] assms(2) unfolding t by linarith
  show "e = 0 \<Longrightarrow> fst (last L) + snd (last L) = v"
    using geometry_total(3)[of e v, folded n_def] assms(2) unfolding t by linarith
qed

text \<open>
  C16.  The stripes that init_stripes lays out for a volume start right after the
  volume header, follow each other without gap or overlap, all start on 8-byte
  boundaries, end inside the volume, and with the automatic stripe size end exactly
  at its last byte.
\<close>

theorem stripes_tile_volume:
  assumes "VolumeHeader_kSize \<le> v"
  shows "let L = stripe_layout (compute_stripe_geometry v e) in
    L \<noteq> [] \<and> fst (hd L) = VolumeHeader_kSize \<and>
    (\<forall>i. i + 1 < length L \<longrightarrow> fst (L ! (i + 1)) = fst (L ! i) + snd (L ! i)) \<and>
    (\<forall>(off, size) \<in> set L. 8 dvd off) \<and>
    fst (last L) + snd (last L) \<le> v \<and> (e = 0 \<longrightarrow> fst (last L) + snd (last L) = v)"
proof -
  let ?L = "stripe_layout (compute_stripe_geometry v e)"
  have len: "length ?L = sg_num_stripes (compute_stripe_geometry v e)" by (simp add: stripe_layout_def)
  then have ne: "?L \<noteq> []" using geometry_total(1)[of v e] by (metis list.size(3) not_one_le_zero)
  have al: "8 dvd fst (?L ! i)" if "i < length ?L" for i
    using that stripe_offset_aligned[of i v e] by (simp add: len stripe_layout_def stripe_layout_from_nth)
  have "fst (hd ?L) = VolumeHeader_kSize"
    using ne geometry_total(1)[of v e] by (simp add: hd_conv_nth stripe_layout_def stripe_layout_from_nth)
  moreover have "\<forall>(off, size) \<in> set ?L. 8 dvd off" using al by (auto simp: set_conv_nth) (metis fst_conv)
  ultimately show ?thesis
    using ne stripe_layout_contiguous[where v = v and e = e] stripe_layout_end[OF assms, of e] by (simp add: Let_def)
qed

theorem stripes_tile_volume_witness:
  "length (stripe_layout (compute_stripe_geometry 268435456 0)) = 8 \<and>
   fst (last (stripe_layout (compute_stripe_geometry 268435456 0)))
   + snd (last (stripe_layout (compute_stripe_geometry 268435456 0))) = 268435456"
proof
  show "length (stripe_layout (compute_stripe_geometry 268435456 0)) = 8"
    by (simp add: stripe_layout_def compute_stripe_geometry_def Let_def align_down_def
        VolumeHeader_kSize_def kAutoStripeGranularity_def kAutoStripeTarget_def kMiB_def)
  have "VolumeHeader_kSize \<le> 268435456" by (simp add: VolumeHeader_kSize_def)
  from stripes_tile_volume[OF this, of 0] show
    "fst (last (stripe_layout (compute_stripe_geometry 268435456 0)))
     + snd (last (stripe_layout (compute_stripe_geometry 268435456 0))) = 268435456"
    by (simp add: Let_def)
qed



end
