(* ===== verification/Borrow_Slot.thy ===== *)
theory Borrow_Slot
  imports Cyclone_Prelude
begin

text \<open>
  The packed borrow counters of src/src/core/mmap_directory.hpp (namespace
  borrow_slot): a word with an 8-bit generation on top of a count.  A reader
  increments the count of the chunk its document starts in before the borrow
  escapes and decrements it when the handle closes; a writer that has waited past
  its ceiling resets the slot.  Each operation is a compare-and-swap loop whose
  successful exchange is one atomic read-modify-write of the slot, and that is
  what the definitions give: the new slot as a function of the old one.
\<close>

unbundle bit_operations_syntax

section \<open>The packed slot\<close>

definition kCountBits :: "'w::len itself \<Rightarrow> nat" where
  "kCountBits w = LENGTH('w) - 8"

definition kCountMaskOf :: "'w::len word" where
  "kCountMaskOf = ucast ((push_bit (kCountBits TYPE('w)) 1 :: u64) - 1)"

definition generation_of :: "'w::len word \<Rightarrow> u8" where
  "generation_of slot = ucast (drop_bit (kCountBits TYPE('w)) slot)"

definition count_of :: "'w::len word \<Rightarrow> u32" where
  "count_of slot = ucast (slot AND kCountMaskOf)"

definition pack_of :: "u8 \<Rightarrow> u32 \<Rightarrow> 'w::len word" where
  "pack_of gen cnt =
     ucast (push_bit (kCountBits TYPE('w)) (ucast gen :: u64)
            OR ucast (cnt AND ucast (kCountMaskOf :: 'w word)))"

record Acquired =
  acq_generation :: u8
  acq_counted :: bool

definition slot_acquire :: "'w::len word \<Rightarrow> 'w word \<times> Acquired" where
  "slot_acquire cur =
     (if count_of cur = ucast (kCountMaskOf :: 'w word)
      then (cur, \<lparr>acq_generation = generation_of cur, acq_counted = False\<rparr>)
      else (pack_of (generation_of cur) (count_of cur + 1),
            \<lparr>acq_generation = generation_of cur, acq_counted = True\<rparr>))"

definition slot_release :: "u8 \<Rightarrow> 'w::len word \<Rightarrow> 'w word" where
  "slot_release gen cur =
     (if generation_of cur \<noteq> gen \<or> count_of cur = 0 then cur
      else pack_of gen (count_of cur - 1))"

definition slot_force_reset :: "'w::len word \<Rightarrow> 'w word \<times> bool" where
  "slot_force_reset cur =
     (if count_of cur = 0 then (cur, False)
      else (pack_of (generation_of cur + 1) 0, True))"

section \<open>Packing and unpacking\<close>

text \<open>The widths the code instantiates (16 and 32 bits) both satisfy the bounds below.\<close>

abbreviation slot_width :: "'w::len itself \<Rightarrow> bool" where
  "slot_width w \<equiv> 8 < LENGTH('w) \<and> LENGTH('w) \<le> 32"

lemma bit_kCountMaskOf [word_bit]:
  assumes "slot_width TYPE('w::len)"
  shows "bit (kCountMaskOf :: 'w word) n \<longleftrightarrow> n < LENGTH('w) - 8"
proof -
  have "(push_bit (LENGTH('w) - 8) 1 :: u64) - 1 = mask (LENGTH('w) - 8)"
    by (simp only: mask_eq_exp_minus_1 push_bit_of_1)
  then show ?thesis using assms
    by (auto simp: kCountMaskOf_def kCountBits_def bit_ucast_iff bit_mask_iff)
qed

lemma bit_generation_of [word_bit]:
  "bit (generation_of (s :: 'w::len word)) n \<longleftrightarrow> n < 8 \<and> bit s (LENGTH('w) - 8 + n)"
  by (simp add: generation_of_def kCountBits_def bit_simps)

lemma bit_count_of [word_bit]:
  assumes "slot_width TYPE('w::len)"
  shows "bit (count_of (s :: 'w word)) n \<longleftrightarrow> n < LENGTH('w) - 8 \<and> bit s n"
  using assms by (auto simp: count_of_def bit_simps bit_kCountMaskOf)

lemma bit_pack_of [word_bit]:
  assumes "slot_width TYPE('w::len)"
  shows "bit (pack_of g c :: 'w word) n \<longleftrightarrow>
     n < LENGTH('w) \<and> (if n < LENGTH('w) - 8 then bit c n else bit g (n - (LENGTH('w) - 8)))"
  using assms
  by (auto simp: pack_of_def kCountBits_def bit_simps bit_kCountMaskOf)

lemma generation_of_pack_of:
  assumes "slot_width TYPE('w::len)"
  shows "generation_of (pack_of g c :: 'w word) = g"
  using assms by (intro bit_word_eqI) (auto simp: bit_generation_of bit_pack_of)

lemma count_of_pack_of:
  assumes "slot_width TYPE('w::len)"
  shows "count_of (pack_of g c :: 'w word) = take_bit (LENGTH('w) - 8) c"
  using assms by (intro bit_word_eqI) (auto simp: bit_count_of bit_pack_of bit_take_bit_iff)

lemma pack_of_unpack:
  assumes "slot_width TYPE('w::len)"
  shows "pack_of (generation_of s) (count_of s) = (s :: 'w word)"
  using assms by (intro bit_word_eqI) (auto simp: bit_count_of bit_pack_of bit_generation_of)

lemma slot_eq_iff:
  assumes "slot_width TYPE('w::len)"
  shows "(s :: 'w word) = t \<longleftrightarrow> generation_of s = generation_of t \<and> count_of s = count_of t"
  by (metis pack_of_unpack assms)

section \<open>Counts as numbers, for the 32-bit slots the stripes use\<close>

abbreviation slot_count :: "u32 \<Rightarrow> nat" where
  "slot_count s \<equiv> unat (count_of s)"

lemma unat_mask24: "unat (ucast (kCountMaskOf :: u32) :: u32) = 2 ^ 24 - 1"
  by (simp add: kCountMaskOf_def kCountBits_def)

lemma slot_count_bound: "slot_count s < 2 ^ 24"
proof -
  have "count_of s = take_bit 24 (count_of s)"
    by (intro bit_word_eqI) (auto simp: bit_count_of bit_take_bit_iff)
  then have "slot_count s = take_bit 24 (slot_count s)" by (metis unsigned_take_bit_eq)
  then show ?thesis by (metis take_bit_nat_less_exp)
qed

lemma slot_count_pack: "unat c < 2 ^ 24 \<Longrightarrow> slot_count (pack_of g c) = unat c"
  by (simp add: count_of_pack_of unsigned_take_bit_eq take_bit_nat_eq_self)

lemma acquire_counted:
  "acq_counted (snd (slot_acquire (s :: u32))) \<longleftrightarrow> slot_count s < 2 ^ 24 - 1"
proof -
  have "count_of s = ucast (kCountMaskOf :: u32) \<longleftrightarrow> slot_count s = 2 ^ 24 - 1"
    by (simp only: word_unat_eq_iff unat_mask24)
  then show ?thesis using slot_count_bound[of s] by (auto simp: slot_acquire_def)
qed

lemma acquire_generation:
  "acq_generation (snd (slot_acquire s)) = generation_of (s :: u32)"
  "generation_of (fst (slot_acquire s)) = generation_of (s :: u32)"
  by (auto simp: slot_acquire_def generation_of_pack_of)

lemma acquire_count:
  "slot_count (fst (slot_acquire s)) =
     (if acq_counted (snd (slot_acquire s)) then slot_count s + 1 else slot_count s)"
proof (cases "acq_counted (snd (slot_acquire s))")
  case True
  then have c: "slot_count s < 2 ^ 24 - 1" by (simp only: acquire_counted)
  then have "unat (count_of s + 1) = slot_count s + 1" by (simp add: unat_word_ariths)
  then show ?thesis using True c
    by (auto simp: slot_acquire_def slot_count_pack split: if_splits)
next
  case False
  then show ?thesis by (auto simp: slot_acquire_def split: if_splits)
qed

lemma release_generation: "generation_of (slot_release g s) = generation_of (s :: u32)"
  by (auto simp: slot_release_def generation_of_pack_of)

lemma release_count:
  "slot_count (slot_release g s) =
     (if generation_of s = g then slot_count s - 1 else slot_count s)"
proof (cases "generation_of s \<noteq> g \<or> count_of s = 0")
  case True
  then show ?thesis by (auto simp: slot_release_def)
next
  case False
  then have "unat (count_of s - 1) = slot_count s - 1"
    by (simp add: unat_minus_one)
  then show ?thesis using False slot_count_bound[of s]
    by (simp add: slot_release_def slot_count_pack)
qed

lemma reset_slot:
  "slot_count (fst (slot_force_reset s)) = 0"
  "snd (slot_force_reset s) \<longleftrightarrow> slot_count s \<noteq> 0"
  "generation_of (fst (slot_force_reset s)) =
     (if slot_count s = 0 then generation_of s else generation_of (s :: u32) + 1)"
  by (auto simp: slot_force_reset_def generation_of_pack_of count_of_pack_of unsigned_eq_0_iff)

section \<open>What the count means: the borrows of the current reset epoch\<close>

text \<open>
  A system of one slot and the tokens readers hold of it.  The epoch is a ghost
  counter of effective forced resets, and each token remembers the epoch it was
  acquired in; the code only keeps the 8-bit generation.  A token may be
  released while fewer than 256 forced resets separate it from its acquisition,
  which is the window in which an 8-bit generation identifies the epoch.
\<close>

record slot_token =
  tk_acq :: Acquired
  tk_epoch :: nat

record slot_system =
  sys_slot :: u32
  sys_epoch :: nat
  sys_live :: "slot_token list"

definition token_release :: "slot_token \<Rightarrow> u32 \<Rightarrow> u32" where
  "token_release t s = (if acq_counted (tk_acq t) then slot_release (acq_generation (tk_acq t)) s else s)"

inductive slot_step :: "slot_system \<Rightarrow> slot_system \<Rightarrow> bool" where
  borrow: "slot_step y (y\<lparr>sys_slot := fst (slot_acquire (sys_slot y)),
      sys_live := \<lparr>tk_acq = snd (slot_acquire (sys_slot y)), tk_epoch = sys_epoch y\<rparr> # sys_live y\<rparr>)"
| close: "t \<in> set (sys_live y) \<Longrightarrow> sys_epoch y < tk_epoch t + 256 \<Longrightarrow>
    slot_step y (y\<lparr>sys_slot := token_release t (sys_slot y), sys_live := remove1 t (sys_live y)\<rparr>)"
| force: "slot_step y (y\<lparr>sys_slot := fst (slot_force_reset (sys_slot y)),
      sys_epoch := (if snd (slot_force_reset (sys_slot y)) then Suc (sys_epoch y) else sys_epoch y)\<rparr>)"

inductive_cases slot_stepE: "slot_step y y'"

definition slot_system_init :: slot_system where
  "slot_system_init = \<lparr>sys_slot = 0, sys_epoch = 0, sys_live = []\<rparr>"

abbreviation counted_now :: "nat \<Rightarrow> slot_token list \<Rightarrow> nat" where
  "counted_now e ts \<equiv> length (filter (\<lambda>t. acq_counted (tk_acq t) \<and> tk_epoch t = e) ts)"

definition slot_inv :: "slot_system \<Rightarrow> bool" where
  "slot_inv y \<longleftrightarrow>
     generation_of (sys_slot y) = of_nat (sys_epoch y) \<and>
     slot_count (sys_slot y) = counted_now (sys_epoch y) (sys_live y) \<and>
     (\<forall>t \<in> set (sys_live y). tk_epoch t \<le> sys_epoch y \<and> acq_generation (tk_acq t) = of_nat (tk_epoch t))"

lemma epoch_of_generation:
  assumes "(of_nat e :: u8) = of_nat e'" "e \<le> e'" "e' < e + 256"
  shows "e = e'"
proof -
  have "e mod 256 = e' mod 256"
    using arg_cong[OF assms(1), of unat] by (simp add: unat_of_nat)
  then have "256 dvd e' - e" using assms(2) by (metis mod_eq_dvd_iff_nat)
  moreover have "e' - e < 256" using assms(2,3) by linarith
  ultimately have "e' - e = 0" by (meson nat_dvd_not_less neq0_conv)
  then show ?thesis using assms(2) by simp
qed

lemma slot_inv_init: "slot_inv slot_system_init"
  by (simp add: slot_inv_def slot_system_init_def generation_of_def count_of_def)

lemma slot_inv_borrow:
  assumes "slot_inv y"
  shows "slot_inv (y\<lparr>sys_slot := fst (slot_acquire (sys_slot y)),
      sys_live := \<lparr>tk_acq = snd (slot_acquire (sys_slot y)), tk_epoch = sys_epoch y\<rparr> # sys_live y\<rparr>)"
  using assms by (auto simp: slot_inv_def acquire_count acquire_generation)

lemma slot_inv_close_split:
  assumes inv: "slot_inv y" and l: "sys_live y = A @ t # B" and e: "sys_epoch y < tk_epoch t + 256"
  shows "slot_inv (y\<lparr>sys_slot := token_release t (sys_slot y), sys_live := A @ B\<rparr>)"
proof -
  have g: "generation_of (sys_slot y) = of_nat (sys_epoch y)" and le: "tk_epoch t \<le> sys_epoch y"
    and ag: "acq_generation (tk_acq t) = of_nat (tk_epoch t)" using inv l by (auto simp: slot_inv_def)
  have match: "generation_of (sys_slot y) = acq_generation (tk_acq t) \<longleftrightarrow> tk_epoch t = sys_epoch y"
    using epoch_of_generation[OF _ le e] g ag by metis
  have "slot_count (token_release t (sys_slot y)) = counted_now (sys_epoch y) (A @ B)"
    using inv l match by (auto simp: token_release_def release_count slot_inv_def)
  then show ?thesis using inv l by (auto simp: slot_inv_def token_release_def release_generation)
qed

lemma slot_inv_close:
  assumes inv: "slot_inv y" and t: "t \<in> set (sys_live y)" "sys_epoch y < tk_epoch t + 256"
  shows "slot_inv (y\<lparr>sys_slot := token_release t (sys_slot y), sys_live := remove1 t (sys_live y)\<rparr>)"
proof -
  obtain A B where l: "sys_live y = A @ t # B" "t \<notin> set A" using t(1) by (meson split_list_first)
  then have "remove1 t (sys_live y) = A @ B" by (simp add: remove1_append)
  then show ?thesis using slot_inv_close_split[OF inv l(1) t(2)] by simp
qed

lemma slot_inv_force:
  assumes "slot_inv y"
  shows "slot_inv (y\<lparr>sys_slot := fst (slot_force_reset (sys_slot y)),
      sys_epoch := (if snd (slot_force_reset (sys_slot y)) then Suc (sys_epoch y) else sys_epoch y)\<rparr>)"
  using assms by (auto simp: slot_inv_def reset_slot filter_empty_conv add.commute le_Suc_eq)

lemma slot_inv_step: "slot_step y y' \<Longrightarrow> slot_inv y \<Longrightarrow> slot_inv y'"
  by (erule slot_stepE) (simp_all only: slot_inv_borrow slot_inv_close slot_inv_force)

lemma slot_inv_reachable: "slot_step\<^sup>*\<^sup>* slot_system_init y \<Longrightarrow> slot_inv y"
  by (induction rule: rtranclp_induct) (auto intro: slot_inv_init slot_inv_step)

text \<open>
  C15.  After any sequence of borrows, closes and forced resets, in which a
  handle is closed within 256 forced resets of its borrow, the count a gate reads
  is exactly the number of open handles that were counted since the last reset: no
  close of an older handle ever takes a count from a newer one, and the slot drains
  to zero when the handles of its epoch are closed.
\<close>

theorem borrow_count_exact:
  assumes "slot_step\<^sup>*\<^sup>* slot_system_init y"
  shows "unat (count_of (sys_slot y)) =
    length (filter (\<lambda>t. acq_counted (tk_acq t) \<and> tk_epoch t = sys_epoch y) (sys_live y))"
  using slot_inv_reachable[OF assms] by (simp add: slot_inv_def)

theorem borrow_count_exact_witness:
  "\<exists>y. slot_step\<^sup>*\<^sup>* slot_system_init y \<and> length (sys_live y) = 1 \<and> unat (count_of (sys_slot y)) = 1"
proof -
  let ?y = "slot_system_init\<lparr>sys_slot := fst (slot_acquire (sys_slot slot_system_init)),
      sys_live := \<lparr>tk_acq = snd (slot_acquire (sys_slot slot_system_init)),
        tk_epoch = sys_epoch slot_system_init\<rparr> # sys_live slot_system_init\<rparr>"
  have r: "slot_step\<^sup>*\<^sup>* slot_system_init ?y" by (intro r_into_rtranclp slot_step.borrow)
  have "unat (count_of (sys_slot ?y)) = 1"
    unfolding borrow_count_exact[OF r]
    by (simp add: slot_system_init_def slot_acquire_def count_of_def kCountMaskOf_def kCountBits_def)
  then show ?thesis using r by (intro exI[of _ ?y]) (simp add: slot_system_init_def)
qed

end
