(* ===== verification/Stripe_State.thy ===== *)
theory Stripe_State
  imports Stripe_Geometry Fast_Div Borrow_Slot
begin

text \<open>
  One stripe of a volume and what can be asked of it: struct Stripe, the snapshot
  and the admission rules (src/src/core/volume.hpp, and Volume::snapshot,
  stamp_admits, admit_document, node_admissible_now and probe_raced_publish in
  src/src/core/volume.cpp).  The fields named s_ are process-local; those named
  m_ live in the shared header of the mmap directory and are used instead when
  s_use_mmap_directory holds.  Offsets, generations and times are natural numbers
  (the generation grows by at most 2 (N + 1) <= 130 per write, so 2^64 is out of
  reach); stamps and packed slots keep their width.
\<close>

section \<open>The state of a stripe\<close>

record stripe =
  s_offset :: nat
  s_size :: nat
  s_data_offset :: nat
  s_write_pos :: nat
  s_chunks :: nat
  s_chunk_size :: nat
  s_retain :: bool
  s_use_mmap_directory :: bool
  s_local_exposure_gen :: nat
  s_local_lease_expiry_ns :: nat
  s_local_borrow_shards :: "nat \<Rightarrow> nat \<Rightarrow> u32"
  s_local_wrap_intent :: nat
  s_wrap_deferred_since_ns :: nat
  s_local_wrap_deferred_deadline_ms :: u32
  s_directory_phase :: bool
  m_shared_write_pos :: nat
  m_exposure_gen :: nat
  m_lease_expiry_ns :: nat
  m_chunk_borrows :: "nat \<Rightarrow> u32"
  m_wrap_intent :: nat
  m_wrap_deferred_deadline_ms :: u32
  m_current_phase :: bool
  m_wrap_count :: nat
  m_last_wrap_time_ns :: nat

definition kBorrowShards :: nat where "kBorrowShards = 64"

text \<open>Unsigned 64-bit subtraction, which wraps.\<close>

definition sub64 :: "nat \<Rightarrow> nat \<Rightarrow> nat" where
  "sub64 a b = (a + 2 ^ 64 - b) mod 2 ^ 64"

lemma sub64_le:
  assumes "b \<le> a" "a < 2 ^ 64"
  shows "sub64 a b = a - b"
proof -
  have "a + 2 ^ 64 - b = (a - b) + 2 ^ 64" using assms(1) by simp
  moreover have "a - b < 2 ^ 64" using assms(2) by linarith
  ultimately show ?thesis by (simp only: sub64_def mod_add_self2 mod_less)
qed

definition current_write_cursor :: "'z stripe_scheme \<Rightarrow> nat" where
  "current_write_cursor s = (if s_use_mmap_directory s then m_shared_write_pos s else s_write_pos s)"

definition data_start_rel :: "'z stripe_scheme \<Rightarrow> nat" where
  "data_start_rel s = s_data_offset s - s_offset s"

definition in_data_area :: "'z stripe_scheme \<Rightarrow> nat \<Rightarrow> bool" where
  "in_data_area s rel \<longleftrightarrow>
     rel \<ge> data_start_rel s \<and> rel < s_size s \<and> rel + Document_kHeaderSize \<le> s_size s"

definition chunk_of :: "'z stripe_scheme \<Rightarrow> nat \<Rightarrow> nat" where
  "chunk_of s rel =
     (let start = data_start_rel s in
      if s_chunks s \<le> 1 \<or> rel \<le> start \<or> s_chunk_size s = 0 then 0
      else let c = (rel - start) div s_chunk_size s
           in if c \<ge> s_chunks s then s_chunks s - 1 else c)"

definition frontier_rel_of :: "'z stripe_scheme \<Rightarrow> nat \<Rightarrow> nat" where
  "frontier_rel_of s f =
     (let start = data_start_rel s in
      if f \<ge> s_chunks s then s_size s
      else let rel = start + f * s_chunk_size s
           in if rel < s_size s then rel else s_size s)"

definition exposure_gen :: "'z stripe_scheme \<Rightarrow> nat" where
  "exposure_gen s = (if s_use_mmap_directory s then m_exposure_gen s else s_local_exposure_gen s)"

definition pass_of :: "'z stripe_scheme \<Rightarrow> nat \<Rightarrow> nat" where
  "pass_of s gen = gen div (s_chunks s + 1)"

definition exposure_threshold :: "'z stripe_scheme \<Rightarrow> nat \<Rightarrow> nat \<Rightarrow> nat" where
  "exposure_threshold s pass rel = (pass + 1) * (s_chunks s + 1) + chunk_of s rel"

definition configure_frontier :: "bool \<Rightarrow> 'z stripe_scheme \<Rightarrow> 'z stripe_scheme" where
  "configure_frontier wrap_retention s =
     (let data_area = s_size s - data_start_rel s;
          s = s\<lparr>s_retain := wrap_retention\<rparr>
      in if s_retain s
         then let g = retention_geometry data_area
              in s\<lparr>s_chunks := fg_chunks g, s_chunk_size := fg_chunk_size g\<rparr>
         else s\<lparr>s_chunks := 1, s_chunk_size := data_area\<rparr>)"

section \<open>Snapshots and admission\<close>

record StripeSnapshot =
  snap_gen :: nat
  snap_pass :: nat
  snap_frontier :: nat
  snap_phase :: bool
  snap_cursor_rel :: nat
  snap_frontier_rel :: nat

definition snapshot :: "'z stripe_scheme \<Rightarrow> StripeSnapshot" where
  "snapshot s =
     (let gen = exposure_gen s; n = s_chunks s; pass = pass_of s gen;
          frontier = min (gen - pass * (n + 1)) n;
          cursor = current_write_cursor s
      in \<lparr>snap_gen = gen, snap_pass = pass, snap_frontier = frontier, snap_phase = odd pass,
          snap_cursor_rel = (if cursor > s_offset s then min (cursor - s_offset s) (s_size s) else 0),
          snap_frontier_rel = frontier_rel_of s frontier\<rparr>)"

datatype AdmitClass = kReject | kCurrent | kRetained

definition admit_position :: "'z stripe_scheme \<Rightarrow> nat \<Rightarrow> bool \<Rightarrow> StripeSnapshot \<Rightarrow> AdmitClass" where
  "admit_position s rel entry_phase snap =
     (if \<not> in_data_area s rel then kReject
      else if entry_phase = snap_phase snap
      then (if rel < snap_cursor_rel snap then kCurrent else kReject)
      else if s_retain s \<and> snap_pass snap > 0 \<and> rel \<ge> snap_frontier_rel snap then kRetained
      else kReject)"

definition expected_pass :: "AdmitClass \<Rightarrow> StripeSnapshot \<Rightarrow> nat" where
  "expected_pass cls snap = (if cls = kRetained then snap_pass snap - 1 else snap_pass snap)"

definition admit_hop :: "'z stripe_scheme \<Rightarrow> nat \<Rightarrow> nat \<Rightarrow> AdmitClass \<Rightarrow> StripeSnapshot \<Rightarrow> AdmitClass" where
  "admit_hop s target_rel source_rel source_cls snap =
     (if target_rel = 0 \<or> \<not> in_data_area s target_rel \<or> target_rel \<ge> source_rel then kReject
      else if source_cls = kCurrent
      then (if target_rel < snap_cursor_rel snap then kCurrent else kReject)
      else if source_cls = kRetained \<and> s_retain s \<and> target_rel \<ge> snap_frontier_rel snap then kRetained
      else kReject)"

definition stamp_admits :: "'z stripe_scheme \<Rightarrow> StripeSnapshot \<Rightarrow> AdmitClass \<Rightarrow> u32 \<Rightarrow> bool" where
  "stamp_admits s snap cls write_serial \<longleftrightarrow>
     \<not> s_retain s \<or> write_serial = of_nat (expected_pass cls snap)"

text \<open>admit_document returns the borrow epoch: its exposure threshold.\<close>

definition admit_document :: "'z stripe_scheme \<Rightarrow> StripeSnapshot \<Rightarrow> AdmitClass \<Rightarrow> nat \<Rightarrow> u32 \<Rightarrow> nat option" where
  "admit_document s snap cls rel write_serial =
     (if cls = kReject \<or> \<not> stamp_admits s snap cls write_serial then None
      else let epoch = exposure_threshold s (expected_pass cls snap) rel
           in if snap_gen snap > epoch then None else Some epoch)"

definition node_admissible_now :: "'z stripe_scheme \<Rightarrow> nat \<Rightarrow> u32 \<Rightarrow> bool" where
  "node_admissible_now s rel write_serial =
     (if \<not> in_data_area s rel then False
      else let now = snapshot s in
        if \<not> s_retain s then rel < snap_cursor_rel now
        else if write_serial = of_nat (snap_pass now) then rel < snap_cursor_rel now
        else if snap_pass now > 0 \<and> write_serial = of_nat (snap_pass now - 1)
        then rel \<ge> snap_frontier_rel now
        else False)"

definition wrapped_since :: "'z stripe_scheme \<Rightarrow> StripeSnapshot \<Rightarrow> bool" where
  "wrapped_since s snap_start \<longleftrightarrow> pass_of s (exposure_gen s) \<noteq> snap_pass snap_start"

text \<open>
  The entries a probe turned away (struct ProbeRejects): at most one bucket's
  worth, without duplicates.
\<close>

definition rejects_note :: "nat \<Rightarrow> bool \<Rightarrow> (nat \<times> bool) list \<Rightarrow> (nat \<times> bool) list" where
  "rejects_note rel phase rs =
     (if (rel, phase) \<in> set rs then rs
      else if length rs < kEntriesPerBucket then rs @ [(rel, phase)] else rs)"

definition probe_raced_publish :: "'z stripe_scheme \<Rightarrow> (nat \<times> bool) list \<Rightarrow> bool" where
  "probe_raced_publish s rejects =
     (if rejects = [] then False
      else let now = snapshot s
           in list_ex (\<lambda>(rel, phase). admit_position s rel phase now \<noteq> kReject) rejects)"

section \<open>Geometry of a well-formed stripe\<close>

text \<open>
  What init_stripes and configure_frontier establish: a non-empty data area cut
  into 1 to 64 chunks, of which the last may be short, the cursor inside it, and
  a file offset far from the end of the 64-bit range.  In flush mode there is one
  chunk.
\<close>

definition geometry_wf :: "'z stripe_scheme \<Rightarrow> bool" where
  "geometry_wf s \<longleftrightarrow>
     s_offset s \<le> s_data_offset s \<and> s_data_offset s < s_offset s + s_size s \<and>
     s_offset s + s_size s < 2 ^ 63 \<and>
     1 \<le> s_chunks s \<and> s_chunks s \<le> kMaxChunks \<and> 0 < s_chunk_size s \<and> s_chunk_size s < 2 ^ 64 \<and>
     s_size s - data_start_rel s \<le> s_chunks s * s_chunk_size s \<and>
     (s_chunks s - 1) * s_chunk_size s < s_size s - data_start_rel s \<and>
     (\<not> s_retain s \<longrightarrow> s_chunks s = 1)"

definition cursor_wf :: "'z stripe_scheme \<Rightarrow> bool" where
  "cursor_wf s \<longleftrightarrow>
     s_data_offset s \<le> current_write_cursor s \<and> current_write_cursor s \<le> s_offset s + s_size s"

lemma configure_frontier_wf:
  assumes "s_offset s \<le> s_data_offset s" "s_data_offset s < s_offset s + s_size s"
    "s_offset s + s_size s < 2 ^ 63"
  shows "geometry_wf (configure_frontier retain s)"
proof -
  have A: "0 < s_size s - data_start_rel s" using assms by (simp add: data_start_rel_def)
  note b = retention_geometry_bounds[OF A]
  have q: "0 < fg_chunk_size (retention_geometry (s_size s - data_start_rel s))"
    using b(3) by (simp add: kMinFrontierChunk_def kMiB_def)
  have "fg_chunk_size (retention_geometry (s_size s - data_start_rel s)) < 2 ^ 64"
    using retention_chunk_bound[of "s_size s - data_start_rel s"] assms(3) by (simp add: kMiB_def)
  then show ?thesis using assms A b q
    by (auto simp: geometry_wf_def configure_frontier_def Let_def data_start_rel_def kMaxChunks_def)
qed

lemma data_start_rel_less: "geometry_wf s \<Longrightarrow> data_start_rel s < s_size s"
  by (auto simp: geometry_wf_def data_start_rel_def)

lemma frontier_rel_of_zero: "geometry_wf s \<Longrightarrow> frontier_rel_of s 0 = data_start_rel s"
  using data_start_rel_less[of s] by (simp add: frontier_rel_of_def geometry_wf_def)

lemma frontier_rel_of_le: "frontier_rel_of s f \<le> s_size s"
  by (simp add: frontier_rel_of_def Let_def)

lemma frontier_rel_of_all: "s_chunks s \<le> f \<Longrightarrow> frontier_rel_of s f = s_size s"
  by (simp add: frontier_rel_of_def)

lemma frontier_rel_of_inner:
  assumes "geometry_wf s" "f < s_chunks s"
  shows "frontier_rel_of s f = data_start_rel s + f * s_chunk_size s"
proof -
  have "f * s_chunk_size s \<le> (s_chunks s - 1) * s_chunk_size s" using assms(2) by (intro mult_right_mono) auto
  also have "\<dots> < s_size s - data_start_rel s" using assms(1) by (simp add: geometry_wf_def)
  finally have "data_start_rel s + f * s_chunk_size s < s_size s" by linarith
  then show ?thesis using assms(2) by (simp add: frontier_rel_of_def Let_def)
qed

lemma frontier_rel_of_mono:
  assumes "geometry_wf s" "f \<le> g"
  shows "frontier_rel_of s f \<le> frontier_rel_of s g"
proof (cases "g < s_chunks s")
  case True
  then show ?thesis using assms by (simp add: frontier_rel_of_inner mult_right_mono)
next
  case False
  then show ?thesis using frontier_rel_of_le by (simp add: frontier_rel_of_all)
qed

lemma chunk_of_eq:
  assumes "geometry_wf s" "data_start_rel s \<le> rel"
  shows "chunk_of s rel = min ((rel - data_start_rel s) div s_chunk_size s) (s_chunks s - 1)"
  using assms by (auto simp: chunk_of_def Let_def geometry_wf_def min_def)

lemma chunk_of_less: "geometry_wf s \<Longrightarrow> chunk_of s rel < s_chunks s"
  by (auto simp: chunk_of_def Let_def geometry_wf_def)

text \<open>A document starts at or after frontier position f iff its chunk is at least f.\<close>

lemma frontier_le_iff_chunk:
  assumes wf: "geometry_wf s" and rel: "data_start_rel s \<le> rel" "rel < s_size s"
  shows "frontier_rel_of s f \<le> rel \<longleftrightarrow> f \<le> chunk_of s rel"
proof (cases "f < s_chunks s")
  case True
  have q: "0 < s_chunk_size s" using wf by (simp add: geometry_wf_def)
  have "frontier_rel_of s f \<le> rel \<longleftrightarrow> f * s_chunk_size s \<le> rel - data_start_rel s"
    using rel by (simp add: frontier_rel_of_inner[OF wf True] le_diff_conv2 add.commute)
  also have "\<dots> \<longleftrightarrow> f \<le> (rel - data_start_rel s) div s_chunk_size s"
    using q by (simp add: less_eq_div_iff_mult_less_eq)
  also have "\<dots> \<longleftrightarrow> f \<le> chunk_of s rel" using True by (auto simp: chunk_of_eq[OF wf rel(1)])
  finally show ?thesis .
next
  case False
  then show ?thesis using chunk_of_less[OF wf, of rel] rel(2) by (simp add: frontier_rel_of_all)
qed

section \<open>What a snapshot says\<close>

lemma snapshot_simps:
  "snap_gen (snapshot s) = exposure_gen s"
  "snap_pass (snapshot s) = exposure_gen s div (s_chunks s + 1)"
  "snap_frontier (snapshot s) = exposure_gen s mod (s_chunks s + 1)"
  "snap_phase (snapshot s) = odd (exposure_gen s div (s_chunks s + 1))"
  "snap_frontier_rel (snapshot s) = frontier_rel_of s (exposure_gen s mod (s_chunks s + 1))"
proof -
  have "exposure_gen s - exposure_gen s div (s_chunks s + 1) * (s_chunks s + 1)
      = exposure_gen s mod (s_chunks s + 1)" by (rule minus_div_mult_eq_mod)
  moreover have "exposure_gen s mod (s_chunks s + 1) \<le> s_chunks s"
    using mod_less_divisor[of "s_chunks s + 1" "exposure_gen s"] by linarith
  ultimately have m: "min (exposure_gen s - exposure_gen s div (s_chunks s + 1) * (s_chunks s + 1)) (s_chunks s)
      = exposure_gen s mod (s_chunks s + 1)" by (simp only: min_absorb1)
  then show "snap_frontier (snapshot s) = exposure_gen s mod (s_chunks s + 1)"
    and "snap_frontier_rel (snapshot s) = frontier_rel_of s (exposure_gen s mod (s_chunks s + 1))"
    by (simp_all add: snapshot_def Let_def pass_of_def)
qed (simp_all add: snapshot_def Let_def pass_of_def)

lemma snapshot_cursor:
  assumes "geometry_wf s" "cursor_wf s"
  shows "snap_cursor_rel (snapshot s) = current_write_cursor s - s_offset s"
  using assms by (auto simp: snapshot_def Let_def cursor_wf_def geometry_wf_def min_def)

end
