(* ===== verification/Directory.thy ===== *)
theory Directory
  imports Dir_Entry Cache_Key Stripe_State
begin

text \<open>
  The stripe directory: class Directory, choose_insert_slot and publish_view_is_current of
  src/src/core/directory.hpp and src/src/core/directory.cpp.  Buckets of four entries, each with a
  seqlock version that every mutation moves from even through odd back to even; an insert
  under the stripe's admission, the older current-phase insert, the removals, and the
  memory image.  Mutators are serialised by the stripe's mutex, so an operation here is one
  atomic update; what a reader sees in the middle of it is the subject of the seqlock theory.

  An int slot that may be -1 is an option, an out-parameter flag that is only ever set is a
  Boolean of the result, and the stripe's InsertAdmission, refreshed, is the function classify.
\<close>

section \<open>Choosing a slot\<close>

record InsertChoice =
  slot :: "nat option"
  replaces :: bool
  verified :: bool
  collision_evicted :: bool
  bucket_full_evicted :: bool

definition insert_choice :: "nat option \<Rightarrow> bool \<Rightarrow> bool \<Rightarrow> InsertChoice" where
  "insert_choice s r v =
     \<lparr>slot = s, replaces = r, verified = v, collision_evicted = False, bucket_full_evicted = False\<rparr>"

definition kMatchAnyTag :: u64 where "kMatchAnyTag = - 1"
definition kNoVerifiedEntry :: u64 where "kNoVerifiedEntry = - 2"

record choose_state =
  same_spot :: "nat option"
  first_empty :: "nat option"
  first_inadmissible :: "nat option"
  first_collider :: "nat option"
  oldest_retained :: "nat option"
  oldest_current :: "nat option"

definition choose_start :: choose_state where
  "choose_start = \<lparr>same_spot = None, first_empty = None, first_inadmissible = None, first_collider = None,
     oldest_retained = None, oldest_current = None\<rparr>"

definition or_else :: "nat option \<Rightarrow> nat \<Rightarrow> nat option" where
  "or_else x i = (case x of None \<Rightarrow> Some i | Some j \<Rightarrow> Some j)"

definition older :: "DirEntry list \<Rightarrow> nat option \<Rightarrow> nat \<Rightarrow> nat option" where
  "older bucket oldest i =
     (case oldest of None \<Rightarrow> Some i
      | Some j \<Rightarrow> if e_offset (bucket ! i) < e_offset (bucket ! j) then Some i else Some j)"

definition is_verified :: "(u64 \<Rightarrow> bool \<Rightarrow> AdmitClass) \<Rightarrow> u16 \<Rightarrow> u64 \<Rightarrow> DirEntry \<Rightarrow> bool" where
  "is_verified classify tag voff e \<longleftrightarrow>
     e_tag e = tag \<and>
     (if voff = kMatchAnyTag then classify (e_offset e) (e_phase e) \<noteq> kReject else e_offset e = voff)"

text \<open>One occupied entry of the scan that is not the verified one.\<close>

definition choose_step ::
  "DirEntry list \<Rightarrow> (u64 \<Rightarrow> bool \<Rightarrow> AdmitClass) \<Rightarrow> u16 \<Rightarrow> u64 \<Rightarrow> nat \<Rightarrow> choose_state \<Rightarrow> choose_state" where
  "choose_step bucket classify tag new_offset i st =
     (let e = bucket ! i; cls = classify (e_offset e) (e_phase e) in
      if new_offset \<noteq> 0 \<and> e_tag e = tag \<and> e_offset e = new_offset
      then st\<lparr>same_spot := or_else (same_spot st) i\<rparr>
      else if cls = kReject then st\<lparr>first_inadmissible := or_else (first_inadmissible st) i\<rparr>
      else if e_tag e = tag then st\<lparr>first_collider := or_else (first_collider st) i\<rparr>
      else if cls = kRetained then st\<lparr>oldest_retained := older bucket (oldest_retained st) i\<rparr>
      else st\<lparr>oldest_current := older bucket (oldest_current st) i\<rparr>)"

text \<open>The scan from slot i: Inl is the early return with the verified slot.\<close>

function choose_scan ::
  "DirEntry list \<Rightarrow> (u64 \<Rightarrow> bool \<Rightarrow> AdmitClass) \<Rightarrow> u16 \<Rightarrow> u64 \<Rightarrow> u64 \<Rightarrow> nat \<Rightarrow> choose_state \<Rightarrow> nat + choose_state" where
  "choose_scan bucket classify tag voff new_offset i st =
     (if i \<ge> length bucket then Inr st
      else if is_empty (bucket ! i) then
        choose_scan bucket classify tag voff new_offset (i + 1) (st\<lparr>first_empty := or_else (first_empty st) i\<rparr>)
      else if is_verified classify tag voff (bucket ! i) then Inl i
      else choose_scan bucket classify tag voff new_offset (i + 1)
             (choose_step bucket classify tag new_offset i st))"
  by pat_completeness auto
termination by (relation "measure (\<lambda>(bucket, classify, tag, voff, new_offset, i, st). length bucket - i)") auto

declare choose_scan.simps [simp del]

definition choose_insert_slot ::
  "DirEntry list \<Rightarrow> u16 \<Rightarrow> u64 \<Rightarrow> (u64 \<Rightarrow> bool \<Rightarrow> AdmitClass) \<Rightarrow> u64 \<Rightarrow> InsertChoice" where
  "choose_insert_slot bucket tag voff classify new_offset =
     (case choose_scan bucket classify tag voff new_offset 0 choose_start of
        Inl i \<Rightarrow> insert_choice (Some i) True True
      | Inr st \<Rightarrow>
          if same_spot st \<noteq> None then insert_choice (same_spot st) True False
          else if first_empty st \<noteq> None then insert_choice (first_empty st) False False
          else if first_inadmissible st \<noteq> None then insert_choice (first_inadmissible st) True False
          else if first_collider st \<noteq> None
          then (insert_choice (first_collider st) True False)\<lparr>collision_evicted := True\<rparr>
          else
            let oldest = (if oldest_retained st \<noteq> None then oldest_retained st else oldest_current st)
            in (insert_choice oldest (oldest \<noteq> None) False)\<lparr>bucket_full_evicted := oldest \<noteq> None\<rparr>)"

section \<open>Is the publisher's view still current?\<close>

fun view_scan ::
  "u16 \<Rightarrow> u64 \<Rightarrow> (u64 \<Rightarrow> bool \<Rightarrow> AdmitClass) \<Rightarrow> u64 list \<Rightarrow> u64 \<Rightarrow> DirEntry list \<Rightarrow> bool \<Rightarrow> bool" where
  "view_scan tag voff classify seen new_offset [] verified_found = verified_found"
| "view_scan tag voff classify seen new_offset (e # es) verified_found =
     (if is_empty e \<or> e_tag e \<noteq> tag then view_scan tag voff classify seen new_offset es verified_found
      else if e_offset e = voff then view_scan tag voff classify seen new_offset es True
      else if new_offset \<noteq> 0 \<and> e_offset e = new_offset
      then view_scan tag voff classify seen new_offset es verified_found
      else if classify (e_offset e) (e_phase e) = kReject
      then view_scan tag voff classify seen new_offset es verified_found
      else if \<not> list_ex (\<lambda>off. off = e_offset e) seen then False
      else view_scan tag voff classify seen new_offset es verified_found)"

definition publish_view_is_current ::
  "DirEntry list \<Rightarrow> u16 \<Rightarrow> u64 \<Rightarrow> (u64 \<Rightarrow> bool \<Rightarrow> AdmitClass) \<Rightarrow> u64 list \<Rightarrow> u64 \<Rightarrow> bool" where
  "publish_view_is_current bucket tag voff classify seen new_offset =
     view_scan tag voff classify seen new_offset bucket (voff = kMatchAnyTag \<or> voff = kNoVerifiedEntry)"

section \<open>The directory\<close>

record Directory =
  num_buckets :: nat
  entries :: "DirEntry list"
  versions :: "u32 list"
  dir_count :: u64
  dir_phase :: bool

definition make_directory :: "nat \<Rightarrow> Directory" where
  "make_directory n = \<lparr>num_buckets = n, entries = replicate (n * 4) empty_entry, versions = replicate n 0,
     dir_count = 0, dir_phase = False\<rparr>"

definition dir_clear :: "Directory \<Rightarrow> Directory" where
  "dir_clear d = d\<lparr>entries := map (\<lambda>_. empty_entry) (entries d), dir_count := 0\<rparr>"

definition bucket_idx :: "CacheKey \<Rightarrow> Directory \<Rightarrow> nat" where
  "bucket_idx key d = unat (bucket_hash key) mod num_buckets d"

definition bucket_at :: "nat \<Rightarrow> Directory \<Rightarrow> DirEntry list" where
  "bucket_at i d = subspan (i * 4) 4 (entries d)"

definition store_bucket :: "nat \<Rightarrow> DirEntry list \<Rightarrow> Directory \<Rightarrow> Directory" where
  "store_bucket i b d = d\<lparr>entries := put_at (i * 4) b (entries d)\<rparr>"

definition begin_bucket_write :: "nat \<Rightarrow> Directory \<Rightarrow> Directory" where
  "begin_bucket_write i d = d\<lparr>versions := (versions d)[i := versions d ! i + 1]\<rparr>"

definition end_bucket_write :: "nat \<Rightarrow> Directory \<Rightarrow> Directory" where
  "end_bucket_write i d = d\<lparr>versions := (versions d)[i := versions d ! i + 1]\<rparr>"

text \<open>A bracketed replacement of a bucket.\<close>

definition bracket :: "nat \<Rightarrow> DirEntry list \<Rightarrow> Directory \<Rightarrow> Directory" where
  "bracket i b d = end_bucket_write i (store_bucket i b (begin_bucket_write i d))"

definition updated_entry :: "u64 \<Rightarrow> u64 \<Rightarrow> u16 \<Rightarrow> bool \<Rightarrow> DirEntry \<Rightarrow> DirEntry" where
  "updated_entry off sz serial phase e =
     set_phase phase (set_fill_serial serial (set_approx_size sz (set_offset off e)))"

definition retagged_entry :: "u64 \<Rightarrow> u64 \<Rightarrow> u16 \<Rightarrow> u16 \<Rightarrow> bool \<Rightarrow> DirEntry \<Rightarrow> DirEntry" where
  "retagged_entry off sz serial tag phase e =
     set_head True (set_phase phase (set_tag tag (set_fill_serial serial (set_approx_size sz (set_offset off e)))))"

text \<open>The uniqueness cleanup of the other same-tag entries, with the number cleared.\<close>

definition is_duplicate :: "nat \<Rightarrow> u16 \<Rightarrow> u64 \<Rightarrow> u64 list \<Rightarrow> nat \<Rightarrow> DirEntry \<Rightarrow> bool" where
  "is_duplicate s tag off clear_offsets i e \<longleftrightarrow>
     i \<noteq> s \<and> \<not> is_empty e \<and> e_tag e = tag \<and>
     (e_offset e = off \<or> list_ex (\<lambda>c. c = e_offset e) clear_offsets)"

fun cleanup :: "nat \<Rightarrow> u16 \<Rightarrow> u64 \<Rightarrow> u64 list \<Rightarrow> nat \<Rightarrow> DirEntry list \<Rightarrow> DirEntry list \<times> nat" where
  "cleanup s tag off clear_offsets i [] = ([], 0)"
| "cleanup s tag off clear_offsets i (e # es) =
     (case cleanup s tag off clear_offsets (i + 1) es of (es', n) \<Rightarrow>
        if is_duplicate s tag off clear_offsets i e then (empty_entry # es', n + 1) else (e # es', n))"

record insert_result =
  inserted :: bool
  stale :: bool
  evicted_collider :: bool
  evicted_full :: bool

definition insert_admitted ::
  "CacheKey \<Rightarrow> u64 \<Rightarrow> u64 \<Rightarrow> u64 \<Rightarrow> (u64 \<Rightarrow> bool \<Rightarrow> AdmitClass) \<Rightarrow> u64 list \<Rightarrow> u64 list option \<Rightarrow> u16 \<Rightarrow>
   Directory \<Rightarrow> insert_result \<times> Directory" where
  "insert_admitted key off sz voff classify clear_offsets view serial d =
     (let idx = bucket_idx key d; tag = key_tag key; phase = dir_phase d; bucket = bucket_at idx d in
      if (case view of None \<Rightarrow> False
          | Some seen \<Rightarrow> \<not> publish_view_is_current bucket tag voff classify seen off)
      then (\<lparr>inserted = False, stale = True, evicted_collider = False, evicted_full = False\<rparr>, d)
      else
        let choice = choose_insert_slot bucket tag voff classify off in
        case slot choice of
          None \<Rightarrow> (\<lparr>inserted = False, stale = False, evicted_collider = collision_evicted choice,
                    evicted_full = bucket_full_evicted choice\<rparr>, d)
        | Some s \<Rightarrow>
            let e = (if verified choice then updated_entry off sz serial phase (bucket ! s)
                     else retagged_entry off sz serial tag phase empty_entry)
            in case cleanup s tag off clear_offsets 0 (bucket[s := e]) of (b, cleared) \<Rightarrow>
              let d = bracket idx b d;
                  d = (if \<not> replaces choice then d\<lparr>dir_count := dir_count d + 1\<rparr> else d);
                  d = (if cleared \<noteq> 0 then d\<lparr>dir_count := dir_count d - of_nat cleared\<rparr> else d)
              in (\<lparr>inserted = True, stale = False, evicted_collider = collision_evicted choice,
                   evicted_full = bucket_full_evicted choice\<rparr>, d))"

text \<open>The insert without an admission: current-phase entries only.\<close>

record legacy_state =
  leg_empty :: "nat option"
  leg_stale :: "nat option"
  leg_collider :: "nat option"
  leg_target :: "nat option"
  leg_nearest :: "nat option"
  leg_nearest_offset :: u64

definition legacy_start :: legacy_state where
  "legacy_start = \<lparr>leg_empty = None, leg_stale = None, leg_collider = None, leg_target = None,
     leg_nearest = None, leg_nearest_offset = 0\<rparr>"

fun legacy_scan :: "u16 \<Rightarrow> bool \<Rightarrow> u64 \<Rightarrow> nat \<Rightarrow> DirEntry list \<Rightarrow> legacy_state \<Rightarrow> legacy_state" where
  "legacy_scan tag phase voff i [] st = st"
| "legacy_scan tag phase voff i (e # es) st =
     (if is_empty e then legacy_scan tag phase voff (i + 1) es (st\<lparr>leg_empty := or_else (leg_empty st) i\<rparr>)
      else
        let st = (if leg_nearest st = None \<or> e_offset e < leg_nearest_offset st
                  then st\<lparr>leg_nearest := Some i, leg_nearest_offset := e_offset e\<rparr> else st)
        in if e_tag e = tag \<and> e_phase e = phase then
             if voff = kMatchAnyTag \<or> e_offset e = voff then st\<lparr>leg_target := Some i\<rparr>
             else legacy_scan tag phase voff (i + 1) es (st\<lparr>leg_collider := or_else (leg_collider st) i\<rparr>)
           else
             legacy_scan tag phase voff (i + 1) es
               (if e_phase e \<noteq> phase then st\<lparr>leg_stale := or_else (leg_stale st) i\<rparr> else st))"

definition insert_legacy :: "CacheKey \<Rightarrow> u64 \<Rightarrow> u64 \<Rightarrow> u64 \<Rightarrow> u16 \<Rightarrow> Directory \<Rightarrow> insert_result \<times> Directory" where
  "insert_legacy key off sz voff serial d =
     (let idx = bucket_idx key d; tag = key_tag key; phase = dir_phase d; bucket = bucket_at idx d;
          st = legacy_scan tag phase voff 0 bucket legacy_start;
          ok = \<lparr>inserted = True, stale = False, evicted_collider = False, evicted_full = False\<rparr>;
          retag = (\<lambda>i. bracket idx (bucket[i := retagged_entry off sz serial tag phase (bucket ! i)]) d)
      in case leg_target st of
           Some t \<Rightarrow> (ok, bracket idx (bucket[t := updated_entry off sz serial phase (bucket ! t)]) d)
         | None \<Rightarrow>
         case leg_empty st of
           Some i \<Rightarrow> (ok, let d = retag i in d\<lparr>dir_count := dir_count d + 1\<rparr>)
         | None \<Rightarrow>
         case leg_stale st of
           Some i \<Rightarrow> (ok, retag i)
         | None \<Rightarrow>
         case leg_collider st of
           Some i \<Rightarrow> (ok\<lparr>evicted_collider := True\<rparr>, retag i)
         | None \<Rightarrow>
         case leg_nearest st of
           Some i \<Rightarrow> (ok\<lparr>evicted_full := True\<rparr>,
             bracket idx (bucket[i := retagged_entry off sz serial tag phase empty_entry]) d)
         | None \<Rightarrow> (ok\<lparr>inserted := False\<rparr>, d))"

text \<open>Directory::insert: the admission is an optional argument.\<close>

definition dir_insert ::
  "CacheKey \<Rightarrow> u64 \<Rightarrow> u64 \<Rightarrow> u64 \<Rightarrow> (u64 \<Rightarrow> bool \<Rightarrow> AdmitClass) option \<Rightarrow> u64 list \<Rightarrow> u64 list option \<Rightarrow> u16 \<Rightarrow>
   Directory \<Rightarrow> insert_result \<times> Directory" where
  "dir_insert key off sz voff admission clear_offsets view serial d =
     (case admission of
        Some classify \<Rightarrow> insert_admitted key off sz voff classify clear_offsets view serial d
      | None \<Rightarrow> insert_legacy key off sz voff serial d)"

fun find_tag :: "u16 \<Rightarrow> nat \<Rightarrow> DirEntry list \<Rightarrow> nat option" where
  "find_tag tag i [] = None"
| "find_tag tag i (e # es) = (if \<not> is_empty e \<and> e_tag e = tag then Some i else find_tag tag (i + 1) es)"

definition dir_remove :: "CacheKey \<Rightarrow> Directory \<Rightarrow> bool \<times> Directory" where
  "dir_remove key d =
     (let idx = bucket_idx key d; bucket = bucket_at idx d in
      case find_tag (key_tag key) 0 bucket of
        None \<Rightarrow> (False, d)
      | Some i \<Rightarrow> (True, let d = bracket idx (bucket[i := empty_entry]) d in d\<lparr>dir_count := dir_count d - 1\<rparr>))"

fun clear_matching :: "u16 \<Rightarrow> u64 \<Rightarrow> DirEntry list \<Rightarrow> DirEntry list \<times> nat" where
  "clear_matching tag off [] = ([], 0)"
| "clear_matching tag off (e # es) =
     (case clear_matching tag off es of (es', n) \<Rightarrow>
        if \<not> is_empty e \<and> e_tag e = tag \<and> e_offset e = off then (empty_entry # es', n + 1) else (e # es', n))"

definition dir_remove_at :: "CacheKey \<Rightarrow> u64 \<Rightarrow> Directory \<Rightarrow> bool \<times> Directory" where
  "dir_remove_at key target_offset d =
     (let idx = bucket_idx key d in
      case clear_matching (key_tag key) target_offset (bucket_at idx d) of (b, removed) \<Rightarrow>
        if removed \<noteq> 0
        then (True, let d = bracket idx b d in d\<lparr>dir_count := dir_count d - of_nat removed\<rparr>)
        else (False, d))"

definition toggle_phase :: "Directory \<Rightarrow> Directory" where
  "toggle_phase d = d\<lparr>dir_phase := \<not> dir_phase d\<rparr>"

definition set_current_phase :: "bool \<Rightarrow> Directory \<Rightarrow> Directory" where
  "set_current_phase phase d = d\<lparr>dir_phase := phase\<rparr>"

definition bucket_version :: "CacheKey \<Rightarrow> Directory \<Rightarrow> u32" where
  "bucket_version key d = (if num_buckets d = 0 then 0 else versions d ! bucket_idx key d)"

text \<open>What one consistent scan of a bucket hands to the callback.\<close>

definition scan_entries :: "bool option \<Rightarrow> u16 \<Rightarrow> DirEntry list \<Rightarrow> DirEntry list" where
  "scan_entries phase tag bucket =
     filter (\<lambda>e. \<not> is_empty e \<and> (case phase of None \<Rightarrow> True | Some p \<Rightarrow> e_phase e = p) \<and> e_tag e = tag) bucket"

definition probe_all :: "CacheKey \<Rightarrow> Directory \<Rightarrow> DirEntry list" where
  "probe_all key d = scan_entries (Some (dir_phase d)) (key_tag key) (bucket_at (bucket_idx key d) d)"

definition probe_all_phases :: "CacheKey \<Rightarrow> Directory \<Rightarrow> DirEntry list" where
  "probe_all_phases key d = scan_entries None (key_tag key) (bucket_at (bucket_idx key d) d)"

text \<open>The memory image: five little-endian words per entry.\<close>

definition entry_bytes :: "DirEntry \<Rightarrow> bytes" where
  "entry_bytes e = to_le 2 (w0 e) @ to_le 2 (w1 e) @ to_le 2 (w2 e) @ to_le 2 (w3 e) @ to_le 2 (w4 e)"

definition entry_of_bytes :: "bytes \<Rightarrow> DirEntry" where
  "entry_of_bytes p = \<lparr>w0 = from_le (subspan 0 2 p), w1 = from_le (subspan 2 2 p), w2 = from_le (subspan 4 2 p),
     w3 = from_le (subspan 6 2 p), w4 = from_le (subspan 8 2 p)\<rparr>"

definition dir_serialize :: "Directory \<Rightarrow> bytes" where
  "dir_serialize d = concat (map entry_bytes (entries d))"

definition dir_deserialize :: "bytes \<Rightarrow> Directory \<Rightarrow> Directory" where
  "dir_deserialize data d =
     (let entry_count = length data div 10;
          entry_count = (if entry_count > length (entries d) then length (entries d) else entry_count);
          es = map (\<lambda>i. entry_of_bytes (subspan (i * 10) 10 data)) [0 ..< entry_count] @ drop entry_count (entries d)
      in d\<lparr>entries := es, dir_count := of_nat (length (filter (\<lambda>e. \<not> is_empty e) es))\<rparr>)"

end
