(* ===== verification/Directory_Choice.thy ===== *)
theory Directory_Choice
  imports Directory
begin

text \<open>
  What the victim choice of an insert decides, independent of the order of its scan: the
  rank of every slot, and that choose_insert_slot takes a slot of the best rank.
\<close>

section \<open>The rank of a slot\<close>

datatype slot_kind = KVerified | KSameSpot | KEmpty | KInadmissible | KCollider | KRetained | KCurrent

fun rank :: "slot_kind \<Rightarrow> nat" where
  "rank KVerified = 0"
| "rank KSameSpot = 1"
| "rank KEmpty = 2"
| "rank KInadmissible = 3"
| "rank KCollider = 4"
| "rank KRetained = 5"
| "rank KCurrent = 6"

definition kind :: "(u64 \<Rightarrow> bool \<Rightarrow> AdmitClass) \<Rightarrow> u16 \<Rightarrow> u64 \<Rightarrow> u64 \<Rightarrow> DirEntry \<Rightarrow> slot_kind" where
  "kind classify tag voff new_offset e =
     (if is_empty e then KEmpty
      else if is_verified classify tag voff e then KVerified
      else if new_offset \<noteq> 0 \<and> e_tag e = tag \<and> e_offset e = new_offset then KSameSpot
      else if classify (e_offset e) (e_phase e) = kReject then KInadmissible
      else if e_tag e = tag then KCollider
      else if classify (e_offset e) (e_phase e) = kRetained then KRetained
      else KCurrent)"

section \<open>The scan computes first and oldest slots\<close>

definition first_at :: "(nat \<Rightarrow> slot_kind) \<Rightarrow> slot_kind \<Rightarrow> nat \<Rightarrow> nat option \<Rightarrow> bool" where
  "first_at K k i x \<longleftrightarrow>
     (case x of None \<Rightarrow> \<forall>j < i. K j \<noteq> k | Some j \<Rightarrow> j < i \<and> K j = k \<and> (\<forall>m < j. K m \<noteq> k))"

definition oldest_at :: "(nat \<Rightarrow> slot_kind) \<Rightarrow> (nat \<Rightarrow> u64) \<Rightarrow> slot_kind \<Rightarrow> nat \<Rightarrow> nat option \<Rightarrow> bool" where
  "oldest_at K off k i x \<longleftrightarrow>
     (case x of None \<Rightarrow> \<forall>j < i. K j \<noteq> k | Some j \<Rightarrow> j < i \<and> K j = k \<and> (\<forall>m < i. K m = k \<longrightarrow> off j \<le> off m))"

lemma first_at_start [simp]: "first_at K k 0 None"
  and oldest_at_start [simp]: "oldest_at K off k 0 None"
  by (simp_all add: first_at_def oldest_at_def)

lemma first_at_skip: "first_at K k i x \<Longrightarrow> K i \<noteq> k \<Longrightarrow> first_at K k (Suc i) x"
  by (auto simp: first_at_def less_Suc_eq split: option.splits)

lemma first_at_hit: "first_at K k i x \<Longrightarrow> K i = k \<Longrightarrow> first_at K k (Suc i) (or_else x i)"
  by (auto simp: first_at_def or_else_def less_Suc_eq split: option.splits)

lemma oldest_at_skip: "oldest_at K off k i x \<Longrightarrow> K i \<noteq> k \<Longrightarrow> oldest_at K off k (Suc i) x"
  by (auto simp: oldest_at_def less_Suc_eq split: option.splits)

lemma oldest_at_hit:
  "oldest_at K (\<lambda>j. e_offset (b ! j)) k i x \<Longrightarrow> K i = k \<Longrightarrow> oldest_at K (\<lambda>j. e_offset (b ! j)) k (Suc i) (older b x i)"
  by (auto simp: oldest_at_def older_def less_Suc_eq split: option.splits)

definition scan_inv :: "DirEntry list \<Rightarrow> (nat \<Rightarrow> slot_kind) \<Rightarrow> nat \<Rightarrow> choose_state \<Rightarrow> bool" where
  "scan_inv b K i st \<longleftrightarrow>
     (\<forall>j < i. K j \<noteq> KVerified) \<and> first_at K KSameSpot i (same_spot st) \<and> first_at K KEmpty i (first_empty st) \<and>
     first_at K KInadmissible i (first_inadmissible st) \<and> first_at K KCollider i (first_collider st) \<and>
     oldest_at K (\<lambda>j. e_offset (b ! j)) KRetained i (oldest_retained st) \<and>
     oldest_at K (\<lambda>j. e_offset (b ! j)) KCurrent i (oldest_current st)"

lemmas scan_steps = first_at_skip first_at_hit oldest_at_skip oldest_at_hit

lemma scan_inv_empty:
  assumes "scan_inv b K i st" and "K i = KEmpty"
  shows "scan_inv b K (Suc i) (st\<lparr>first_empty := or_else (first_empty st) i\<rparr>)"
  using assms unfolding scan_inv_def by (auto simp: less_Suc_eq intro: scan_steps)

lemma scan_inv_step:
  assumes "scan_inv b K i st" and "K i = kind classify tag voff new_offset (b ! i)"
    and "\<not> is_empty (b ! i)" and "\<not> is_verified classify tag voff (b ! i)"
  shows "scan_inv b K (Suc i) (choose_step b classify tag new_offset i st)"
proof -
  consider (same) "K i = KSameSpot" "choose_step b classify tag new_offset i st = st\<lparr>same_spot := or_else (same_spot st) i\<rparr>"
    | (inadm) "K i = KInadmissible" "choose_step b classify tag new_offset i st = st\<lparr>first_inadmissible := or_else (first_inadmissible st) i\<rparr>"
    | (coll) "K i = KCollider" "choose_step b classify tag new_offset i st = st\<lparr>first_collider := or_else (first_collider st) i\<rparr>"
    | (ret) "K i = KRetained" "choose_step b classify tag new_offset i st = st\<lparr>oldest_retained := older b (oldest_retained st) i\<rparr>"
    | (cur) "K i = KCurrent" "choose_step b classify tag new_offset i st = st\<lparr>oldest_current := older b (oldest_current st) i\<rparr>"
    using assms(2-4) by (simp add: kind_def choose_step_def Let_def split: if_splits)
  then show ?thesis
  proof cases
    case same
    then show ?thesis using assms(1) by (auto simp: scan_inv_def less_Suc_eq intro: scan_steps)
  next
    case inadm
    then show ?thesis using assms(1) by (auto simp: scan_inv_def less_Suc_eq intro: scan_steps)
  next
    case coll
    then show ?thesis using assms(1) by (auto simp: scan_inv_def less_Suc_eq intro: scan_steps)
  next
    case ret
    then show ?thesis using assms(1) by (auto simp: scan_inv_def less_Suc_eq intro: scan_steps)
  next
    case cur
    then show ?thesis using assms(1) by (auto simp: scan_inv_def less_Suc_eq intro: scan_steps)
  qed
qed

lemma choose_scan_inv:
  assumes "K = (\<lambda>i. kind classify tag voff new_offset (b ! i))" and "scan_inv b K i st" and "i \<le> length b"
  shows "case choose_scan b classify tag voff new_offset i st of
      Inl j \<Rightarrow> j < length b \<and> K j = KVerified \<and> (\<forall>m < j. K m \<noteq> KVerified)
    | Inr st' \<Rightarrow> scan_inv b K (length b) st'"
  using assms
proof (induction "length b - i" arbitrary: i st)
  case 0
  then show ?case by (simp add: choose_scan.simps[of b])
next
  case (Suc n)
  then have i: "i < length b" by simp
  show ?case
  proof (cases "is_empty (b ! i)")
    case True
    then have "K i = KEmpty" using Suc.prems(1) by (simp add: kind_def)
    then have inv: "scan_inv b K (i + 1) (st\<lparr>first_empty := or_else (first_empty st) i\<rparr>)"
      using scan_inv_empty[OF Suc.prems(2)] by simp
    have "choose_scan b classify tag voff new_offset i st =
        choose_scan b classify tag voff new_offset (i + 1) (st\<lparr>first_empty := or_else (first_empty st) i\<rparr>)"
      by (subst choose_scan.simps) (use i True in simp)
    then show ?thesis
      using Suc.hyps(1)[OF _ Suc.prems(1) inv] Suc.hyps(2) i by simp
  next
    case False
    show ?thesis
    proof (cases "is_verified classify tag voff (b ! i)")
      case True
      have "choose_scan b classify tag voff new_offset i st = Inl i"
        by (subst choose_scan.simps) (use i False True in simp)
      then show ?thesis
        using False True Suc.prems i by (simp add: kind_def scan_inv_def)
    next
      case nv: False
      have inv: "scan_inv b K (i + 1) (choose_step b classify tag new_offset i st)"
        using scan_inv_step[OF Suc.prems(2) _ False nv] Suc.prems(1) by simp
      have "choose_scan b classify tag voff new_offset i st =
          choose_scan b classify tag voff new_offset (i + 1) (choose_step b classify tag new_offset i st)"
        by (subst choose_scan.simps) (use i False nv in simp)
      then show ?thesis
        using Suc.hyps(1)[OF _ Suc.prems(1) inv] Suc.hyps(2) i by simp
    qed
  qed
qed

section \<open>The choice\<close>

text \<open>Slot s is a best one of the n slots.\<close>

definition best_slot :: "(nat \<Rightarrow> slot_kind) \<Rightarrow> (nat \<Rightarrow> u64) \<Rightarrow> nat \<Rightarrow> nat \<Rightarrow> bool" where
  "best_slot K off n s \<longleftrightarrow> s < n \<and> (\<forall>i < n. rank (K s) \<le> rank (K i)) \<and>
     (\<forall>i < n. K i = K s \<longrightarrow> (if K s = KRetained \<or> K s = KCurrent then off s \<le> off i else s \<le> i))"

lemma best_of_first:
  assumes "first_at K k n (Some s)" and "k \<noteq> KRetained" "k \<noteq> KCurrent" and "\<And>i. i < n \<Longrightarrow> rank k \<le> rank (K i)"
  shows "best_slot K off n s"
  using assms by (auto simp: first_at_def best_slot_def not_less[symmetric])

lemma best_of_oldest:
  assumes "oldest_at K off k n (Some s)" and "k = KRetained \<or> k = KCurrent" and "\<And>i. i < n \<Longrightarrow> rank k \<le> rank (K i)"
  shows "best_slot K off n s"
  using assms by (auto simp: oldest_at_def best_slot_def)

lemma rank_ge:
  "k \<noteq> KVerified \<Longrightarrow> rank KSameSpot \<le> rank k"
  "k \<noteq> KVerified \<Longrightarrow> k \<noteq> KSameSpot \<Longrightarrow> rank KEmpty \<le> rank k"
  "k \<noteq> KVerified \<Longrightarrow> k \<noteq> KSameSpot \<Longrightarrow> k \<noteq> KEmpty \<Longrightarrow> rank KInadmissible \<le> rank k"
  "k \<noteq> KVerified \<Longrightarrow> k \<noteq> KSameSpot \<Longrightarrow> k \<noteq> KEmpty \<Longrightarrow> k \<noteq> KInadmissible \<Longrightarrow> rank KCollider \<le> rank k"
  "k \<noteq> KVerified \<Longrightarrow> k \<noteq> KSameSpot \<Longrightarrow> k \<noteq> KEmpty \<Longrightarrow> k \<noteq> KInadmissible \<Longrightarrow> k \<noteq> KCollider \<Longrightarrow>
    rank KRetained \<le> rank k"
  "k \<noteq> KVerified \<Longrightarrow> k \<noteq> KSameSpot \<Longrightarrow> k \<noteq> KEmpty \<Longrightarrow> k \<noteq> KInadmissible \<Longrightarrow> k \<noteq> KCollider \<Longrightarrow>
    k \<noteq> KRetained \<Longrightarrow> rank KCurrent \<le> rank k"
  by (cases k; simp)+

lemma first_oldest_at:
  "first_at K k n None \<Longrightarrow> i < n \<Longrightarrow> K i \<noteq> k" "oldest_at K off k n None \<Longrightarrow> i < n \<Longrightarrow> K i \<noteq> k"
  "first_at K k n (Some s) \<Longrightarrow> K s = k" "oldest_at K off k n (Some s) \<Longrightarrow> K s = k"
  by (simp_all add: first_at_def oldest_at_def)

text \<open>What the caller of the scan makes of its result.\<close>

definition best_choice :: "(nat \<Rightarrow> slot_kind) \<Rightarrow> (nat \<Rightarrow> u64) \<Rightarrow> nat \<Rightarrow> InsertChoice \<Rightarrow> bool" where
  "best_choice K off n c \<longleftrightarrow>
     (case slot c of None \<Rightarrow> False
      | Some s \<Rightarrow> best_slot K off n s \<and> (verified c \<longleftrightarrow> K s = KVerified) \<and> (replaces c \<longleftrightarrow> K s \<noteq> KEmpty) \<and>
          (collision_evicted c \<longleftrightarrow> K s = KCollider) \<and> (bucket_full_evicted c \<longleftrightarrow> K s = KRetained \<or> K s = KCurrent))"

lemma choose_rest_best:
  assumes inv: "scan_inv b K (length b) st" and "b \<noteq> []"
    and scan: "choose_scan b classify tag voff new_offset 0 choose_start = Inr st"
  shows "best_choice K (\<lambda>i. e_offset (b ! i)) (length b) (choose_insert_slot b tag voff classify new_offset)"
proof -
  let ?n = "length b" and ?off = "\<lambda>i. e_offset (b ! i)"
  have nv: "\<And>i. i < ?n \<Longrightarrow> K i \<noteq> KVerified"
    and f: "first_at K KSameSpot ?n (same_spot st)" "first_at K KEmpty ?n (first_empty st)"
      "first_at K KInadmissible ?n (first_inadmissible st)" "first_at K KCollider ?n (first_collider st)"
    and o: "oldest_at K ?off KRetained ?n (oldest_retained st)" "oldest_at K ?off KCurrent ?n (oldest_current st)"
    using inv by (simp_all add: scan_inv_def)
  have excl: "same_spot st = None \<Longrightarrow> i < ?n \<Longrightarrow> K i \<noteq> KSameSpot" "first_empty st = None \<Longrightarrow> i < ?n \<Longrightarrow> K i \<noteq> KEmpty"
    "first_inadmissible st = None \<Longrightarrow> i < ?n \<Longrightarrow> K i \<noteq> KInadmissible" "first_collider st = None \<Longrightarrow> i < ?n \<Longrightarrow> K i \<noteq> KCollider"
    "oldest_retained st = None \<Longrightarrow> i < ?n \<Longrightarrow> K i \<noteq> KRetained" "oldest_current st = None \<Longrightarrow> i < ?n \<Longrightarrow> K i \<noteq> KCurrent" for i
    using f o first_oldest_at(1,2)[of K] by auto
  note unf = best_choice_def choose_insert_slot_def scan insert_choice_def
  consider (same) s where "same_spot st = Some s"
    | (empty) s where "same_spot st = None" "first_empty st = Some s"
    | (inadm) s where "same_spot st = None" "first_empty st = None" "first_inadmissible st = Some s"
    | (coll) s where "same_spot st = None" "first_empty st = None" "first_inadmissible st = None" "first_collider st = Some s"
    | (ret) s where "same_spot st = None" "first_empty st = None" "first_inadmissible st = None" "first_collider st = None"
        "oldest_retained st = Some s"
    | (cur) s where "same_spot st = None" "first_empty st = None" "first_inadmissible st = None" "first_collider st = None"
        "oldest_retained st = None" "oldest_current st = Some s"
    | (none) "same_spot st = None" "first_empty st = None" "first_inadmissible st = None" "first_collider st = None"
        "oldest_retained st = None" "oldest_current st = None"
    by (metis not_None_eq)
  then show ?thesis
  proof cases
    case same
    have at: "first_at K KSameSpot ?n (Some s)" using f(1) same by simp
    have "rank KSameSpot \<le> rank (K i)" if "i < ?n" for i
      by (intro rank_ge) (use that nv excl same in auto)
    with at have "best_slot K ?off ?n s"
      by (intro best_of_first[of K KSameSpot]) simp_all
    then show ?thesis
      using same first_oldest_at(3)[OF at] by (simp add: unf)
  next
    case empty
    have at: "first_at K KEmpty ?n (Some s)" using f(2) empty by simp
    have "rank KEmpty \<le> rank (K i)" if "i < ?n" for i
      by (intro rank_ge) (use that nv excl empty in auto)
    with at have "best_slot K ?off ?n s"
      by (intro best_of_first[of K KEmpty]) simp_all
    then show ?thesis
      using empty first_oldest_at(3)[OF at] by (simp add: unf)
  next
    case inadm
    have at: "first_at K KInadmissible ?n (Some s)" using f(3) inadm by simp
    have "rank KInadmissible \<le> rank (K i)" if "i < ?n" for i
      by (intro rank_ge) (use that nv excl inadm in auto)
    with at have "best_slot K ?off ?n s"
      by (intro best_of_first[of K KInadmissible]) simp_all
    then show ?thesis
      using inadm first_oldest_at(3)[OF at] by (simp add: unf)
  next
    case coll
    have at: "first_at K KCollider ?n (Some s)" using f(4) coll by simp
    have "rank KCollider \<le> rank (K i)" if "i < ?n" for i
      by (intro rank_ge) (use that nv excl coll in auto)
    with at have "best_slot K ?off ?n s"
      by (intro best_of_first[of K KCollider]) simp_all
    then show ?thesis
      using coll first_oldest_at(3)[OF at] by (simp add: unf)
  next
    case ret
    have at: "oldest_at K ?off KRetained ?n (Some s)" using o(1) ret by simp
    have "rank KRetained \<le> rank (K i)" if "i < ?n" for i
      by (intro rank_ge) (use that nv excl ret in auto)
    with at have "best_slot K ?off ?n s"
      by (intro best_of_oldest[of K ?off KRetained]) simp_all
    then show ?thesis
      using ret first_oldest_at(4)[OF at] by (simp add: unf)
  next
    case cur
    have at: "oldest_at K ?off KCurrent ?n (Some s)" using o(2) cur by simp
    have "rank KCurrent \<le> rank (K i)" if "i < ?n" for i
      by (intro rank_ge) (use that nv excl cur in auto)
    with at have "best_slot K ?off ?n s"
      by (intro best_of_oldest[of K ?off KCurrent]) simp_all
    then show ?thesis
      using cur first_oldest_at(4)[OF at] by (simp add: unf)
  next
    case none
    have "0 < ?n" using assms(2) by simp
    then have False
      using none nv[of 0] excl[of 0] by (cases "K 0") auto
    then show ?thesis ..
  qed
qed

lemma choose_insert_slot_best:
  assumes K: "K = (\<lambda>i. kind classify tag voff new_offset (b ! i))" and "b \<noteq> []"
  shows "best_choice K (\<lambda>i. e_offset (b ! i)) (length b) (choose_insert_slot b tag voff classify new_offset)"
proof -
  have start: "scan_inv b K 0 choose_start"
    by (simp add: scan_inv_def choose_start_def)
  note scan = choose_scan_inv[OF K start]
  show ?thesis
  proof (cases "choose_scan b classify tag voff new_offset 0 choose_start")
    case (Inl s)
    then have s: "s < length b" "K s = KVerified" "\<forall>m < s. K m \<noteq> KVerified"
      using scan by simp_all
    then have "best_slot K (\<lambda>i. e_offset (b ! i)) (length b) s"
      by (intro best_of_first[of K KVerified]) (auto simp: first_at_def)
    then show ?thesis
      using s(2) by (simp add: best_choice_def choose_insert_slot_def Inl insert_choice_def)
  next
    case (Inr st)
    then show ?thesis
      using scan choose_rest_best[OF _ assms(2) Inr] by simp
  qed
qed

text \<open>
  C26.
  The victim of an insert: in a non-empty bucket the choice always names a slot, and one of
  the best rank, in the order verified entry of the key, dead entry at the offset just
  written, empty slot, inadmissible entry, tag collider, retained entry, current entry;
  among live entries of other tags it is the one with the lowest offset, otherwise the first.
  So a live entry is only given up when the bucket has no free or dead slot, and exactly
  those evictions are reported.
\<close>

theorem insert_victim_is_best:
  assumes "b \<noteq> []"
  shows "best_choice (\<lambda>i. kind classify tag voff new_offset (b ! i)) (\<lambda>i. e_offset (b ! i)) (length b)
    (choose_insert_slot b tag voff classify new_offset)"
  by (rule choose_insert_slot_best[OF refl assms])

definition sample_bucket :: "DirEntry list" where
  "sample_bucket = [retagged_entry 4096 100 1 7 False empty_entry, retagged_entry 2048 100 1 9 False empty_entry]"

theorem insert_victim_is_best_witness:
  "slot (choose_insert_slot sample_bucket 5 kNoVerifiedEntry (\<lambda>off phase. kCurrent) 8192) = Some 1"
proof -
  let ?c = "choose_insert_slot sample_bucket 5 kNoVerifiedEntry (\<lambda>off phase. kCurrent) 8192"
  let ?K = "\<lambda>i. kind (\<lambda>off phase. kCurrent) 5 kNoVerifiedEntry 8192 (sample_bucket ! i)"
  have best: "best_choice ?K (\<lambda>i. e_offset (sample_bucket ! i)) 2 ?c"
    using insert_victim_is_best[of sample_bucket "\<lambda>off phase. kCurrent" 5 kNoVerifiedEntry 8192]
    by (simp add: sample_bucket_def numeral_2_eq_2)
  have off: "e_offset (sample_bucket ! 0) = 4096" "e_offset (sample_bucket ! 1) = 2048"
    "e_tag (sample_bucket ! 0) = 7" "e_tag (sample_bucket ! 1) = 9"
    by (simp_all add: sample_bucket_def retagged_entry_def set_approx_size_def Let_def take_bit_eq_mask mask_numeral)
  then have K: "?K 0 = KCurrent" "?K 1 = KCurrent"
    by (simp_all add: kind_def is_empty_def is_verified_def)
  obtain s where s: "slot ?c = Some s" "best_slot ?K (\<lambda>i. e_offset (sample_bucket ! i)) 2 s"
    using best by (auto simp: best_choice_def split: option.splits)
  then have "s = 0 \<or> s = 1" by (auto simp: best_slot_def)
  moreover have "s \<noteq> 0"
  proof
    assume "s = 0"
    with s(2) have "\<forall>i < 2. ?K i = ?K 0 \<longrightarrow> (if ?K 0 = KRetained \<or> ?K 0 = KCurrent
        then e_offset (sample_bucket ! 0) \<le> e_offset (sample_bucket ! i) else 0 \<le> i)"
      by (simp add: best_slot_def)
    from spec[OF this, of 1] have "e_offset (sample_bucket ! 0) \<le> e_offset (sample_bucket ! 1)"
      by (simp only: K) simp
    then show False by (simp only: off) simp
  qed
  ultimately show ?thesis using s(1) by simp
qed

end
