(* ===== verification/Directory_Properties.thy ===== *)
theory Directory_Properties
  imports Directory_Choice
begin

text \<open>
  What the directory keeps and what its operations do: the invariant (four entries per
  bucket, even versions between mutations, an exact count of occupied entries) and its
  preservation, the effect of an insert and of the removals on the bucket of the key and on
  the others, and the round trip of the memory image.
\<close>

section \<open>Invariant\<close>

definition live :: "DirEntry list \<Rightarrow> nat" where
  "live es = length (filter (\<lambda>e. \<not> is_empty e) es)"

definition dir_wf :: "Directory \<Rightarrow> bool" where
  "dir_wf d \<longleftrightarrow> 0 < num_buckets d \<and> length (entries d) = num_buckets d * 4 \<and>
     length (versions d) = num_buckets d \<and> (\<forall>v \<in> set (versions d). even v) \<and> dir_count d = of_nat (live (entries d))"

lemma live_simps [simp]:
  "live [] = 0" "live (e # es) = (if is_empty e then live es else Suc (live es))" "live (xs @ ys) = live xs + live ys"
  by (simp_all add: live_def)

lemma is_empty_empty_entry [simp]: "is_empty empty_entry"
proof -
  have "e_offset empty_entry = 0"
    by (rule bit_word_eqI) (simp add: bit_e_offset empty_entry_def)
  then show ?thesis by (simp add: is_empty_def)
qed

lemma live_replicate_empty [simp]: "live (replicate n empty_entry) = 0"
  by (induction n) simp_all

lemma live_map_empty [simp]: "live (map (\<lambda>_. empty_entry) es) = 0"
  by (induction es) simp_all

lemma live_update: "i < length b \<Longrightarrow> live (b[i := e]) + (if is_empty (b ! i) then 0 else 1) = live b + (if is_empty e then 0 else 1)"
proof (induction b arbitrary: i)
  case Nil
  then show ?case by simp
next
  case (Cons x b)
  then show ?case by (cases i) auto
qed

lemma live_put_at:
  assumes "off + length b \<le> length es"
  shows "live (put_at off b es) + live (subspan off (length b) es) = live es + live b"
proof -
  have "es = take off es @ take (length b) (drop off es) @ drop (length b) (drop off es)"
    by (simp only: append_take_drop_id)
  then have "live es = live (take off es) + live (subspan off (length b) es) + live (drop (off + length b) es)"
    using arg_cong[of _ _ live] by (metis (no_types, lifting) add.assoc drop_drop live_simps(3) subspan_def add.commute)
  then show ?thesis
    by (simp add: put_at_def)
qed

lemma bucket_idx_less: "dir_wf d \<Longrightarrow> bucket_idx key d < num_buckets d"
  by (simp add: dir_wf_def bucket_idx_def)

lemma bucket_fits: "dir_wf d \<Longrightarrow> i < num_buckets d \<Longrightarrow> i * 4 + 4 \<le> length (entries d)"
  by (simp add: dir_wf_def)

lemma length_bucket_at [simp]: "dir_wf d \<Longrightarrow> i < num_buckets d \<Longrightarrow> length (bucket_at i d) = 4"
  using bucket_fits[of d i] by (simp add: bucket_at_def)

section \<open>Bracketed updates of a bucket\<close>

lemma bracket_fields [simp]:
  "num_buckets (bracket i b d) = num_buckets d" "dir_count (bracket i b d) = dir_count d"
  "dir_phase (bracket i b d) = dir_phase d" "entries (bracket i b d) = put_at (i * 4) b (entries d)"
  by (simp_all add: bracket_def end_bucket_write_def begin_bucket_write_def store_bucket_def)

lemma bracket_versions: "i < length (versions d) \<Longrightarrow> versions (bracket i b d) = (versions d)[i := versions d ! i + 2]"
  by (simp add: bracket_def end_bucket_write_def begin_bucket_write_def store_bucket_def add.assoc)

lemma bracket_bucket:
  assumes "dir_wf d" "i < num_buckets d" "length b = 4" "j < num_buckets d"
  shows "subspan (j * 4) 4 (put_at (i * 4) b (entries d)) = (if j = i then b else bucket_at j d)"
proof (rule nth_equalityI)
  have l: "length (put_at (i * 4) b (entries d)) = length (entries d)"
    using bucket_fits[OF assms(1,2)] assms(3) by simp
  have j: "j * 4 + 4 \<le> length (entries d)" using bucket_fits[OF assms(1,4)] .
  show "length (subspan (j * 4) 4 (put_at (i * 4) b (entries d))) = length (if j = i then b else bucket_at j d)"
    using l j assms by simp
  fix k
  assume "k < length (subspan (j * 4) 4 (put_at (i * 4) b (entries d)))"
  then have k: "k < 4" by simp
  have "i * 4 \<le> j * 4 + k \<and> j * 4 + k < i * 4 + 4 \<longleftrightarrow> j = i" using k by auto
  then show "subspan (j * 4) 4 (put_at (i * 4) b (entries d)) ! k = (if j = i then b else bucket_at j d) ! k"
    using k j l bucket_fits[OF assms(1,2)] assms(3) by (simp add: nth_subspan nth_put_at bucket_at_def)
qed

lemma bracket_wf:
  assumes d: "dir_wf d" "i < num_buckets d" "length b = 4" and n: "c = dir_count d - of_nat (live (bucket_at i d)) + of_nat (live b)"
  shows "dir_wf ((bracket i b d)\<lparr>dir_count := c\<rparr>)"
proof -
  have "live (put_at (i * 4) b (entries d)) + live (bucket_at i d) = live (entries d) + live b"
    using live_put_at[of "i * 4" b "entries d"] bucket_fits[OF d(1,2)] d(3) by (simp add: bucket_at_def)
  then have "(of_nat (live (put_at (i * 4) b (entries d))) :: u64) + of_nat (live (bucket_at i d)) =
      of_nat (live (entries d)) + of_nat (live b)"
    by (metis of_nat_add)
  then have "c = of_nat (live (put_at (i * 4) b (entries d)))"
    using d(1) by (simp add: n dir_wf_def algebra_simps)
  moreover have "even v" if "v \<in> set ((versions d)[i := versions d ! i + 2])" for v
  proof -
    have "i < length (versions d)" using d by (simp add: dir_wf_def)
    then have "v \<in> set (versions d) \<or> v = versions d ! i + 2" "even (versions d ! i)"
      using set_update_subset_insert[of "versions d" i "versions d ! i + 2"] that d(1) by (auto simp: dir_wf_def)
    then show ?thesis using d(1) by (auto simp: dir_wf_def)
  qed
  ultimately show ?thesis
    using d bucket_fits[OF d(1,2)] by (simp add: dir_wf_def bracket_versions)
qed

section \<open>Entries written by an insert\<close>

lemma set_approx_size_keeps [simp]:
  "e_offset (set_approx_size n e) = e_offset e" "e_tag (set_approx_size n e) = e_tag e"
  "e_phase (set_approx_size n e) = e_phase e" "e_head (set_approx_size n e) = e_head e"
  "e_pinned (set_approx_size n e) = e_pinned e" "e_fill_serial (set_approx_size n e) = e_fill_serial e"
  by (simp_all add: set_approx_size_def Let_def)

lemma updated_entry_fields [simp]:
  "e_offset (updated_entry off sz serial phase e) = take_bit 40 off" "e_tag (updated_entry off sz serial phase e) = e_tag e"
  "e_phase (updated_entry off sz serial phase e) = phase" "e_fill_serial (updated_entry off sz serial phase e) = serial"
  by (simp_all add: updated_entry_def)

lemma retagged_entry_fields [simp]:
  "e_offset (retagged_entry off sz serial tag phase e) = take_bit 40 off"
  "e_tag (retagged_entry off sz serial tag phase e) = take_bit 12 tag"
  "e_phase (retagged_entry off sz serial tag phase e) = phase" "e_head (retagged_entry off sz serial tag phase e)"
  "e_fill_serial (retagged_entry off sz serial tag phase e) = serial"
  by (simp_all add: retagged_entry_def)

lemma take_bit_key_tag [simp]: "take_bit 12 (key_tag k) = key_tag k"
  by (rule bit_word_eqI) (auto simp: bit_take_bit_iff key_tag_def mask_16)

lemma cleanup_spec:
  assumes "cleanup s tag off clr i b = (b', n)"
  shows "length b' = length b \<and> live b' + n = live b \<and>
    (\<forall>j < length b. b' ! j = (if is_duplicate s tag off clr (i + j) (b ! j) then empty_entry else b ! j))"
  using assms
proof (induction s tag off clr i b arbitrary: b' n rule: cleanup.induct)
  case (1 s tag off clr i)
  then show ?case by simp
next
  case (2 s tag off clr i e es)
  obtain es' m where r: "cleanup s tag off clr (i + 1) es = (es', m)" by force
  note ih = 2(1)[OF r]
  show ?case
  proof (cases "is_duplicate s tag off clr i e")
    case True
    then have "\<not> is_empty e" by (simp add: is_duplicate_def)
    then show ?thesis
      using True 2(2) ih r by (auto simp: less_Suc_eq_0_disj)
  next
    case False
    then show ?thesis
      using 2(2) ih r by (auto simp: less_Suc_eq_0_disj)
  qed
qed

definition new_entry_ok :: "CacheKey \<Rightarrow> u64 \<Rightarrow> u16 \<Rightarrow> bool \<Rightarrow> DirEntry \<Rightarrow> bool" where
  "new_entry_ok key off serial phase e \<longleftrightarrow>
     e_offset e = take_bit 40 off \<and> e_tag e = key_tag key \<and> e_phase e = phase \<and> e_fill_serial e = serial"

text \<open>The bucket after an insert that chose slot s, and how many entries it gained or lost.\<close>

lemma insert_bucket:
  assumes len: "length b = 4" and off: "take_bit 40 off \<noteq> 0"
    and c: "c = choose_insert_slot b (key_tag key) voff classify off" and s: "slot c = Some s"
    and e: "e = (if verified c then updated_entry off sz serial phase (b ! s)
      else retagged_entry off sz serial (key_tag key) phase empty_entry)"
    and r: "cleanup s (key_tag key) off clr 0 (b[s := e]) = (b', n)"
  shows "s < 4" "new_entry_ok key off serial phase e" "length b' = 4" "b' ! s = e"
    "live b' + n = live b + (if replaces c then 0 else 1)"
    "i < 4 \<Longrightarrow> i \<noteq> s \<Longrightarrow> b' ! i = (if is_duplicate s (key_tag key) off clr i (b ! i) then empty_entry else b ! i)"
proof -
  let ?K = "\<lambda>i. kind classify (key_tag key) voff off (b ! i)"
  have best: "best_choice ?K (\<lambda>i. e_offset (b ! i)) 4 c"
    using choose_insert_slot_best[OF refl, of b classify "key_tag key" voff off] len c by fastforce
  then have ch: "s < 4" "verified c \<longleftrightarrow> ?K s = KVerified" "replaces c \<longleftrightarrow> ?K s \<noteq> KEmpty"
    using s by (simp_all add: best_choice_def best_slot_def)
  then show s4: "s < 4" by simp
  have ver: "e_tag (b ! s) = key_tag key" if "verified c"
    using ch(2) that by (simp add: kind_def is_verified_def split: if_splits)
  show ok: "new_entry_ok key off serial phase e"
    using ver by (simp add: e new_entry_ok_def)
  note cl = cleanup_spec[OF r]
  show "length b' = 4" using cl len by simp
  have ne: "\<not> is_empty e" using ok off by (simp add: new_entry_ok_def is_empty_def)
  have "is_empty (b ! s) \<longleftrightarrow> \<not> replaces c"
    using ch(3) by (simp add: kind_def)
  then show "live b' + n = live b + (if replaces c then 0 else 1)"
    using live_update[of s b e] ne s4 len cl by (simp split: if_splits)
  show "b' ! s = e"
    using cl s4 len by (simp add: is_duplicate_def)
  show "b' ! i = (if is_duplicate s (key_tag key) off clr i (b ! i) then empty_entry else b ! i)" if "i < 4" "i \<noteq> s"
    using cl that len by simp
qed

lemma insert_admitted_cases:
  assumes wf: "dir_wf d" and off: "take_bit 40 off \<noteq> 0"
    and r: "insert_admitted key off sz voff classify clr view serial d = (res, d')"
    and idx: "idx = bucket_idx key d"
  obtains (stale) "stale res" "\<not> inserted res" "d' = d"
  | (ok) s e b' where "inserted res" "\<not> stale res" "s < 4" "new_entry_ok key off serial (dir_phase d) e" "length b' = 4" "b' ! s = e"
      "\<And>i. i < 4 \<Longrightarrow> i \<noteq> s \<Longrightarrow>
        b' ! i = (if is_duplicate s (key_tag key) off clr i (bucket_at idx d ! i) then empty_entry else bucket_at idx d ! i)"
      "d' = (bracket idx b' d)\<lparr>dir_count := dir_count d - of_nat (live (bucket_at idx d)) + of_nat (live b')\<rparr>"
      "best_slot (\<lambda>i. kind classify (key_tag key) voff off (bucket_at idx d ! i)) (\<lambda>i. e_offset (bucket_at idx d ! i)) 4 s"
      "case view of None \<Rightarrow> True | Some seen \<Rightarrow> publish_view_is_current (bucket_at idx d) (key_tag key) voff classify seen off"
      "\<exists>e0. e = updated_entry off sz serial (dir_phase d) e0 \<or> e = retagged_entry off sz serial (key_tag key) (dir_phase d) e0"
proof -
  let ?b = "bucket_at idx d" and ?tag = "key_tag key"
  let ?stale = "case view of None \<Rightarrow> False | Some seen \<Rightarrow> \<not> publish_view_is_current ?b ?tag voff classify seen off"
  define c where "c = choose_insert_slot ?b ?tag voff classify off"
  have len: "length ?b = 4" using wf bucket_idx_less[OF wf] by (simp add: idx)
  have best: "best_choice (\<lambda>i. kind classify ?tag voff off (?b ! i)) (\<lambda>i. e_offset (?b ! i)) 4 c"
    using choose_insert_slot_best[OF refl, of ?b classify ?tag voff off] len by (fastforce simp: c_def)
  then obtain s where s: "slot c = Some s" by (auto simp: best_choice_def split: option.splits)
  have bs: "best_slot (\<lambda>i. kind classify ?tag voff off (?b ! i)) (\<lambda>i. e_offset (?b ! i)) 4 s"
    using best s by (simp add: best_choice_def)
  define e where "e = (if verified c then updated_entry off sz serial (dir_phase d) (?b ! s)
      else retagged_entry off sz serial ?tag (dir_phase d) empty_entry)"
  obtain b' n where cl: "cleanup s ?tag off clr 0 (?b[s := e]) = (b', n)" by force
  note ib = insert_bucket[OF len off c_def s e_def cl]
  show thesis
  proof (cases ?stale)
    case True
    then have "res = \<lparr>inserted = False, stale = True, evicted_collider = False, evicted_full = False\<rparr>" "d' = d"
      using r by (simp_all add: insert_admitted_def Let_def idx split: option.splits)
    then show thesis by (intro stale) simp_all
  next
    case False
    let ?d = "bracket idx b' d"
    have d': "d' = ?d\<lparr>dir_count := dir_count d + (if replaces c then 0 else 1) - of_nat n\<rparr>" "inserted res" "\<not> stale res"
      using r False s cl
      by (auto simp: insert_admitted_def Let_def idx[symmetric] c_def[symmetric] e_def[symmetric] split: option.splits if_splits)
    have "(of_nat (live b') :: u64) + of_nat n = of_nat (live ?b) + (if replaces c then 0 else 1)"
      using arg_cong[OF ib(5), of "of_nat :: nat \<Rightarrow> u64"] by (simp split: if_splits)
    then have "dir_count d + (if replaces c then 0 else 1) - of_nat n = dir_count d - of_nat (live ?b) + of_nat (live b')"
      by (simp add: algebra_simps)
    moreover have "case view of None \<Rightarrow> True | Some seen \<Rightarrow> publish_view_is_current ?b ?tag voff classify seen off"
      using False by (simp split: option.splits)
    moreover have "\<exists>e0. e = updated_entry off sz serial (dir_phase d) e0 \<or> e = retagged_entry off sz serial ?tag (dir_phase d) e0"
      by (auto simp: e_def)
    ultimately show thesis
      using ok[OF d'(2,3) ib(1,2,3,4) ib(6) _ bs] d'(1) by simp
  qed
qed

section \<open>Operations on one bucket\<close>

text \<open>
  An operation on the directory touches at most the bucket of its key, and brackets the
  change: the contract the lock-free readers and the read path's version re-check rely on.
\<close>

definition bracketed :: "nat \<Rightarrow> Directory \<Rightarrow> Directory \<Rightarrow> bool" where
  "bracketed i d d' \<longleftrightarrow> d' = d \<or> (\<exists>b c. length b = 4 \<and> d' = (bracket i b d)\<lparr>dir_count := c\<rparr>)"

lemma bracketedI: "length b = 4 \<Longrightarrow> bracketed i d ((bracket i b d)\<lparr>dir_count := c\<rparr>)"
  by (auto simp: bracketed_def)

lemma bracketed_refl: "bracketed i d d"
  by (simp add: bracketed_def)

lemma bracketedI_count: "length b = 4 \<Longrightarrow> bracketed i d (bracket i b d)"
proof -
  assume "length b = 4"
  moreover have "bracket i b d = (bracket i b d)\<lparr>dir_count := dir_count (bracket i b d)\<rparr>"
    by (cases "bracket i b d") simp
  ultimately show ?thesis
    by (metis bracketedI)
qed

locale bucket_operation =
  fixes op :: "CacheKey \<Rightarrow> Directory \<Rightarrow> Directory"
  assumes op_bracketed: "dir_wf d \<Longrightarrow> bracketed (bucket_idx k d) d (op k d)"
begin

lemma op_shape:
  assumes "dir_wf d"
  shows "num_buckets (op k d) = num_buckets d" "dir_phase (op k d) = dir_phase d" "bucket_idx k' (op k d) = bucket_idx k' d"
  using op_bracketed[OF assms, of k] by (auto simp: bracketed_def bucket_idx_def)

lemma op_elsewhere:
  assumes "dir_wf d" and "j < num_buckets d" and "j \<noteq> bucket_idx k d"
  shows "bucket_at j (op k d) = bucket_at j d" "versions (op k d) ! j = versions d ! j"
proof -
  have "length (versions d) = num_buckets d" using assms(1) by (simp add: dir_wf_def)
  then show "bucket_at j (op k d) = bucket_at j d" "versions (op k d) ! j = versions d ! j"
    using op_bracketed[OF assms(1), of k] bracket_bucket[OF assms(1) bucket_idx_less[OF assms(1)] _ assms(2)]
      assms bucket_idx_less[OF assms(1), of k]
    by (auto simp: bracketed_def bucket_at_def bracket_versions)
qed

lemma op_elsewhere_probe:
  assumes "dir_wf d" and "bucket_idx k' d \<noteq> bucket_idx k d"
  shows "probe_all k' (op k d) = probe_all k' d" "probe_all_phases k' (op k d) = probe_all_phases k' d"
  using op_elsewhere(1)[OF assms(1) bucket_idx_less[OF assms(1)] assms(2)] op_shape[OF assms(1)]
  by (simp_all add: probe_all_def probe_all_phases_def)

lemma op_version:
  assumes "dir_wf d" and "bucket_version k' (op k d) = bucket_version k' d"
  shows "bucket_at (bucket_idx k' d) (op k d) = bucket_at (bucket_idx k' d) d"
proof (cases "bucket_idx k' d = bucket_idx k d")
  case True
  have "length (versions d) = num_buckets d" "0 < num_buckets d" using assms(1) by (simp_all add: dir_wf_def)
  moreover have "(v :: u32) + 2 \<noteq> v" for v by simp
  ultimately have "op k d = d"
    using op_bracketed[OF assms(1), of k] assms(2) True op_shape[OF assms(1)] bucket_idx_less[OF assms(1), of k]
    by (auto simp: bracketed_def bucket_version_def bracket_versions)
  then show ?thesis by simp
next
  case False
  then show ?thesis
    using op_elsewhere(1)[OF assms(1) bucket_idx_less[OF assms(1)] False] by simp
qed

end

lemma insert_admitted_bracketed:
  assumes wf: "dir_wf d"
  shows "bracketed (bucket_idx key d) d (snd (insert_admitted key off sz voff classify clr view serial d))"
proof -
  let ?idx = "bucket_idx key d" and ?tag = "key_tag key"
  let ?b = "bucket_at ?idx d"
  define c where "c = choose_insert_slot ?b ?tag voff classify off"
  have len: "length ?b = 4" using wf bucket_idx_less[OF wf] by simp
  show ?thesis
  proof (cases "(case view of None \<Rightarrow> False | Some seen \<Rightarrow> \<not> publish_view_is_current ?b ?tag voff classify seen off) \<or> slot c = None")
    case True
    then have "snd (insert_admitted key off sz voff classify clr view serial d) = d"
      by (auto simp: insert_admitted_def Let_def c_def split: option.splits)
    then show ?thesis by (simp add: bracketed_def)
  next
    case False
    then obtain s where s: "slot c = Some s" by auto
    define e where "e = (if verified c then updated_entry off sz serial (dir_phase d) (?b ! s)
        else retagged_entry off sz serial ?tag (dir_phase d) empty_entry)"
    obtain b' n where cl: "cleanup s ?tag off clr 0 (?b[s := e]) = (b', n)" by force
    have "\<exists>k. snd (insert_admitted key off sz voff classify clr view serial d) = (bracket ?idx b' d)\<lparr>dir_count := k\<rparr>"
      using False s cl
      by (auto simp: insert_admitted_def Let_def c_def[symmetric] e_def[symmetric] split: option.splits if_splits
          intro: exI[of _ "dir_count d"])
    moreover have "length b' = 4" using cleanup_spec[OF cl] len by simp
    ultimately show ?thesis by (auto simp: bracketed_def)
  qed
qed

lemma insert_legacy_bracketed:
  assumes wf: "dir_wf d"
  shows "bracketed (bucket_idx key d) d (snd (insert_legacy key off sz voff serial d))"
  using wf bucket_idx_less[OF wf, of key]
  by (auto simp: insert_legacy_def Let_def intro: bracketedI bracketedI_count split: option.split)
    (simp add: bracketed_refl)

lemma clear_matching_spec:
  "clear_matching tag off b = (b', n) \<Longrightarrow> length b' = length b \<and> live b' + n = live b \<and>
    b' = map (\<lambda>e. if \<not> is_empty e \<and> e_tag e = tag \<and> e_offset e = off then empty_entry else e) b"
  by (induction tag off b arbitrary: b' n rule: clear_matching.induct) (auto split: prod.splits if_splits)

lemma dir_remove_bracketed: "dir_wf d \<Longrightarrow> bracketed (bucket_idx key d) d (snd (dir_remove key d))"
  using bucket_idx_less[of d key]
  by (cases "find_tag (key_tag key) 0 (bucket_at (bucket_idx key d) d)")
    (auto simp: dir_remove_def Let_def bracketed_refl intro: bracketedI)

lemma dir_remove_at_bracketed: "dir_wf d \<Longrightarrow> bracketed (bucket_idx key d) d (snd (dir_remove_at key off d))"
  using bucket_idx_less[of d key] clear_matching_spec[of "key_tag key" off "bucket_at (bucket_idx key d) d"]
  by (cases "clear_matching (key_tag key) off (bucket_at (bucket_idx key d) d)")
    (auto simp: dir_remove_at_def Let_def bracketed_refl intro: bracketedI)

interpretation ins: bucket_operation "\<lambda>k d. snd (insert_admitted k off sz voff classify clr view serial d)"
  for off sz voff classify clr view serial
  by unfold_locales (rule insert_admitted_bracketed)

interpretation leg: bucket_operation "\<lambda>k d. snd (insert_legacy k off sz voff serial d)" for off sz voff serial
  by unfold_locales (rule insert_legacy_bracketed)

interpretation rem: bucket_operation "\<lambda>k d. snd (dir_remove k d)"
  by unfold_locales (rule dir_remove_bracketed)

interpretation rem_at: bucket_operation "\<lambda>k d. snd (dir_remove_at k off d)" for off
  by unfold_locales (rule dir_remove_at_bracketed)

section \<open>The count\<close>

lemma bracket_same_count: "(bracket i b d)\<lparr>dir_count := dir_count d\<rparr> = bracket i b d"
  by (cases d) (simp add: bracket_def end_bucket_write_def begin_bucket_write_def store_bucket_def)

lemma bracket_wf_keep:
  assumes "dir_wf d" "i < num_buckets d" "s < 4" and "is_empty e \<longleftrightarrow> is_empty (bucket_at i d ! s)"
  shows "dir_wf (bracket i ((bucket_at i d)[s := e]) d)"
proof -
  have "live ((bucket_at i d)[s := e]) = live (bucket_at i d)"
    using live_update[of s "bucket_at i d" e] assms by (simp split: if_splits)
  then have "dir_wf ((bracket i ((bucket_at i d)[s := e]) d)\<lparr>dir_count := dir_count d\<rparr>)"
    using assms by (intro bracket_wf) simp_all
  then show ?thesis by (simp only: bracket_same_count)
qed

lemma bracket_wf_fill:
  assumes "dir_wf d" "i < num_buckets d" "s < 4" "is_empty (bucket_at i d ! s)" "\<not> is_empty e"
  shows "dir_wf ((bracket i ((bucket_at i d)[s := e]) d)\<lparr>dir_count := dir_count d + 1\<rparr>)"
  using assms live_update[of s "bucket_at i d" e] by (intro bracket_wf) simp_all

text \<open>The slots the current-phase scan remembers.\<close>

definition legacy_inv :: "DirEntry list \<Rightarrow> legacy_state \<Rightarrow> bool" where
  "legacy_inv b st \<longleftrightarrow>
     (\<forall>j. leg_empty st = Some j \<longrightarrow> j < length b \<and> is_empty (b ! j)) \<and>
     (\<forall>j. leg_stale st = Some j \<or> leg_collider st = Some j \<or> leg_target st = Some j \<or> leg_nearest st = Some j \<longrightarrow>
        j < length b \<and> \<not> is_empty (b ! j))"

lemma legacy_scan_inv:
  "legacy_inv b st \<Longrightarrow> i + length es = length b \<Longrightarrow> drop i b = es \<Longrightarrow> legacy_inv b (legacy_scan tag phase voff i es st)"
proof (induction tag phase voff i es st rule: legacy_scan.induct)
  case (1 tag phase voff i st)
  then show ?case by simp
next
  case (2 tag phase voff i e es st)
  have e: "b ! i = e" "drop (i + 1) b = es" "i < length b"
    using 2(5,6) nth_via_drop[of i b e es] drop_Suc[of i b] tl_drop[of i b] by (simp_all add: drop_tl)
  let ?st = "if leg_nearest st = None \<or> e_offset e < leg_nearest_offset st
      then st\<lparr>leg_nearest := Some i, leg_nearest_offset := e_offset e\<rparr> else st"
  have l: "i + 1 + length es = length b" using 2(5) by simp
  show ?case
  proof (cases "is_empty e")
    case True
    have "legacy_inv b (st\<lparr>leg_empty := or_else (leg_empty st) i\<rparr>)"
      using 2(4) True e by (auto simp: legacy_inv_def or_else_def split: option.splits)
    then show ?thesis
      using 2(1)[OF True _ l e(2)] True by simp
  next
    case False
    have st: "legacy_inv b ?st"
      using 2(4) False e by (auto simp: legacy_inv_def)
    have coll: "legacy_inv b (?st\<lparr>leg_collider := or_else (leg_collider ?st) i\<rparr>)"
      and stl: "legacy_inv b (?st\<lparr>leg_stale := or_else (leg_stale ?st) i\<rparr>)"
      and tgt: "legacy_inv b (?st\<lparr>leg_target := Some i\<rparr>)"
      using st False e by (auto simp: legacy_inv_def or_else_def split: option.splits)
    show ?thesis
      using False st coll stl tgt 2(2)[OF False refl _ _ coll l e(2)] 2(3)[OF False refl _ _ l e(2)]
      by (auto simp: Let_def)
  qed
qed

lemma not_empty_new [simp]:
  "take_bit 40 off \<noteq> 0 \<Longrightarrow> \<not> is_empty (updated_entry off sz serial phase e)"
  "take_bit 40 off \<noteq> 0 \<Longrightarrow> \<not> is_empty (retagged_entry off sz serial tag phase e)"
  by (simp_all add: is_empty_def)

lemma insert_admitted_wf:
  assumes "dir_wf d" and "take_bit 40 off \<noteq> 0"
  shows "dir_wf (snd (insert_admitted key off sz voff classify clr view serial d))"
proof -
  obtain res d' where r: "insert_admitted key off sz voff classify clr view serial d = (res, d')" by force
  from assms r refl[of "bucket_idx key d"] show ?thesis
  proof (cases rule: insert_admitted_cases)
    case stale
    then show ?thesis using assms r by simp
  next
    case (ok s e b')
    then show ?thesis
      using r bracket_wf[OF assms(1) bucket_idx_less[OF assms(1)] ok(5) refl] by simp
  qed
qed

lemma insert_legacy_wf:
  assumes wf: "dir_wf d" and off: "take_bit 40 off \<noteq> 0"
  shows "dir_wf (snd (insert_legacy key off sz voff serial d))"
proof -
  let ?i = "bucket_idx key d"
  let ?b = "bucket_at ?i d"
  let ?st = "legacy_scan (key_tag key) (dir_phase d) voff 0 ?b legacy_start"
  have i: "?i < num_buckets d" and l: "length ?b = 4" using bucket_idx_less[OF wf] wf by simp_all
  have inv: "legacy_inv ?b ?st"
    by (rule legacy_scan_inv) (simp_all add: legacy_inv_def legacy_start_def)
  have some: "j < 4 \<and> \<not> is_empty (?b ! j)" if "leg_stale ?st = Some j \<or> leg_collider ?st = Some j \<or> leg_target ?st = Some j \<or> leg_nearest ?st = Some j" for j
    using inv that l by (auto simp: legacy_inv_def)
  have emp: "j < 4 \<and> is_empty (?b ! j)" if "leg_empty ?st = Some j" for j
    using inv that l by (auto simp: legacy_inv_def)
  note keep = bracket_wf_keep[OF wf i] and fill = bracket_wf_fill[OF wf i]
  show ?thesis
    using some emp off wf by (auto simp: insert_legacy_def Let_def intro!: keep fill split: option.splits)
qed

lemma find_tag_some: "find_tag tag i b = Some j \<Longrightarrow> i \<le> j \<and> j < i + length b \<and> \<not> is_empty (b ! (j - i)) \<and> e_tag (b ! (j - i)) = tag"
proof (induction tag i b rule: find_tag.induct)
  case (1 tag i)
  then show ?case by simp
next
  case (2 tag i e es)
  then show ?case by (auto simp: nth_Cons' Suc_le_eq split: if_splits)
qed

lemma dir_remove_wf:
  assumes wf: "dir_wf d"
  shows "dir_wf (snd (dir_remove key d))"
proof (cases "find_tag (key_tag key) 0 (bucket_at (bucket_idx key d) d)")
  case None
  then show ?thesis using wf by (simp add: dir_remove_def)
next
  case (Some j)
  let ?i = "bucket_idx key d"
  have i: "?i < num_buckets d" using bucket_idx_less[OF wf] .
  have j: "j < 4" "\<not> is_empty (bucket_at ?i d ! j)"
    using find_tag_some[OF Some] wf i by simp_all
  have "live ((bucket_at ?i d)[j := empty_entry]) + 1 = live (bucket_at ?i d)"
    using live_update[of j "bucket_at ?i d" empty_entry] j wf i by simp
  from arg_cong[OF this[symmetric], of "of_nat :: nat \<Rightarrow> u64"]
  have "dir_wf ((bracket ?i ((bucket_at ?i d)[j := empty_entry]) d)\<lparr>dir_count := dir_count d - 1\<rparr>)"
    using wf i by (intro bracket_wf) (simp_all add: algebra_simps)
  then show ?thesis by (simp add: dir_remove_def Some Let_def)
qed

lemma dir_remove_at_wf:
  assumes wf: "dir_wf d"
  shows "dir_wf (snd (dir_remove_at key off d))"
proof -
  let ?i = "bucket_idx key d"
  obtain b n where cl: "clear_matching (key_tag key) off (bucket_at ?i d) = (b, n)" by force
  note sp = clear_matching_spec[OF cl]
  have i: "?i < num_buckets d" using bucket_idx_less[OF wf] .
  have "(of_nat (live (bucket_at ?i d)) :: u64) = of_nat (live b) + of_nat n"
    using sp by (metis of_nat_add)
  then have "dir_wf ((bracket ?i b d)\<lparr>dir_count := dir_count d - of_nat n\<rparr>)"
    using wf i sp by (intro bracket_wf) (simp_all add: algebra_simps)
  then show ?thesis
    using wf by (simp add: dir_remove_at_def cl Let_def)
qed

section \<open>Reachable directories\<close>

inductive dir_reachable :: "nat \<Rightarrow> Directory \<Rightarrow> bool" for n where
  fresh: "dir_reachable n (make_directory n)"
| cleared: "dir_reachable n d \<Longrightarrow> dir_reachable n (dir_clear d)"
| insert: "dir_reachable n d \<Longrightarrow> take_bit 40 off \<noteq> 0 \<Longrightarrow>
    dir_reachable n (snd (dir_insert key off sz voff admission clr view serial d))"
| remove: "dir_reachable n d \<Longrightarrow> dir_reachable n (snd (dir_remove key d))"
| remove_at: "dir_reachable n d \<Longrightarrow> dir_reachable n (snd (dir_remove_at key off d))"
| toggle: "dir_reachable n d \<Longrightarrow> dir_reachable n (toggle_phase d)"
| phase: "dir_reachable n d \<Longrightarrow> dir_reachable n (set_current_phase p d)"
| load: "dir_reachable n d \<Longrightarrow> dir_reachable n (dir_deserialize data d)"

lemma dir_insert_wf:
  "dir_wf d \<Longrightarrow> take_bit 40 off \<noteq> 0 \<Longrightarrow> dir_wf (snd (dir_insert key off sz voff admission clr view serial d))"
  by (simp add: dir_insert_def insert_admitted_wf insert_legacy_wf split: option.split)

lemma dir_deserialize_wf: "dir_wf d \<Longrightarrow> dir_wf (dir_deserialize data d)"
  by (simp add: dir_wf_def dir_deserialize_def Let_def live_def)

lemma dir_reachable_wf: "dir_reachable n d \<Longrightarrow> 0 < n \<Longrightarrow> dir_wf d"
proof (induction rule: dir_reachable.induct)
  case fresh
  then show ?case by (auto simp: dir_wf_def make_directory_def)
next
  case (cleared d)
  then show ?case by (simp add: dir_wf_def dir_clear_def)
qed (simp_all add: dir_insert_wf dir_remove_wf dir_remove_at_wf dir_deserialize_wf,
  simp_all add: dir_wf_def toggle_phase_def set_current_phase_def)

lemma snd_bracketed_shape: "bracketed i d d' \<Longrightarrow> num_buckets d' = num_buckets d"
  by (auto simp: bracketed_def)

lemma dir_reachable_buckets: "dir_reachable n d \<Longrightarrow> 0 < n \<Longrightarrow> num_buckets d = n"
proof (induction rule: dir_reachable.induct)
  case (insert d off key sz voff admission clr view serial)
  then have "bracketed (bucket_idx key d) d (snd (dir_insert key off sz voff admission clr view serial d))"
    using dir_reachable_wf[of n d]
    by (simp add: dir_insert_def insert_admitted_bracketed insert_legacy_bracketed split: option.split)
  then show ?case using insert by (simp add: snd_bracketed_shape)
next
  case (remove d key)
  then show ?case using snd_bracketed_shape[OF dir_remove_bracketed[OF dir_reachable_wf]] by simp
next
  case (remove_at d key off)
  then show ?case using snd_bracketed_shape[OF dir_remove_at_bracketed[OF dir_reachable_wf]] by simp
qed (simp_all add: make_directory_def dir_clear_def toggle_phase_def set_current_phase_def dir_deserialize_def Let_def)

section \<open>Properties\<close>

lemma subspan_concat_fixed:
  assumes "\<And>x. length (f x) = m"
  shows "i < length xs \<Longrightarrow> subspan (i * m) m (concat (map f xs)) = f (xs ! i)"
proof (induction xs arbitrary: i)
  case Nil
  then show ?case by simp
next
  case (Cons x xs)
  then show ?case
    using assms by (cases i) (simp_all add: subspan_def)
qed

lemma length_entry_bytes [simp]: "length (entry_bytes e) = 10"
  by (simp add: entry_bytes_def)

lemma entry_of_bytes_entry_bytes [simp]: "entry_of_bytes (entry_bytes e) = e"
  by (simp add: entry_of_bytes_def entry_bytes_def subspan_def)

lemma insert_without_view: "\<not> stale (fst (insert_admitted key off sz voff classify clr None serial d))"
  by (auto simp: insert_admitted_def Let_def split: option.splits prod.splits)

text \<open>
  C25.
  Directory invariant: in every directory reached from a fresh one of n buckets by any
  sequence of clears, inserts (of a nonzero 40-bit offset, with or without an admission),
  removals, phase changes and reloads, each bucket has four entries, every bucket version
  is even, and the count is exactly the number of occupied entries.
\<close>

theorem directory_invariant:
  assumes "dir_reachable n d" and "0 < n" and "n * 4 < 2 ^ 64"
  shows "num_buckets d = n \<and> length (entries d) = n * 4 \<and> (i < n \<longrightarrow> even (versions d ! i)) \<and>
    unat (dir_count d) = live (entries d)"
proof -
  have wf: "dir_wf d" and n: "num_buckets d = n"
    using dir_reachable_wf dir_reachable_buckets assms by simp_all
  have "live (entries d) \<le> length (entries d)" by (simp add: live_def)
  then have "live (entries d) < 2 ^ 64" using wf n assms(3) by (simp add: dir_wf_def)
  then have "unat (of_nat (live (entries d)) :: u64) = live (entries d)"
    by (simp add: unat_of_nat take_bit_nat_eq_self)
  then show ?thesis
    using wf n by (simp add: dir_wf_def)
qed

theorem directory_invariant_witness:
  "unat (dir_count (snd (dir_insert (CacheKey (replicate 32 1)) 4096 100 kNoVerifiedEntry None [] None 3 (make_directory 2)))) =
     live (entries (snd (dir_insert (CacheKey (replicate 32 1)) 4096 100 kNoVerifiedEntry None [] None 3 (make_directory 2))))"
proof -
  have "dir_reachable 2 (snd (dir_insert (CacheKey (replicate 32 1)) 4096 100 kNoVerifiedEntry None [] None 3 (make_directory 2)))"
    by (rule dir_reachable.insert[OF dir_reachable.fresh]) (simp add: take_bit_eq_mask mask_numeral)
  from directory_invariant[OF this, of 0] show ?thesis by simp
qed

text \<open>
  C24.
  An insert under the stripe's admission publishes exactly one entry for what it wrote:
  unless the publisher's view of the bucket went stale (then nothing changes), some slot of
  the key's bucket holds an entry with the key's tag, the given offset, fill serial and the
  current phase, a probe for the key finds it, every other entry with the key's tag at that
  offset or at an offset the caller listed for clearing is cleared, every remaining entry is
  as before, and all other buckets are untouched.
\<close>

theorem insert_publishes:
  assumes "dir_wf d" and "take_bit 40 off \<noteq> 0"
    and "insert_admitted key off sz voff classify clr view serial d = (res, d')" and "b = bucket_idx key d"
  shows "(\<not> inserted res \<longrightarrow> stale res \<and> d' = d) \<and>
    (inserted res \<longrightarrow> (\<exists>s < 4. new_entry_ok key off serial (dir_phase d) (bucket_at b d' ! s) \<and>
       bucket_at b d' ! s \<in> set (probe_all key d') \<and>
       (\<forall>i < 4. i \<noteq> s \<longrightarrow>
          (if \<not> is_empty (bucket_at b d ! i) \<and> e_tag (bucket_at b d ! i) = key_tag key \<and>
              e_offset (bucket_at b d ! i) \<in> insert off (set clr)
           then bucket_at b d' ! i = empty_entry else bucket_at b d' ! i = bucket_at b d ! i)))) \<and>
    (j < num_buckets d \<and> j \<noteq> b \<longrightarrow> bucket_at j d' = bucket_at j d)"
  using assms
proof (cases rule: insert_admitted_cases)
  case stale
  then show ?thesis by simp
next
  case (ok s e b')
  have b: "b < num_buckets d" using bucket_idx_less[OF assms(1)] assms(4) by simp
  have bk: "bucket_at k d' = (if k = b then b' else bucket_at k d)" if "k < num_buckets d" for k
    using bracket_bucket[OF assms(1) b ok(5) that] by (simp add: ok(8) bucket_at_def[of k "_ \<lparr>dir_count := _\<rparr>"])
  have "e \<in> set (probe_all key d')"
  proof -
    have "bucket_idx key d' = b" "dir_phase d' = dir_phase d"
      using assms(4) by (simp_all add: ok(8) bucket_idx_def)
    moreover have "e \<in> set b'" using ok(3,5,6) by (metis nth_mem)
    ultimately show ?thesis
      using ok(4) assms(2) bk[OF b] by (simp add: probe_all_def scan_entries_def new_entry_ok_def is_empty_def)
  qed
  moreover have "if \<not> is_empty (bucket_at b d ! i) \<and> e_tag (bucket_at b d ! i) = key_tag key \<and>
        e_offset (bucket_at b d ! i) \<in> insert off (set clr)
      then b' ! i = empty_entry else b' ! i = bucket_at b d ! i"
    if "i < 4" "i \<noteq> s" for i
    using ok(7)[OF that] that by (auto simp: is_duplicate_def list_ex_iff split: if_splits)
  ultimately show ?thesis
    using ok(1,3,4,6) bk[OF b] bk[of j] by auto
qed

theorem insert_publishes_witness:
  "probe_all (CacheKey (replicate 32 1)) (snd (insert_admitted (CacheKey (replicate 32 1)) 4096 100 kNoVerifiedEntry
     (\<lambda>off phase. kCurrent) [] None 3 (make_directory 2))) \<noteq> []"
proof -
  obtain res d' where r: "insert_admitted (CacheKey (replicate 32 1)) 4096 100 kNoVerifiedEntry
     (\<lambda>off phase. kCurrent) [] None 3 (make_directory 2) = (res, d')" by force
  have wf: "dir_wf (make_directory 2)" using dir_reachable_wf[OF dir_reachable.fresh, of 2] by simp
  have "\<not> stale res" using insert_without_view[of "CacheKey (replicate 32 1)" 4096 100 kNoVerifiedEntry "\<lambda>off phase. kCurrent" "[]" 3 "make_directory 2"] r by simp
  moreover have "take_bit 40 (4096 :: u64) \<noteq> 0" by (simp add: take_bit_eq_mask mask_numeral)
  ultimately show ?thesis
    using insert_publishes[OF wf _ r refl, of 0] r by force
qed

text \<open>
  C27.
  The bucket version detects a change: after an insert or removal, a bucket whose
  version reads the same as before holds the same entries, and probes of keys in other
  buckets are unaffected.
\<close>

theorem bucket_version_detects_change:
  assumes "dir_wf d"
    and "d' = snd (dir_insert key off sz voff admission clr view serial d) \<or> d' = snd (dir_remove key d) \<or>
      d' = snd (dir_remove_at key off d)"
  shows "(bucket_version k d' = bucket_version k d \<longrightarrow> bucket_at (bucket_idx k d) d' = bucket_at (bucket_idx k d) d) \<and>
    (bucket_idx k d \<noteq> bucket_idx key d \<longrightarrow> probe_all k d' = probe_all k d \<and> probe_all_phases k d' = probe_all_phases k d)"
  using assms(2)
proof (elim disjE)
  assume d': "d' = snd (dir_insert key off sz voff admission clr view serial d)"
  show ?thesis
    using ins.op_version[OF assms(1)] ins.op_elsewhere_probe[OF assms(1)]
      leg.op_version[OF assms(1)] leg.op_elsewhere_probe[OF assms(1)]
    by (cases admission) (simp_all add: d' dir_insert_def)
qed (simp_all add: rem.op_version rem.op_elsewhere_probe rem_at.op_version rem_at.op_elsewhere_probe assms(1))

theorem bucket_version_detects_change_witness:
  "bucket_at 0 (snd (dir_remove (CacheKey (replicate 32 1)) (make_directory 1))) = bucket_at 0 (make_directory 1)"
proof -
  have wf: "dir_wf (make_directory 1)" using dir_reachable_wf[OF dir_reachable.fresh, of 1] by simp
  have "dir_remove (CacheKey (replicate 32 1)) (make_directory 1) = (False, make_directory 1)"
    by (simp add: dir_remove_def Let_def make_directory_def bucket_at_def bucket_idx_def subspan_def numeral_eq_Suc)
  then show ?thesis
    using bucket_version_detects_change[OF wf, of "snd (dir_remove (CacheKey (replicate 32 1)) (make_directory 1))" "CacheKey (replicate 32 1)"
        0 0 0 None "[]" None 0 "CacheKey (replicate 32 1)"]
    by (simp add: bucket_idx_def make_directory_def)
qed

text \<open>
  C28.
  The directory's memory image round trips: loading what a directory serialised into one
  of the same size restores every entry and recomputes the exact count.
\<close>

theorem directory_image_roundtrip:
  assumes "length (entries d0) = length (entries d)"
  shows "entries (dir_deserialize (dir_serialize d) d0) = entries d \<and>
    dir_count (dir_deserialize (dir_serialize d) d0) = of_nat (live (entries d))"
proof -
  have len: "length (dir_serialize d) = length (entries d) * 10"
    by (simp add: dir_serialize_def length_concat o_def sum_list_triv)
  have "map (\<lambda>i. entry_of_bytes (subspan (i * 10) 10 (dir_serialize d))) [0 ..< length (entries d)] = entries d"
    by (rule nth_equalityI) (simp_all add: dir_serialize_def subspan_concat_fixed)
  then show ?thesis
    using assms by (simp add: dir_deserialize_def len Let_def live_def del: length_filter_map)
qed

theorem directory_image_roundtrip_witness:
  "entries (dir_deserialize (dir_serialize (make_directory 1)) (make_directory 1)) = entries (make_directory 1)"
  using directory_image_roundtrip[of "make_directory 1" "make_directory 1"] by simp

end
