(* ===== verification/Stripe_Writer.thy ===== *)
theory Stripe_Writer
  imports Stripe_State
begin

text \<open>
  The stateful operations of a stripe in src/src/core/volume.cpp: read leases and
  borrows, the wrap gate, the clean frontier, and the reservation of a write slot
  and its commit.  A volume's telemetry counters extend the stripe record.  The
  results of the cross-process write lock (MmapDirectory::acquire_write_lock and
  revalidate_write_lock) and of the monotonic clock are inputs of an operation,
  collected in a record; the theorems hold for all of them.
\<close>

section \<open>State, configuration and environment\<close>

record volume = stripe +
  m_write_lock_held :: bool
  v_wrap_count :: nat
  v_last_wrap_time_ns :: nat
  v_last_wrap_interval_ns :: nat
  v_min_wrap_interval_ns :: nat
  v_evictions :: nat
  v_wraps_forced_past_lease :: nat
  v_wraps_deferred_by_lease :: nat
  v_writes_dropped_by_lease :: nat
  v_advances_deferred_by_lease :: nat
  v_early_advances_skipped :: nat
  v_frontier_advances :: nat
  v_write_lock_force_releases :: nat
  v_write_lock_escalation_takeovers :: nat
  v_write_lock_live_holder_waits :: nat
  v_write_lock_usurp_aborts :: nat

record lease_config =
  c_lease_t_ns :: nat
  c_lease_ceiling_ns :: nat
  c_fill_large_document_tail :: bool

record WriteLockToken =
  wt_acquired :: bool
  wt_generation :: u16
  wt_forced_release :: bool
  wt_escalated_takeover :: bool
  wt_live_waits :: nat

text \<open>
  The environment of one call of allocate_write_slot: what the lock acquisition
  returned, the verdict of each revalidation in call order, and the clock value each
  reading site sees (0: the wrap of a repair, 1: the gate, 2: the wrap, 3: the
  early advance).
\<close>

record alloc_env =
  ae_token :: WriteLockToken
  ae_revalidate :: "nat \<Rightarrow> bool"
  ae_clock :: "nat \<Rightarrow> int"

definition steady_now_ns :: "int \<Rightarrow> nat" where
  "steady_now_ns now_ns = (if now_ns > 0 then nat now_ns else 1)"

section \<open>Leases and borrows\<close>

definition cas_max_lease :: "nat \<Rightarrow> nat \<Rightarrow> nat \<Rightarrow> nat" where
  "cas_max_lease cur new_expiry skip_if_at_least = (if cur < skip_if_at_least then new_expiry else cur)"

definition stamp_read_lease :: "lease_config \<Rightarrow> nat \<Rightarrow> 'z stripe_scheme \<Rightarrow> 'z stripe_scheme" where
  "stamp_read_lease cfg now v =
     (if c_lease_t_ns cfg = 0 then v
      else let new_expiry = now + c_lease_t_ns cfg;
               skip = now + c_lease_t_ns cfg - c_lease_t_ns cfg div 4
           in if s_use_mmap_directory v
              then v\<lparr>m_lease_expiry_ns := cas_max_lease (m_lease_expiry_ns v) new_expiry skip\<rparr>
              else v\<lparr>s_local_lease_expiry_ns := cas_max_lease (s_local_lease_expiry_ns v) new_expiry skip\<rparr>)"

record BorrowToken =
  bt_generation :: u8
  bt_counted :: bool
  bt_active :: bool
  bt_shard :: nat
  bt_chunk :: nat

definition no_token :: BorrowToken where
  "no_token = \<lparr>bt_generation = 0, bt_counted = False, bt_active = False, bt_shard = 0, bt_chunk = 0\<rparr>"

text \<open>The slot a token counts in, and its update.\<close>

definition borrow_slot_of :: "nat \<Rightarrow> nat \<Rightarrow> 'z stripe_scheme \<Rightarrow> u32" where
  "borrow_slot_of shard chunk v =
     (if s_use_mmap_directory v then m_chunk_borrows v chunk else s_local_borrow_shards v shard chunk)"

definition set_borrow_slot :: "nat \<Rightarrow> nat \<Rightarrow> u32 \<Rightarrow> 'z stripe_scheme \<Rightarrow> 'z stripe_scheme" where
  "set_borrow_slot shard chunk w v =
     (if s_use_mmap_directory v then v\<lparr>m_chunk_borrows := (m_chunk_borrows v)(chunk := w)\<rparr>
      else v\<lparr>s_local_borrow_shards := (s_local_borrow_shards v)(shard := (s_local_borrow_shards v shard)(chunk := w))\<rparr>)"

text \<open>The first argument is the calling thread's shard, thread_shard_index.\<close>

definition acquire_borrow :: "lease_config \<Rightarrow> nat \<Rightarrow> nat \<Rightarrow> 'z stripe_scheme \<Rightarrow> 'z stripe_scheme \<times> BorrowToken" where
  "acquire_borrow cfg thread_shard chunk v =
     (if c_lease_t_ns cfg = 0 then (v, no_token)
      else let chunk = (if chunk \<ge> kMaxChunks then kMaxChunks - 1 else chunk);
               shard = (if s_use_mmap_directory v then 0 else thread_shard mod kBorrowShards);
               r = slot_acquire (borrow_slot_of shard chunk v)
           in (set_borrow_slot shard chunk (fst r) v,
               \<lparr>bt_generation = acq_generation (snd r), bt_counted = acq_counted (snd r),
                bt_active = True, bt_shard = shard, bt_chunk = chunk\<rparr>))"

text \<open>The boolean says whether the volume still admits handle calls (it is not closing).\<close>

definition release_borrow :: "bool \<Rightarrow> BorrowToken \<Rightarrow> 'z stripe_scheme \<Rightarrow> 'z stripe_scheme" where
  "release_borrow admitted token v =
     (if \<not> bt_active token \<or> \<not> bt_counted token then v
      else if \<not> admitted then v
      else set_borrow_slot (bt_shard token) (bt_chunk token)
             (slot_release (bt_generation token) (borrow_slot_of (bt_shard token) (bt_chunk token) v)) v)"

definition wrap_intent_set :: "'z stripe_scheme \<Rightarrow> bool" where
  "wrap_intent_set v \<longleftrightarrow> (if s_use_mmap_directory v then m_wrap_intent v else s_local_wrap_intent v) \<noteq> 0"

definition borrow_still_counted :: "BorrowToken \<Rightarrow> 'z stripe_scheme \<Rightarrow> bool" where
  "borrow_still_counted token v \<longleftrightarrow>
     (if \<not> bt_active token then True
      else generation_of (borrow_slot_of (bt_shard token) (bt_chunk token) v) = bt_generation token)"

definition borrow_still_valid :: "nat \<Rightarrow> BorrowToken \<Rightarrow> 'z stripe_scheme \<Rightarrow> bool" where
  "borrow_still_valid threshold token v \<longleftrightarrow>
     \<not> wrap_intent_set v \<and> exposure_gen v \<le> threshold \<and> borrow_still_counted token v"

definition renew_read_lease :: "lease_config \<Rightarrow> nat \<Rightarrow> bool \<Rightarrow> nat \<Rightarrow> BorrowToken \<Rightarrow> 'z stripe_scheme \<Rightarrow> 'z stripe_scheme \<times> bool" where
  "renew_read_lease cfg now admitted threshold token v =
     (if c_lease_t_ns cfg = 0 then (v, False)
      else if \<not> admitted then (v, False)
      else if exposure_gen v > threshold then (v, False)
      else if \<not> borrow_still_counted token v then (v, False)
      else (stamp_read_lease cfg now v, True))"

datatype LeaseRenewal = kLeasesOff | kTorn | kCopyNow | kOk

definition renew_read_lease_strict :: "lease_config \<Rightarrow> nat \<Rightarrow> bool \<Rightarrow> nat \<Rightarrow> BorrowToken \<Rightarrow> 'z stripe_scheme \<Rightarrow> 'z stripe_scheme \<times> LeaseRenewal" where
  "renew_read_lease_strict cfg now admitted threshold token v =
     (if c_lease_t_ns cfg = 0 then (v, kLeasesOff)
      else if \<not> admitted then (v, kTorn)
      else let v = stamp_read_lease cfg now v;
               intent = wrap_intent_set v;
               epoch_moved = exposure_gen v > threshold
           in if epoch_moved then (v, kTorn)
              else if \<not> borrow_still_counted token v then (v, kTorn)
              else if intent then (v, kCopyNow)
              else (v, kOk))"

section \<open>The wrap gate\<close>

definition kIntentStep :: nat where "kIntentStep = 1"
definition kIntentWrapEven :: nat where "kIntentWrapEven = 2"
definition kIntentWrapOdd :: nat where "kIntentWrapOdd = 3"

definition set_wrap_intent_value :: "nat \<Rightarrow> 'z stripe_scheme \<Rightarrow> 'z stripe_scheme" where
  "set_wrap_intent_value x v =
     (if s_use_mmap_directory v then v\<lparr>m_wrap_intent := x\<rparr> else v\<lparr>s_local_wrap_intent := x\<rparr>)"

definition set_wrap_intent :: "bool \<Rightarrow> 'z stripe_scheme \<Rightarrow> 'z stripe_scheme" where
  "set_wrap_intent active v = set_wrap_intent_value (if active then kIntentStep else 0) v"

definition mark_wrap_committed :: "nat \<Rightarrow> 'z stripe_scheme \<Rightarrow> 'z stripe_scheme" where
  "mark_wrap_committed new_pass v =
     set_wrap_intent_value (if odd new_pass then kIntentWrapOdd else kIntentWrapEven) v"

definition store_exposure_gen :: "nat \<Rightarrow> 'z stripe_scheme \<Rightarrow> 'z stripe_scheme" where
  "store_exposure_gen gen v =
     (if s_use_mmap_directory v then v\<lparr>m_exposure_gen := gen\<rparr> else v\<lparr>s_local_exposure_gen := gen\<rparr>)"

definition publish_wrap_deferred_deadline :: "nat \<Rightarrow> 'z stripe_scheme \<Rightarrow> 'z stripe_scheme" where
  "publish_wrap_deferred_deadline deadline_ns v =
     (let deadline_ms = (if deadline_ns \<noteq> 0
             then let ms = (of_nat (deadline_ns div 1000000) :: u32) in if ms = 0 then 1 else ms
             else 0)
      in if s_use_mmap_directory v then v\<lparr>m_wrap_deferred_deadline_ms := deadline_ms\<rparr>
         else v\<lparr>s_local_wrap_deferred_deadline_ms := deadline_ms\<rparr>)"

definition end_deferral_episode :: "'z stripe_scheme \<Rightarrow> 'z stripe_scheme" where
  "end_deferral_episode v =
     (if s_wrap_deferred_since_ns v = 0 then v
      else publish_wrap_deferred_deadline 0 (v\<lparr>s_wrap_deferred_since_ns := 0\<rparr>))"

definition lease_expiry_ns :: "'z stripe_scheme \<Rightarrow> nat" where
  "lease_expiry_ns v = (if s_use_mmap_directory v then m_lease_expiry_ns v else s_local_lease_expiry_ns v)"

definition borrow_count :: "nat \<Rightarrow> nat \<Rightarrow> 'z stripe_scheme \<Rightarrow> nat" where
  "borrow_count chunk_lo chunk_hi v =
     (if s_use_mmap_directory v
      then sum_list (map (\<lambda>c. unat (count_of (m_chunk_borrows v c))) [chunk_lo ..< chunk_hi])
      else sum_list (map (\<lambda>shard.
             sum_list (map (\<lambda>c. unat (count_of (s_local_borrow_shards v shard c))) [chunk_lo ..< chunk_hi]))
             [0 ..< kBorrowShards]))"

definition force_reset_all :: "'z stripe_scheme \<Rightarrow> 'z stripe_scheme" where
  "force_reset_all v =
     (if s_use_mmap_directory v
      then v\<lparr>m_chunk_borrows := (\<lambda>c. if c < kMaxChunks then fst (slot_force_reset (m_chunk_borrows v c))
                                      else m_chunk_borrows v c)\<rparr>
      else v\<lparr>s_local_borrow_shards := (\<lambda>shard c.
              if shard < kBorrowShards \<and> c < kMaxChunks
              then fst (slot_force_reset (s_local_borrow_shards v shard c))
              else s_local_borrow_shards v shard c)\<rparr>)"

text \<open>
  The result is True when the writer may expose the chunks lo .. hi - 1.  A
  mandatory step (episode) that has been held up longer than the ceiling passes
  anyway, after resetting every borrow slot.
\<close>

definition lease_gate :: "lease_config \<Rightarrow> nat \<Rightarrow> nat \<Rightarrow> nat \<Rightarrow> bool \<Rightarrow> volume \<Rightarrow> volume \<times> bool" where
  "lease_gate cfg now chunk_lo chunk_hi episode v =
     (if c_lease_t_ns cfg = 0 then (v, True)
      else
        let chunk_hi = min chunk_hi kMaxChunks;
            expiry = lease_expiry_ns v;
            borrows = borrow_count chunk_lo chunk_hi v;
            lease_active = (expiry \<noteq> 0 \<and> expiry > now
                            \<and> expiry \<le> now + c_lease_t_ns cfg + c_lease_ceiling_ns cfg);
            borrows_outstanding = (borrows \<noteq> 0)
        in if \<not> lease_active \<or> \<not> borrows_outstanding then (end_deferral_episode v, True)
           else if \<not> episode then (v, False)
           else let since = s_wrap_deferred_since_ns v in
             if since \<noteq> 0 \<and> sub64 now since > c_lease_ceiling_ns cfg
             then (force_reset_all (publish_wrap_deferred_deadline 0
                     (v\<lparr>v_wraps_forced_past_lease := v_wraps_forced_past_lease v + 1,
                        s_wrap_deferred_since_ns := 0\<rparr>)), True)
             else if since = 0
             then (publish_wrap_deferred_deadline (now + c_lease_ceiling_ns cfg)
                     (v\<lparr>s_wrap_deferred_since_ns := now\<rparr>), False)
             else (v, False))"

definition ns_until_forced_wrap :: "lease_config \<Rightarrow> nat \<Rightarrow> bool \<Rightarrow> 'z stripe_scheme \<Rightarrow> nat" where
  "ns_until_forced_wrap cfg now admitted v =
     (if c_lease_t_ns cfg = 0 then 2 ^ 64 - 1
      else if \<not> admitted then 2 ^ 64 - 1
      else let deadline_ms = (if s_use_mmap_directory v then m_wrap_deferred_deadline_ms v
                              else s_local_wrap_deferred_deadline_ms v)
           in if deadline_ms = 0 then 2 ^ 64 - 1
              else let now_ms = (of_nat (now div 1000000) :: u32);
                       remaining_ms = deadline_ms - now_ms;
                       ceiling_ms = c_lease_ceiling_ns cfg div 1000000
                   in if unat remaining_ms > ceiling_ms then 0 else unat remaining_ms * 1000000)"

section \<open>Wraps and the clean frontier\<close>

definition publish_wrap_phase :: "nat \<Rightarrow> volume \<Rightarrow> volume" where
  "publish_wrap_phase new_pass v =
     (let v = (if s_use_mmap_directory v then v\<lparr>m_current_phase := odd new_pass\<rparr>
               else v\<lparr>s_directory_phase := odd new_pass\<rparr>)
      in v\<lparr>v_evictions := v_evictions v + 1\<rparr>)"

definition record_wrap :: "nat \<Rightarrow> volume \<Rightarrow> volume" where
  "record_wrap now v =
     (let v = (if s_use_mmap_directory v
               then v\<lparr>m_wrap_count := m_wrap_count v + 1, m_last_wrap_time_ns := now\<rparr>
               else v\<lparr>v_wrap_count := v_wrap_count v + 1\<rparr>);
          prev = v_last_wrap_time_ns v;
          v = v\<lparr>v_last_wrap_time_ns := now\<rparr>
      in if prev = 0 \<or> now \<le> prev then v
         else let interval = now - prev; v = v\<lparr>v_last_wrap_interval_ns := interval\<rparr>
              in if v_min_wrap_interval_ns v = 0 \<or> interval < v_min_wrap_interval_ns v
                 then v\<lparr>v_min_wrap_interval_ns := interval\<rparr> else v)"

definition set_shared_write_pos :: "nat \<Rightarrow> 'z stripe_scheme \<Rightarrow> 'z stripe_scheme" where
  "set_shared_write_pos pos v = v\<lparr>m_shared_write_pos := pos\<rparr>"

definition repair_wrap_state :: "nat \<Rightarrow> volume \<Rightarrow> volume" where
  "repair_wrap_state now v =
     (if \<not> s_use_mmap_directory v then v
      else let intent = m_wrap_intent v;
               pass = pass_of v (m_exposure_gen v);
               (v, pass) =
                 (if intent = kIntentWrapEven \<or> intent = kIntentWrapOdd
                  then let target_odd = (intent = kIntentWrapOdd);
                           v = set_shared_write_pos (s_data_offset v) (v\<lparr>s_write_pos := s_data_offset v\<rparr>)
                       in if odd pass \<noteq> target_odd
                          then let pass = pass + 1; n = s_chunks v;
                                   v = publish_wrap_phase pass v;
                                   v = store_exposure_gen (pass * (n + 1) + (if s_retain v then 0 else n)) v
                               in (record_wrap now v, pass)
                          else (v, pass)
                  else (v, pass))
           in set_wrap_intent False (v\<lparr>m_current_phase := odd pass\<rparr>))"

definition repair_after_forced_release :: "nat \<Rightarrow> WriteLockToken \<Rightarrow> volume \<Rightarrow> volume" where
  "repair_after_forced_release now token v =
     (if wt_acquired token \<and> wt_forced_release token \<and> \<not> wt_escalated_takeover token
      then repair_wrap_state now v else v)"

definition chunk_index_ceil :: "'z stripe_scheme \<Rightarrow> nat \<Rightarrow> nat" where
  "chunk_index_ceil s abs_offset =
     (if abs_offset \<le> s_data_offset s \<or> s_chunk_size s = 0 then 0
      else let rel = abs_offset - s_data_offset s;
               t = (rel + s_chunk_size s - 1) div s_chunk_size s
           in min t (s_chunks s))"

definition advance_frontier :: "lease_config \<Rightarrow> nat \<Rightarrow> nat \<Rightarrow> nat \<Rightarrow> nat \<Rightarrow> bool \<Rightarrow> volume \<Rightarrow> volume \<times> bool" where
  "advance_frontier cfg now pass from to episode v =
     (if to \<le> from then (v, True)
      else let (v, open_gate) = lease_gate cfg now from to episode (set_wrap_intent True v)
           in if \<not> open_gate then (set_wrap_intent False v, False)
              else let v = store_exposure_gen (pass * (s_chunks v + 1) + to) v;
                       v = set_wrap_intent False v
                   in (v\<lparr>v_frontier_advances := v_frontier_advances v + 1\<rparr>, True))"

text \<open>
  With wrap retention: wrap if the document does not fit before the end of the
  data area, advance the frontier over the span it needs (this step may be deferred
  by the gate), and try to run half a chunk ahead.  The result is the pass of the
  reservation, None when the step was deferred.
\<close>

definition retention_wrap :: "alloc_env \<Rightarrow> bool \<Rightarrow> nat \<Rightarrow> volume \<Rightarrow> volume" where
  "retention_wrap env has_write_lock new_pass v =
     (let v = mark_wrap_committed new_pass v;
          v = v\<lparr>s_write_pos := s_data_offset v\<rparr>;
          v = (if has_write_lock \<and> ae_revalidate env 1
               then set_shared_write_pos (s_data_offset v) v else v);
          v = publish_wrap_phase new_pass v;
          v = store_exposure_gen (new_pass * (s_chunks v + 1)) v;
          v = record_wrap (steady_now_ns (ae_clock env 2)) v
      in set_wrap_intent False v)"

text \<open>
  retention_prepare in its three steps: the wrap (which sets pass and frontier
  index), the mandatory advance over the bytes the document needs, and the early
  advance.
\<close>

definition prepare_wrap :: "alloc_env \<Rightarrow> nat \<Rightarrow> bool \<Rightarrow> volume \<Rightarrow> volume \<times> nat \<times> nat" where
  "prepare_wrap env doc_size has_lock v =
     (let pass = exposure_gen v div (s_chunks v + 1); f = min (exposure_gen v mod (s_chunks v + 1)) (s_chunks v) in
      if doc_size > sub64 (s_offset v + s_size v) (s_write_pos v)
      then (retention_wrap env has_lock (pass + 1) v, pass + 1, 0) else (v, pass, f))"

definition prepare_mandatory :: "lease_config \<Rightarrow> alloc_env \<Rightarrow> nat \<Rightarrow> nat \<Rightarrow> nat \<Rightarrow> volume \<Rightarrow> volume \<times> bool \<times> nat" where
  "prepare_mandatory cfg env doc_size pass f v =
     (let need = s_write_pos v + doc_size; t = chunk_index_ceil v need;
          r = advance_frontier cfg (steady_now_ns (ae_clock env 1)) pass f t True v
      in if need > s_offset v + frontier_rel_of v f
         then if \<not> snd r
              then ((fst r)\<lparr>v_advances_deferred_by_lease := v_advances_deferred_by_lease (fst r) + 1,
                      v_writes_dropped_by_lease := v_writes_dropped_by_lease (fst r) + 1\<rparr>, False, f)
              else (fst r, True, t)
         else (v, True, f))"

definition prepare_early :: "lease_config \<Rightarrow> alloc_env \<Rightarrow> nat \<Rightarrow> nat \<Rightarrow> nat \<Rightarrow> volume \<Rightarrow> volume" where
  "prepare_early cfg env need pass f v =
     (let half = s_chunk_size v div 2; t = chunk_index_ceil v (need + half);
          r = advance_frontier cfg (steady_now_ns (ae_clock env 3)) pass f t False v
      in if f < s_chunks v \<and> sub64 (s_offset v + frontier_rel_of v f) need < half
         then if snd r then fst r else (fst r)\<lparr>v_early_advances_skipped := v_early_advances_skipped (fst r) + 1\<rparr>
         else v)"

definition retention_prepare ::
  "lease_config \<Rightarrow> alloc_env \<Rightarrow> nat \<Rightarrow> bool \<Rightarrow> volume \<Rightarrow> volume \<times> nat option" where
  "retention_prepare cfg env doc_size has_write_lock v =
     (case prepare_wrap env doc_size has_write_lock v of (v, pass, f) \<Rightarrow>
        let need = s_write_pos v + doc_size in
        case prepare_mandatory cfg env doc_size pass f v of (v, ok, f) \<Rightarrow>
          if \<not> ok then (v, None)
          else (prepare_early cfg env need pass f v, Some pass))"

section \<open>Reserving and committing a write slot\<close>

record WriteSlot =
  ws_write_offset :: nat
  ws_new_write_pos :: nat
  ws_write_token :: WriteLockToken
  ws_holds_write_lock :: bool
  ws_deferred_publish :: bool
  ws_pass :: nat
  ws_fill_serial :: u16
  ws_fill_end :: nat

definition kTailFillPage :: nat where "kTailFillPage = 4096"
definition kTailFillAboveBytes :: nat where "kTailFillAboveBytes = 64 * 1024"

definition null_token :: WriteLockToken where
  "null_token = \<lparr>wt_acquired = False, wt_generation = 0, wt_forced_release = False,
     wt_escalated_takeover = False, wt_live_waits = 0\<rparr>"

definition release_write_lock :: "volume \<Rightarrow> volume" where
  "release_write_lock v = v\<lparr>m_write_lock_held := False\<rparr>"

text \<open>The first part of allocate_write_slot: take the cross-process lock and adopt the shared cursor.\<close>

definition lock_and_adopt :: "alloc_env \<Rightarrow> volume \<Rightarrow> volume \<times> bool" where
  "lock_and_adopt env v =
     (let token = ae_token env in
      if \<not> wt_acquired token then (v, False)
      else
        let v = v\<lparr>m_write_lock_held := True,
              v_write_lock_force_releases := v_write_lock_force_releases v + (if wt_forced_release token then 1 else 0),
              v_write_lock_escalation_takeovers := v_write_lock_escalation_takeovers v + (if wt_escalated_takeover token then 1 else 0),
              v_write_lock_live_holder_waits := v_write_lock_live_holder_waits v + wt_live_waits token\<rparr>
        in if \<not> ae_revalidate env 0
           then (v\<lparr>m_write_lock_held := False, v_write_lock_usurp_aborts := v_write_lock_usurp_aborts v + 1\<rparr>, False)
           else let v = repair_after_forced_release (steady_now_ns (ae_clock env 0)) token v;
                    shared_pos = m_shared_write_pos v
                in (if shared_pos \<ge> s_data_offset v \<and> shared_pos \<le> s_offset v + s_size v
                    then v\<lparr>s_write_pos := shared_pos\<rparr> else v, True))"

text \<open>The wrap of flush mode: gated over every chunk, exposes the whole stripe.\<close>

definition flush_wrap :: "lease_config \<Rightarrow> alloc_env \<Rightarrow> bool \<Rightarrow> volume \<Rightarrow> volume \<times> bool" where
  "flush_wrap cfg env has_write_lock v =
     (let (v, open_gate) = lease_gate cfg (steady_now_ns (ae_clock env 1)) 0 (s_chunks v) True
                             (set_wrap_intent True v)
      in if \<not> open_gate
         then let v = set_wrap_intent False v
              in (v\<lparr>v_wraps_deferred_by_lease := v_wraps_deferred_by_lease v + 1,
                    v_writes_dropped_by_lease := v_writes_dropped_by_lease v + 1\<rparr>, False)
         else let pass = pass_of v (exposure_gen v);
                  v = mark_wrap_committed (pass + 1) v;
                  v = v\<lparr>s_write_pos := s_data_offset v\<rparr>;
                  v = (if has_write_lock \<and> ae_revalidate env 1
                       then set_shared_write_pos (s_data_offset v) v else v);
                  v = publish_wrap_phase (pass + 1) v;
                  v = store_exposure_gen ((pass + 1) * (s_chunks v + 1) + s_chunks v) v;
                  v = record_wrap (steady_now_ns (ae_clock env 2)) v
              in (set_wrap_intent False v, True))"

definition tail_fill_end :: "lease_config \<Rightarrow> nat \<Rightarrow> nat \<Rightarrow> volume \<Rightarrow> nat" where
  "tail_fill_end cfg doc_size new_write_pos v =
     (if c_fill_large_document_tail cfg \<and> doc_size > kTailFillAboveBytes
      then let fill_end = align_down kTailFillPage (new_write_pos + kTailFillPage - 1);
               fill_end = min fill_end (s_offset v + s_size v);
               fill_end = (if s_retain v
                           then let n = s_chunks v; f = min (exposure_gen v mod (n + 1)) n
                                in min fill_end (s_offset v + frontier_rel_of v f)
                           else fill_end)
           in if fill_end \<ge> new_write_pos then fill_end else 0
      else 0)"

text \<open>
  The wrap decision of allocate_write_slot: whether there is room at the cursor
  now, and the pass of a retained reservation.
\<close>

definition make_room ::
  "lease_config \<Rightarrow> alloc_env \<Rightarrow> nat \<Rightarrow> bool \<Rightarrow> volume \<Rightarrow> volume \<times> bool \<times> nat option" where
  "make_room cfg env doc_size has_write_lock v =
     (let available = sub64 (s_offset v + s_size v) (s_write_pos v) in
      if s_retain v
      then case retention_prepare cfg env doc_size has_write_lock v of (v, p) \<Rightarrow> (v, p \<noteq> None, p)
      else if doc_size > available
      then case flush_wrap cfg env has_write_lock v of (v, ok) \<Rightarrow> (v, ok, None)
      else (v, True, None))"

definition allocate_write_slot ::
  "lease_config \<Rightarrow> alloc_env \<Rightarrow> nat \<Rightarrow> volume \<Rightarrow> volume \<times> WriteSlot expected" where
  "allocate_write_slot cfg env doc_size v =
     (let doc_size = align_down 8 ((doc_size + 7) mod 2 ^ 64);
          has_write_lock = s_use_mmap_directory v;
          unlock = (\<lambda>v. if has_write_lock then release_write_lock v else v)
      in case (if has_write_lock then lock_and_adopt env v else (v, True)) of (v, locked) \<Rightarrow>
         if \<not> locked then (v, Inl Busy)
         else if doc_size > sub64 (s_offset v + s_size v) (s_data_offset v) then (unlock v, Inl NoSpace)
         else case make_room cfg env doc_size has_write_lock v of (v, ok, retained_pass) \<Rightarrow>
           if \<not> ok then (unlock v, Inl NoSpace)
           else
             let v = end_deferral_episode v;
                 write_offset = s_write_pos v;
                 new_write_pos = write_offset + doc_size
             in (v, Inr \<lparr>ws_write_offset = write_offset,
                        ws_new_write_pos = new_write_pos,
                        ws_write_token = (if has_write_lock then ae_token env else null_token),
                        ws_holds_write_lock = has_write_lock,
                        ws_deferred_publish = True,
                        ws_pass = (case retained_pass of Some p \<Rightarrow> p
                                   | None \<Rightarrow> pass_of v (exposure_gen v)),
                        ws_fill_serial = (if has_write_lock then wt_generation (ae_token env) else 0),
                        ws_fill_end = tail_fill_end cfg doc_size new_write_pos v\<rparr>))"

definition commit_write_slot :: "bool \<Rightarrow> WriteSlot \<Rightarrow> bool \<Rightarrow> volume \<Rightarrow> volume \<times> unit expected" where
  "commit_write_slot revalidated slot fill_ok v =
     (if \<not> ws_deferred_publish slot then (v, Inr ())
      else if \<not> ws_holds_write_lock slot
      then (if fill_ok then v\<lparr>s_write_pos := ws_new_write_pos slot\<rparr> else v, Inr ())
      else if \<not> revalidated
      then (v\<lparr>m_write_lock_held := False, v_write_lock_usurp_aborts := v_write_lock_usurp_aborts v + 1\<rparr>, Inl Busy)
      else let v = (if fill_ok
                    then set_shared_write_pos (ws_new_write_pos slot) (v\<lparr>s_write_pos := ws_new_write_pos slot\<rparr>)
                    else v)
           in (release_write_lock v, Inr ()))"

section \<open>A sample stripe\<close>

text \<open>
  A fresh single-process stripe with wrap retention and a data area of 4096 bytes, used to
  evaluate the operations on concrete input.
\<close>

definition sample_volume :: volume where
  "sample_volume = \<lparr>s_offset = 64, s_size = 8192, s_data_offset = 4160, s_write_pos = 4160,
     s_chunks = 1, s_chunk_size = 4096, s_retain = True, s_use_mmap_directory = False,
     s_local_exposure_gen = 0, s_local_lease_expiry_ns = 0, s_local_borrow_shards = (\<lambda>_ _. 0),
     s_local_wrap_intent = 0, s_wrap_deferred_since_ns = 0, s_local_wrap_deferred_deadline_ms = 0,
     s_directory_phase = False, m_shared_write_pos = 0, m_exposure_gen = 0, m_lease_expiry_ns = 0,
     m_chunk_borrows = (\<lambda>_. 0), m_wrap_intent = 0, m_wrap_deferred_deadline_ms = 0,
     m_current_phase = False, m_wrap_count = 0, m_last_wrap_time_ns = 0,
     m_write_lock_held = False, v_wrap_count = 0, v_last_wrap_time_ns = 0, v_last_wrap_interval_ns = 0,
     v_min_wrap_interval_ns = 0, v_evictions = 0, v_wraps_forced_past_lease = 0,
     v_wraps_deferred_by_lease = 0, v_writes_dropped_by_lease = 0, v_advances_deferred_by_lease = 0,
     v_early_advances_skipped = 0, v_frontier_advances = 0, v_write_lock_force_releases = 0,
     v_write_lock_escalation_takeovers = 0, v_write_lock_live_holder_waits = 0,
     v_write_lock_usurp_aborts = 0\<rparr>"

definition sample_config :: lease_config where
  "sample_config = \<lparr>c_lease_t_ns = 1000, c_lease_ceiling_ns = 5000, c_fill_large_document_tail = False\<rparr>"

definition sample_env :: alloc_env where
  "sample_env = \<lparr>ae_token = null_token, ae_revalidate = (\<lambda>_. True), ae_clock = (\<lambda>_. 10)\<rparr>"

end
