(* ===== verification/Alternate.thy ===== *)
theory Alternate
  imports Cyclone_Prelude
begin

text \<open>
  Alternates of a cached object and the storage-layer selectors:
  \<^verbatim>\<open>src/include/cyclone/alternate.hpp\<close>.  An \<open>AlternateId\<close> is an enumeration over a byte, so any
  byte may occur; the enumerators are named constants.  The interface
  \<open>StorageAlternateSelector::select\<close> is the locale \<open>storage_selector\<close>, which the two shipped
  selectors interpret.
\<close>

section \<open>Model\<close>

type_synonym AlternateId = u8

definition Original :: AlternateId where "Original = 0"
definition Brotli :: AlternateId where "Brotli = 1"
definition Zstd :: AlternateId where "Zstd = 2"
definition Gzip :: AlternateId where "Gzip = 3"
definition WebP :: AlternateId where "WebP = 16"
definition AVIF :: AlternateId where "AVIF = 17"
definition JpegXL :: AlternateId where "JpegXL = 18"
definition Custom :: AlternateId where "Custom = 128"

definition alternate_id_name :: "AlternateId \<Rightarrow> string" where
  "alternate_id_name i =
     (if i = Original then ''original'' else if i = Brotli then ''brotli''
      else if i = Zstd then ''zstd'' else if i = Gzip then ''gzip''
      else if i = WebP then ''webp'' else if i = AVIF then ''avif''
      else if i = JpegXL then ''jxl''
      else if i \<ge> Custom then ''custom'' else ''unknown'')"

definition is_compression_alternate :: "AlternateId \<Rightarrow> bool" where
  "is_compression_alternate i \<longleftrightarrow> i \<ge> 1 \<and> i \<le> 15"

definition is_image_alternate :: "AlternateId \<Rightarrow> bool" where
  "is_image_alternate i \<longleftrightarrow> i \<ge> 16 \<and> i \<le> 31"

record AlternateInfo =
  alt_id :: AlternateId
  disk_offset :: u64
  content_length :: u64
  alt_hit_count :: u32
  last_access :: int
  alt_header :: bytes

record AlternateSelectionContext =
  request_metadata :: bytes
  prefer_compressed :: bool
  acceptable_alternates :: "AlternateId list"

text \<open>The loops that return the first index \<open>\<ge> i\<close> whose element satisfies a test.\<close>

fun first_from :: "('a \<Rightarrow> bool) \<Rightarrow> nat \<Rightarrow> 'a list \<Rightarrow> nat option" where
  "first_from P i [] = None"
| "first_from P i (x # xs) = (if P x then Some i else first_from P (Suc i) xs)"

text \<open>\<open>DefaultStorageSelector::select\<close>.\<close>

definition default_select :: "AlternateInfo list \<Rightarrow> AlternateSelectionContext \<Rightarrow> nat option" where
  "default_select alternates ctx =
     (if alternates = [] then None
      else if acceptable_alternates ctx = [] then Some 0
      else first_from (\<lambda>a. alt_id a \<in> set (acceptable_alternates ctx)) 0 alternates)"

definition is_acceptable :: "AlternateSelectionContext \<Rightarrow> AlternateId \<Rightarrow> bool" where
  "is_acceptable ctx i \<longleftrightarrow> acceptable_alternates ctx = [] \<or> i \<in> set (acceptable_alternates ctx)"

text \<open>\<open>CompressionAwareSelector::select\<close>: its five index variables and its loop.\<close>

record compression_picks =
  brotli_idx :: "nat option"
  zstd_idx :: "nat option"
  gzip_idx :: "nat option"
  original_idx :: "nat option"
  first_acceptable_idx :: "nat option"

definition no_picks :: compression_picks where
  "no_picks = \<lparr>brotli_idx = None, zstd_idx = None, gzip_idx = None, original_idx = None,
     first_acceptable_idx = None\<rparr>"

definition keep_first :: "nat option \<Rightarrow> nat \<Rightarrow> nat option" where
  "keep_first slot i = (case slot of None \<Rightarrow> Some i | Some j \<Rightarrow> Some j)"

definition pick_step :: "nat \<Rightarrow> AlternateId \<Rightarrow> compression_picks \<Rightarrow> compression_picks" where
  "pick_step i a p =
     (let p = p\<lparr>first_acceptable_idx := keep_first (first_acceptable_idx p) i\<rparr> in
      if a = Brotli then p\<lparr>brotli_idx := keep_first (brotli_idx p) i\<rparr>
      else if a = Zstd then p\<lparr>zstd_idx := keep_first (zstd_idx p) i\<rparr>
      else if a = Gzip then p\<lparr>gzip_idx := keep_first (gzip_idx p) i\<rparr>
      else if a = Original then p\<lparr>original_idx := keep_first (original_idx p) i\<rparr>
      else p)"

fun pick_scan :: "AlternateSelectionContext \<Rightarrow> nat \<Rightarrow> AlternateInfo list \<Rightarrow> compression_picks
    \<Rightarrow> compression_picks" where
  "pick_scan ctx i [] p = p"
| "pick_scan ctx i (a # as) p =
     pick_scan ctx (Suc i) as
       (if is_acceptable ctx (alt_id a) then pick_step i (alt_id a) p else p)"

definition compression_select :: "AlternateInfo list \<Rightarrow> AlternateSelectionContext \<Rightarrow> nat option" where
  "compression_select alternates ctx =
     (if alternates = [] then None
      else if \<not> prefer_compressed ctx
      then first_from (\<lambda>a. is_acceptable ctx (alt_id a)) 0 alternates
      else
        (let p = pick_scan ctx 0 alternates no_picks in
         if brotli_idx p \<noteq> None then brotli_idx p
         else if zstd_idx p \<noteq> None then zstd_idx p
         else if gzip_idx p \<noteq> None then gzip_idx p
         else if original_idx p \<noteq> None then original_idx p
         else first_acceptable_idx p))"

section \<open>The selector interface\<close>

text \<open>
  The contract of \<open>select\<close>: the result is an index into the alternates whose id is acceptable,
  and there is one whenever some alternate is acceptable.
\<close>

locale storage_selector =
  fixes select :: "AlternateInfo list \<Rightarrow> AlternateSelectionContext \<Rightarrow> nat option"
  assumes select_sound:
      "select as ctx = Some i \<Longrightarrow> i < length as \<and> is_acceptable ctx (alt_id (as ! i))"
    and select_complete:
      "select as ctx = None \<Longrightarrow> a \<in> set as \<Longrightarrow> \<not> is_acceptable ctx (alt_id a)"
begin

lemma selects_iff: "(\<exists>i. select as ctx = Some i) \<longleftrightarrow> (\<exists>a \<in> set as. is_acceptable ctx (alt_id a))"
  using select_sound select_complete by (metis not_None_eq nth_mem)

lemma never_unacceptable:
  "select as ctx = Some i \<Longrightarrow> acceptable_alternates ctx \<noteq> []
    \<Longrightarrow> alt_id (as ! i) \<in> set (acceptable_alternates ctx)"
  using select_sound [of as ctx i] by (auto simp: is_acceptable_def)

end

section \<open>Lemmas\<close>

lemma first_from_Some:
  "first_from P i xs = Some j
    \<Longrightarrow> \<exists>k < length xs. j = i + k \<and> P (xs ! k) \<and> (\<forall>m < k. \<not> P (xs ! m))"
proof (induction xs arbitrary: i)
  case (Cons x xs)
  show ?case
  proof (cases "P x")
    case True
    then show ?thesis using Cons.prems by (intro exI [of _ 0]) auto
  next
    case False
    then obtain k where "k < length xs" "j = Suc i + k" "P (xs ! k)" "\<forall>m < k. \<not> P (xs ! m)"
      using Cons.IH [of "Suc i"] Cons.prems by auto
    then show ?thesis using False
      by (intro exI [of _ "Suc k"]) (auto simp: less_Suc_eq_0_disj)
  qed
qed simp

lemma first_from_SomeD:
  assumes "first_from P 0 xs = Some j"
  shows "j < length xs" "P (xs ! j)" "\<And>k. k < j \<Longrightarrow> \<not> P (xs ! k)"
  using first_from_Some [OF assms] by auto

lemma first_from_NoneD: "first_from P i xs = None \<Longrightarrow> x \<in> set xs \<Longrightarrow> \<not> P x"
  by (induction xs arbitrary: i) (auto split: if_splits)

lemma keep_first_simps [simp]: "keep_first None i = Some i" "keep_first (Some j) i = Some j"
  by (simp_all add: keep_first_def)

definition fill_slot :: "nat option \<Rightarrow> nat option \<Rightarrow> nat option" where
  "fill_slot slot new = (case slot of None \<Rightarrow> new | Some j \<Rightarrow> Some j)"

lemma fill_slot_simps [simp]:
  "fill_slot None n = n" "fill_slot (Some j) n = Some j" "fill_slot x None = x"
  "fill_slot (keep_first x i) n = keep_first x i" "fill_slot x (Some i) = keep_first x i"
  by (auto simp: fill_slot_def keep_first_def split: option.splits)

definition wants :: "AlternateSelectionContext \<Rightarrow> AlternateId \<Rightarrow> AlternateInfo \<Rightarrow> bool" where
  "wants ctx i a \<longleftrightarrow> is_acceptable ctx (alt_id a) \<and> alt_id a = i"

lemma ids_distinct [simp]:
  "Brotli \<noteq> Zstd" "Brotli \<noteq> Gzip" "Brotli \<noteq> Original" "Zstd \<noteq> Gzip" "Zstd \<noteq> Original" "Gzip \<noteq> Original"
  "Zstd \<noteq> Brotli" "Gzip \<noteq> Brotli" "Original \<noteq> Brotli" "Gzip \<noteq> Zstd" "Original \<noteq> Zstd" "Original \<noteq> Gzip"
  by (simp_all add: Brotli_def Zstd_def Gzip_def Original_def)

lemma pick_scan_slots:
  "pick_scan ctx i as p =
     \<lparr>brotli_idx = fill_slot (brotli_idx p) (first_from (wants ctx Brotli) i as),
      zstd_idx = fill_slot (zstd_idx p) (first_from (wants ctx Zstd) i as),
      gzip_idx = fill_slot (gzip_idx p) (first_from (wants ctx Gzip) i as),
      original_idx = fill_slot (original_idx p) (first_from (wants ctx Original) i as),
      first_acceptable_idx = fill_slot (first_acceptable_idx p)
        (first_from (\<lambda>a. is_acceptable ctx (alt_id a)) i as)\<rparr>"
  by (induction as arbitrary: i p) (auto simp: pick_step_def wants_def Let_def)

text \<open>The preference order, smallest first.\<close>

definition preference :: "AlternateId \<Rightarrow> nat" where
  "preference i =
     (if i = Brotli then 0 else if i = Zstd then 1 else if i = Gzip then 2
      else if i = Original then 3 else 4)"

definition preferred :: "AlternateSelectionContext \<Rightarrow> AlternateId \<Rightarrow> nat" where
  "preferred ctx i = (if prefer_compressed ctx then preference i else 0)"

definition best_pick :: "AlternateInfo list \<Rightarrow> AlternateSelectionContext \<Rightarrow> nat \<Rightarrow> bool" where
  "best_pick as ctx i \<longleftrightarrow>
     i < length as \<and> is_acceptable ctx (alt_id (as ! i)) \<and>
     (\<forall>j < length as. is_acceptable ctx (alt_id (as ! j)) \<longrightarrow>
        preferred ctx (alt_id (as ! i)) < preferred ctx (alt_id (as ! j)) \<or>
        preferred ctx (alt_id (as ! i)) = preferred ctx (alt_id (as ! j)) \<and> i \<le> j)"

lemma wants_none:
  assumes "first_from (wants ctx x) 0 as = None" "j < length as" "is_acceptable ctx (alt_id (as ! j))"
  shows "alt_id (as ! j) \<noteq> x"
  using first_from_NoneD [OF assms(1) nth_mem [OF assms(2)]] assms(3) by (auto simp: wants_def)

lemma wants_some:
  assumes "first_from (wants ctx x) 0 as = Some i"
  shows "i < length as" "is_acceptable ctx (alt_id (as ! i))" "alt_id (as ! i) = x"
    "\<And>j. j < length as \<Longrightarrow> is_acceptable ctx (alt_id (as ! j)) \<Longrightarrow> alt_id (as ! j) = x \<Longrightarrow> i \<le> j"
  using first_from_SomeD [OF assms] by (auto simp: wants_def not_less [symmetric])

lemma first_best:
  assumes "first_from (\<lambda>a. is_acceptable ctx (alt_id a)) 0 as = Some i"
    and "\<And>j k. j < length as \<Longrightarrow> is_acceptable ctx (alt_id (as ! j)) \<Longrightarrow> k < length as
      \<Longrightarrow> is_acceptable ctx (alt_id (as ! k)) \<Longrightarrow> preferred ctx (alt_id (as ! j)) = preferred ctx (alt_id (as ! k))"
  shows "best_pick as ctx i"
  using first_from_SomeD [OF assms(1)] assms(2) unfolding best_pick_def by (meson not_le)

lemma compression_select_best:
  assumes "compression_select as ctx = Some i"
  shows "best_pick as ctx i"
proof (cases "prefer_compressed ctx")
  case False
  then show ?thesis using assms
    by (intro first_best) (auto simp: compression_select_def preferred_def split: if_splits)
next
  case True
  note D = wants_none wants_some
  have kinds: "preference x = 0 \<longleftrightarrow> x = Brotli" "preference x = 1 \<longleftrightarrow> x = Zstd"
    "preference x = 2 \<longleftrightarrow> x = Gzip" "preference x = 3 \<longleftrightarrow> x = Original" "preference x \<le> 4" for x
    by (simp_all add: preference_def)
  let ?w = "\<lambda>x. first_from (wants ctx x) 0 as"
  consider (b) "?w Brotli = Some i"
    | (z) "?w Brotli = None" "?w Zstd = Some i"
    | (g) "?w Brotli = None" "?w Zstd = None" "?w Gzip = Some i"
    | (q) "?w Brotli = None" "?w Zstd = None" "?w Gzip = None" "?w Original = Some i"
    | (f) "?w Brotli = None" "?w Zstd = None" "?w Gzip = None" "?w Original = None"
        "first_from (\<lambda>a. is_acceptable ctx (alt_id a)) 0 as = Some i"
    using assms True
    by (auto simp: compression_select_def Let_def pick_scan_slots no_picks_def split: if_splits)
  then show ?thesis
  proof cases
    case b
    show ?thesis using D(2-5) [OF b] True
      by (auto simp: best_pick_def preferred_def preference_def)
  next
    case z
    show ?thesis using D(1) [OF z(1)] D(2-5) [OF z(2)] True
      by (auto simp: best_pick_def preferred_def preference_def)
  next
    case g
    show ?thesis using D(1) [OF g(1)] D(1) [OF g(2)] D(2-5) [OF g(3)] True
      by (auto simp: best_pick_def preferred_def preference_def)
  next
    case q
    show ?thesis using D(1) [OF q(1)] D(1) [OF q(2)] D(1) [OF q(3)] D(2-5) [OF q(4)] True
      by (auto simp: best_pick_def preferred_def preference_def)
  next
    case f
    show ?thesis
      using D(1) [OF f(1)] D(1) [OF f(2)] D(1) [OF f(3)] D(1) [OF f(4)] True
      by (intro first_best [OF f(5)]) (simp add: preferred_def preference_def)
  qed
qed

lemma compression_select_None:
  assumes "compression_select as ctx = None" "a \<in> set as"
  shows "\<not> is_acceptable ctx (alt_id a)"
proof -
  have "first_from (\<lambda>a. is_acceptable ctx (alt_id a)) 0 as = None"
    using assms by (auto simp: compression_select_def Let_def pick_scan_slots no_picks_def split: if_splits)
  then show ?thesis using assms(2) by (rule first_from_NoneD)
qed

lemma default_select_compression:
  "default_select as ctx = compression_select as (ctx\<lparr>prefer_compressed := False\<rparr>)"
  by (cases as) (auto simp: default_select_def compression_select_def is_acceptable_def)

interpretation aware: storage_selector compression_select
  using compression_select_best compression_select_None
  by unfold_locales (auto simp: best_pick_def)

lemma is_acceptable_prefer [simp]: "is_acceptable (ctx\<lparr>prefer_compressed := b\<rparr>) = is_acceptable ctx"
  by (rule ext) (simp add: is_acceptable_def)

interpretation dflt: storage_selector default_select
proof
  fix as ctx i
  assume "default_select as ctx = Some i"
  then show "i < length as \<and> is_acceptable ctx (alt_id (as ! i))"
    using aware.select_sound [of as "ctx\<lparr>prefer_compressed := False\<rparr>" i]
    by (simp add: default_select_compression)
next
  fix as ctx a
  assume "default_select as ctx = None" "a \<in> set as"
  then show "\<not> is_acceptable ctx (alt_id a)"
    using aware.select_complete [of as "ctx\<lparr>prefer_compressed := False\<rparr>" a]
    by (simp add: default_select_compression)
qed

text \<open>
  C34. Alternate selection: both selectors return an alternate exactly when some alternate is
  acceptable, and never one outside a non-empty acceptable set.  The compression-aware selector
  returns, in the order Brotli, Zstd, Gzip, original, anything else, the best acceptable kind
  present, and of that kind the first (newest) occurrence; the default selector is the
  compression-aware one without the preference: it returns the first acceptable alternate.
\<close>

theorem selector_picks_best_acceptable:
  shows "(compression_select as ctx = None \<longleftrightarrow> (\<forall>a \<in> set as. \<not> is_acceptable ctx (alt_id a)))
    \<and> (\<forall>i. compression_select as ctx = Some i \<longrightarrow> best_pick as ctx i)
    \<and> (default_select as ctx = None \<longleftrightarrow> compression_select as ctx = None)
    \<and> default_select as ctx = compression_select as (ctx\<lparr>prefer_compressed := False\<rparr>)"
  using aware.selects_iff [of as ctx] dflt.selects_iff [of as ctx]
    compression_select_best [of as ctx] default_select_compression [of as ctx]
  by (metis option.exhaust option.distinct(1))

definition sample_alt :: "AlternateId \<Rightarrow> AlternateInfo" where
  "sample_alt i = \<lparr>alt_id = i, disk_offset = 0, content_length = 0, alt_hit_count = 0,
     last_access = 0, alt_header = []\<rparr>"

definition sample_ctx :: "AlternateId list \<Rightarrow> AlternateSelectionContext" where
  "sample_ctx as = \<lparr>request_metadata = [], prefer_compressed = True, acceptable_alternates = as\<rparr>"

theorem selector_picks_best_acceptable_witness:
  "compression_select (map sample_alt [Original, Gzip, WebP, Gzip, Brotli]) (sample_ctx [Gzip, WebP]) = Some 1
   \<and> best_pick (map sample_alt [Original, Gzip, WebP, Gzip, Brotli]) (sample_ctx [Gzip, WebP]) 1
   \<and> default_select (map sample_alt [Original, Brotli]) (sample_ctx [WebP]) = None"
proof -
  let ?as = "map sample_alt [Original, Gzip, WebP, Gzip, Brotli]" and ?c = "sample_ctx [Gzip, WebP]"
  have c: "compression_select ?as ?c = Some 1" by code_simp
  moreover have "best_pick ?as ?c 1"
    using selector_picks_best_acceptable [of ?as ?c] c by blast
  moreover have "default_select (map sample_alt [Original, Brotli]) (sample_ctx [WebP]) = None"
    by code_simp
  ultimately show ?thesis by blast
qed

end
