(* ===== verification/Ram_Cache.thy ===== *)
theory Ram_Cache
  imports Alternate Cache_Key "HOL-Library.AList" "HOL-Library.Monad_Syntax"
begin

text \<open>
  The RAM tier's interface: \<^verbatim>\<open>src/src/ram_cache/ram_cache.hpp\<close>.  Both caches keep their entries
  in \<^verbatim>\<open>std::list\<close> nodes and reach them through iterators held in a hash map.  A node is an
  address in a store, an iterator is that address, and following an iterator whose node is gone,
  or splicing a node out of a list it is not on, is undefined behaviour: the operation's result
  is then \<open>None\<close>.  A hash map is an association list, whose order stands for the unspecified
  iteration order.  Byte counts and statistics are natural numbers: the invariants below keep every
  size at most twice the budget and every subtraction exact.

  The locale \<open>ram_cache\<close> is the contract of the class \<^verbatim>\<open>RamCache\<close>: what a lookup returns after
  each operation.  Its consequence, proved once, is that a cache serves for a key what the last
  successful put stored, or nothing.
\<close>

unbundle bit_operations_syntax

section \<open>Keys, counters and statistics\<close>

definition saturating_increment :: "u32 \<Rightarrow> u32" where
  "saturating_increment c = (if c \<noteq> 0xFFFFFFFF then c + 1 else c)"

record RamCacheKey =
  cache_key :: CacheKey
  alternate_id :: AlternateId

record RamCacheStats =
  st_bytes_used :: nat
  st_max_bytes :: nat
  st_entry_count :: nat
  st_hits :: nat
  st_misses :: nat
  st_evictions :: nat

definition ram_key_hash :: "RamCacheKey \<Rightarrow> u64" where
  "ram_key_hash k =
     (let h = hash_value (cache_key k); i = ucast (alternate_id k)
      in h XOR (i * 0x9E3779B97F4A7C15 + push_bit 6 h + drop_bit 2 h))"

section \<open>Operations\<close>

text \<open>
  One call, with what its environment decides: for a get, whether the lock is free for the recency
  refresh; for a put, the predicate's verdict and the address of the node it may allocate.
\<close>

type_synonym addr = nat

datatype ram_op =
    OpGet RamCacheKey bool
  | OpPut RamCacheKey bytes bool u32 addr
  | OpRemove RamCacheKey
  | OpRemoveAll CacheKey
  | OpClear

datatype ram_result = Got "(bytes \<times> u32) option" | Answer bool | Done

fun run_ops :: "('op \<Rightarrow> 's \<Rightarrow> ('r \<times> 's) option) \<Rightarrow> 's \<Rightarrow> 'op list \<Rightarrow> ('r list \<times> 's) option" where
  "run_ops exec s [] = Some ([], s)"
| "run_ops exec s (p # ps) =
     do { (r, s) \<leftarrow> exec p s; (rs, s) \<leftarrow> run_ops exec s ps; Some (r # rs, s) }"

text \<open>The allocator returns addresses that are not in use.\<close>

fun op_fresh :: "('s \<Rightarrow> addr \<Rightarrow> bool) \<Rightarrow> 's \<Rightarrow> ram_op \<Rightarrow> bool" where
  "op_fresh free s (OpPut k d p st a) = free s a"
| "op_fresh free s p = True"

fun run_fresh :: "(ram_op \<Rightarrow> 's \<Rightarrow> (ram_result \<times> 's) option) \<Rightarrow> ('s \<Rightarrow> addr \<Rightarrow> bool) \<Rightarrow> 's \<Rightarrow> ram_op list \<Rightarrow> bool" where
  "run_fresh exec free s [] = True"
| "run_fresh exec free s (p # ps) =
     (op_fresh free s p \<and> (case exec p s of None \<Rightarrow> True | Some (r, s') \<Rightarrow> run_fresh exec free s' ps))"

section \<open>The abstract cache\<close>

text \<open>What the last successful put of each key stored, unless removed since.\<close>

fun spec_step :: "(RamCacheKey \<rightharpoonup> bytes \<times> u32) \<Rightarrow> ram_op \<times> ram_result \<Rightarrow> (RamCacheKey \<rightharpoonup> bytes \<times> u32)" where
  "spec_step m (OpPut k d p st a, r) = (if r = Answer True then m(k \<mapsto> (d, st)) else m)"
| "spec_step m (OpRemove k, r) = m(k := None)"
| "spec_step m (OpRemoveAll c, r) = (\<lambda>k. if cache_key k = c then None else m k)"
| "spec_step m (OpClear, r) = Map.empty"
| "spec_step m (OpGet k t, r) = m"

definition last_put :: "ram_op list \<Rightarrow> ram_result list \<Rightarrow> (RamCacheKey \<rightharpoonup> bytes \<times> u32)" where
  "last_put ps rs = foldl spec_step Map.empty (zip ps rs)"

locale ram_cache =
  fixes inv :: "'s \<Rightarrow> bool"
    and held :: "'s \<Rightarrow> RamCacheKey \<Rightarrow> (bytes \<times> u32) option"
    and exec :: "ram_op \<Rightarrow> 's \<Rightarrow> (ram_result \<times> 's) option"
    and free :: "'s \<Rightarrow> addr \<Rightarrow> bool"
  assumes safe: "inv s \<Longrightarrow> op_fresh free s p \<Longrightarrow> \<exists>r s'. exec p s = Some (r, s') \<and> inv s'"
    and get: "inv s \<Longrightarrow> exec (OpGet k t) s = Some (r, s') \<Longrightarrow> r = Got (held s k) \<and> held s' = held s"
    and put: "inv s \<Longrightarrow> free s a \<Longrightarrow> exec (OpPut k d b st a) s = Some (r, s')
      \<Longrightarrow> (r = Answer True \<and> held s' k = Some (d, st) \<and> held s' \<subseteq>\<^sub>m (held s)(k \<mapsto> (d, st)))
        \<or> (r = Answer False \<and> held s' = held s)"
    and remove: "inv s \<Longrightarrow> exec (OpRemove k) s = Some (r, s') \<Longrightarrow> held s' = (held s)(k := None)"
    and remove_all: "inv s \<Longrightarrow> exec (OpRemoveAll c) s = Some (r, s')
      \<Longrightarrow> held s' = (\<lambda>k. if cache_key k = c then None else held s k)"
    and clear: "inv s \<Longrightarrow> exec OpClear s = Some (r, s') \<Longrightarrow> held s' = Map.empty"
begin

lemma step_refines:
  assumes "inv s" "op_fresh free s p" "exec p s = Some (r, s')" "held s \<subseteq>\<^sub>m m"
  shows "held s' \<subseteq>\<^sub>m spec_step m (p, r)"
proof (cases p)
  case (OpGet k t)
  then show ?thesis using get [of s k t r s'] assms by simp
next
  case (OpPut k d b st a)
  then show ?thesis
    using put [of s a k d b st r s'] assms map_le_upd [OF assms(4), of k "Some (d, st)"]
    by (auto intro: map_le_trans)
next
  case (OpRemove k)
  then show ?thesis using remove [of s k r s'] assms map_le_upd [OF assms(4), of k None] by simp
next
  case (OpRemoveAll c)
  then show ?thesis using remove_all [of s c r s'] assms by (auto simp: map_le_def)
next
  case OpClear
  then show ?thesis using clear [of s r s'] assms by simp
qed

lemma run_refines:
  assumes "inv s" "run_fresh exec free s ps" "held s \<subseteq>\<^sub>m m"
  shows "\<exists>rs s'. run_ops exec s ps = Some (rs, s') \<and> inv s' \<and> length rs = length ps
    \<and> held s' \<subseteq>\<^sub>m foldl spec_step m (zip ps rs)"
  using assms
proof (induction ps arbitrary: s m)
  case (Cons p ps)
  obtain r s1 where e: "exec p s = Some (r, s1)" and i: "inv s1"
    using safe [of s p] Cons.prems by auto
  have "held s1 \<subseteq>\<^sub>m spec_step m (p, r)"
    using step_refines Cons.prems e by simp
  from Cons.IH [OF i _ this] show ?case
    using Cons.prems(2) e by auto
qed simp

lemma serves_last_put:
  assumes "inv s" "held s = Map.empty" "run_fresh exec free s ps"
  obtains rs s' where "run_ops exec s ps = Some (rs, s')" "inv s'" "held s' \<subseteq>\<^sub>m last_put ps rs"
  using run_refines [of s ps Map.empty] assms by (auto simp: last_put_def)

end

section \<open>Lists of nodes\<close>

definition unlink :: "addr \<Rightarrow> addr list \<Rightarrow> addr list option" where
  "unlink a xs = (if a \<in> set xs then Some (remove1 a xs) else None)"

definition is_front :: "addr \<Rightarrow> addr list \<Rightarrow> bool" where
  "is_front a xs \<longleftrightarrow> xs \<noteq> [] \<and> hd xs = a"

definition splice_front :: "addr \<Rightarrow> addr list \<Rightarrow> addr list option" where
  "splice_front a xs = map_option ((#) a) (unlink a xs)"

text \<open>
  The nodes on the lists are exactly the live ones, each once, and the map sends a key to the one
  live node that has it.
\<close>

definition linked :: "addr list \<Rightarrow> (addr \<rightharpoonup> 'e) \<Rightarrow> ('e \<Rightarrow> RamCacheKey) \<Rightarrow> (RamCacheKey \<times> addr) list \<Rightarrow> bool" where
  "linked xs node key_of m \<longleftrightarrow>
     distinct xs \<and> set xs = dom node \<and> distinct (map fst m) \<and>
     (\<forall>k a. map_of m k = Some a \<longleftrightarrow> (\<exists>e. node a = Some e \<and> key_of e = k))"

definition bytes_of :: "(addr \<rightharpoonup> 'e) \<Rightarrow> ('e \<Rightarrow> bytes) \<Rightarrow> addr list \<Rightarrow> nat" where
  "bytes_of node data_of xs = sum_list (map (\<lambda>a. case node a of None \<Rightarrow> 0 | Some e \<Rightarrow> length (data_of e)) xs)"

lemma linkedD:
  assumes "linked xs node key_of m"
  shows "distinct xs" "set xs = dom node" "distinct (map fst m)"
    "map_of m k = Some a \<Longrightarrow> \<exists>e. node a = Some e \<and> key_of e = k"
    "node a = Some e \<Longrightarrow> map_of m (key_of e) = Some a"
    "a \<in> set xs \<Longrightarrow> \<exists>e. node a = Some e"
  using assms by (auto simp: linked_def)

lemma linked_empty [simp]: "linked [] Map.empty key_of []"
  by (simp add: linked_def)

lemma linked_reorder: "linked xs node key_of m \<Longrightarrow> distinct ys \<Longrightarrow> set ys = set xs \<Longrightarrow> linked ys node key_of m"
  by (simp add: linked_def)

lemma linked_update:
  assumes "linked xs node key_of m" "node a = Some e" "key_of e' = key_of e"
  shows "linked xs (node(a \<mapsto> e')) key_of m"
  using assms by (auto simp: linked_def)

lemma linked_map:
  "linked xs node key_of m \<Longrightarrow> map_of m k = Some a \<longleftrightarrow> (\<exists>e. node a = Some e \<and> key_of e = k)"
  by (simp add: linked_def)

lemma linked_inj:
  assumes "linked xs node key_of m" "node a = Some e" "node b = Some e'" "key_of e = key_of e'"
  shows "a = b"
  using linkedD(5) [OF assms(1,2)] linkedD(5) [OF assms(1,3)] assms(4) by simp

lemma linked_erase:
  assumes l: "linked xs node key_of m" and a: "node a = Some e"
  shows "linked (remove1 a xs) (node(a := None)) key_of (AList.delete (key_of e) m)"
proof -
  have "map_of (AList.delete (key_of e) m) k = Some b \<longleftrightarrow>
      (\<exists>e'. (node(a := None)) b = Some e' \<and> key_of e' = k)" for k b
  proof (cases "b = a")
    case True
    then show ?thesis using linked_map [OF l, of k a] a by (auto simp: AList.delete_conv')
  next
    case False
    then show ?thesis using linked_map [OF l, of k b] linked_inj [OF l a, of b]
      by (auto simp: AList.delete_conv')
  qed
  moreover have "distinct (map fst (AList.delete (key_of e) m))"
    using linkedD(3) [OF l] by (rule AList.distinct_delete)
  ultimately show ?thesis
    using linkedD(1,2) [OF l] by (simp add: linked_def set_remove1_eq)
qed

lemma linked_insert:
  assumes l: "linked xs node key_of m" and a: "node a = None" and k: "map_of m (key_of e) = None"
  shows "linked (a # xs) (node(a \<mapsto> e)) key_of (AList.update (key_of e) a m)"
proof -
  have "map_of (AList.update (key_of e) a m) k' = Some b \<longleftrightarrow>
      (\<exists>e'. (node(a \<mapsto> e)) b = Some e' \<and> key_of e' = k')" for k' b
    using linked_map [OF l, of k' b] linked_map [OF l, of "key_of e" b] a k
    by (auto simp: AList.update_conv')
  moreover have "distinct (map fst (AList.update (key_of e) a m))"
    using linkedD(3) [OF l] by (rule AList.distinct_update)
  ultimately show ?thesis
    using linkedD(1,2) [OF l] a by (simp add: linked_def) blast
qed

lemma update_same: "map_of m k = Some a \<Longrightarrow> AList.update k a m = m"
  by (induction m) (auto split: if_splits)

lemma bytes_of_simps [simp]:
  "bytes_of node data_of [] = 0"
  "node a = Some e \<Longrightarrow> bytes_of node data_of (a # xs) = length (data_of e) + bytes_of node data_of xs"
  "bytes_of node data_of (xs @ ys) = bytes_of node data_of xs + bytes_of node data_of ys"
  by (simp_all add: bytes_of_def)

lemma bytes_of_other [simp]: "a \<notin> set xs \<Longrightarrow> bytes_of (node(a := v)) data_of xs = bytes_of node data_of xs"
  unfolding bytes_of_def by (rule arg_cong [where f = sum_list]) (auto intro: map_cong)

lemma bytes_of_remove1:
  assumes "a \<in> set xs" "node a = Some e"
  shows "bytes_of node data_of xs = length (data_of e) + bytes_of node data_of (remove1 a xs)"
  using assms by (induction xs) (auto simp: bytes_of_def)

lemma unlink_Some [simp]: "a \<in> set xs \<Longrightarrow> unlink a xs = Some (remove1 a xs)"
  by (simp add: unlink_def)

lemma splice_front_Some [simp]: "a \<in> set xs \<Longrightarrow> splice_front a xs = Some (a # remove1 a xs)"
  by (simp add: splice_front_def)

lemma last_remove1:
  assumes "distinct xs" "xs \<noteq> []"
  shows "remove1 (last xs) xs = butlast xs"
  using assms by (induction xs) (auto simp: last_in_set)

text \<open>What a lookup through the map finds, seen through a projection of the entries.\<close>

definition held_of :: "(addr \<rightharpoonup> 'e) \<Rightarrow> (RamCacheKey \<times> addr) list \<Rightarrow> ('e \<Rightarrow> 'v option) \<Rightarrow> RamCacheKey \<Rightarrow> 'v option" where
  "held_of node m out k = do { a \<leftarrow> map_of m k; e \<leftarrow> node a; out e }"

lemma held_of_erase:
  assumes l: "linked xs node key_of m" and a: "node a = Some e"
  shows "held_of (node(a := None)) (AList.delete (key_of e) m) out = (held_of node m out)(key_of e := None)"
proof
  fix k
  show "held_of (node(a := None)) (AList.delete (key_of e) m) out k = ((held_of node m out)(key_of e := None)) k"
    using linked_map [OF l, of k a] a
    by (cases "map_of m k") (auto simp: held_of_def AList.delete_conv')
qed

lemma held_of_insert:
  assumes l: "linked xs node key_of m" and a: "node a = None" and k: "map_of m (key_of e) = None"
  shows "held_of (node(a \<mapsto> e)) (AList.update (key_of e) a m) out = (held_of node m out)(key_of e := out e)"
proof
  fix k'
  show "held_of (node(a \<mapsto> e)) (AList.update (key_of e) a m) out k' = ((held_of node m out)(key_of e := out e)) k'"
    using linked_map [OF l, of k' a] a
    by (cases "map_of m k'") (auto simp: held_of_def AList.update_conv')
qed

lemma held_of_update:
  assumes l: "linked xs node key_of m" and a: "node a = Some e" and k: "key_of e' = key_of e"
  shows "held_of (node(a \<mapsto> e')) m out = (held_of node m out)(key_of e := out e')"
proof
  fix k'
  show "held_of (node(a \<mapsto> e')) m out k' = ((held_of node m out)(key_of e := out e')) k'"
    using linked_map [OF l, of k' a] linkedD(5) [OF l a] a
    by (cases "map_of m k'") (auto simp: held_of_def)
qed

lemma held_of_node: "linked xs node key_of m \<Longrightarrow> node a = Some e \<Longrightarrow> held_of node m out (key_of e) = out e"
  by (simp add: held_of_def linkedD(5))

lemma held_of_empty [simp]: "held_of node [] out = Map.empty"
  by (rule ext) (simp add: held_of_def)

end
