(* ===== verification/Volume_State.thy ===== *)
theory Volume_State
  imports Volume_IO Directory_Properties Stripe_Writer Ram_Cache
begin

text \<open>
  The state of an open volume in single-process mode (class Volume in
  \<^verbatim>\<open>src/src/core/volume.hpp\<close>): its stripes, each with its in-memory directory, the bytes of the
  file, the RAM cache and the cache of checksum verdicts.  The RAM cache is reached through its
  virtual interface: an operation of a volume takes the function that executes a \<open>ram_op\<close>, so the
  model covers both implementations.  A directory's current phase is the one the stripe's record
  holds, where the wrap publishes it.
\<close>

section \<open>The state\<close>

record vstripe =
  stripe_core :: volume
  stripe_dir :: Directory
  stripe_owned :: bool
  stripe_remove_epoch :: nat

record 'r vol =
  vol_stripes :: "vstripe list"
  vol_disk :: bytes
  vol_ram :: "'r option"
  vol_checksum_cache :: checksum_cache
  vol_revalidate_state :: u64
  vol_generation :: nat
  vol_teardown :: bool
  vol_hits :: "CacheKey list"
  vol_reads :: nat
  vol_writes :: nat
  vol_fsyncs :: nat
  vol_retained_hits :: nat
  vol_directory_read_timeouts :: nat
  vol_ram_coherence_rejections :: nat
  vol_tag_collision_evictions :: nat
  vol_bucket_full_evictions :: nat
  vol_write_behind_ranges :: nat

text \<open>
  The settings the operations read.  \<open>cf_hit_tracker\<close> says whether a hit tracker is attached; the keys
  handed to it are \<open>vol_hits\<close>.
\<close>

record vol_config =
  cf_lease :: lease_config
  cf_max_object_size :: nat
  cf_max_read_retries :: nat
  cf_verify_checksum_on_read :: bool
  cf_sync_on_write :: bool
  cf_write_behind :: bool
  cf_ram_coherence :: bool
  cf_hit_tracker :: bool
  cf_salt :: "u64 \<times> u64 \<times> u64 \<times> u64"

section \<open>Access to a stripe\<close>

definition core :: "nat \<Rightarrow> 'r vol \<Rightarrow> volume" where
  "core i v = stripe_core (vol_stripes v ! i)"

definition set_core :: "nat \<Rightarrow> volume \<Rightarrow> 'r vol \<Rightarrow> 'r vol" where
  "set_core i c v = v\<lparr>vol_stripes := (vol_stripes v)[i := (vol_stripes v ! i)\<lparr>stripe_core := c\<rparr>]\<rparr>"

definition dir_of :: "nat \<Rightarrow> 'r vol \<Rightarrow> Directory" where
  "dir_of i v = set_current_phase (s_directory_phase (core i v)) (stripe_dir (vol_stripes v ! i))"

definition set_dir :: "nat \<Rightarrow> Directory \<Rightarrow> 'r vol \<Rightarrow> 'r vol" where
  "set_dir i d v = v\<lparr>vol_stripes := (vol_stripes v)[i := (vol_stripes v ! i)\<lparr>stripe_dir := d\<rparr>]\<rparr>"

definition select_stripe :: "CacheKey \<Rightarrow> 'r vol \<Rightarrow> nat option" where
  "select_stripe key v =
     (if vol_stripes v = [] then None else Some (unat (segment_hash key) mod length (vol_stripes v)))"

section \<open>Shared steps of the operations\<close>

definition entry_binds :: "DirEntry \<Rightarrow> Document \<Rightarrow> bool" where
  "entry_binds e doc \<longleftrightarrow> fill_serial doc = ucast (e_fill_serial e)"

definition classify :: "'z stripe_scheme \<Rightarrow> StripeSnapshot \<Rightarrow> u64 \<Rightarrow> bool \<Rightarrow> AdmitClass" where
  "classify s snap off phase = admit_position s (unat off) phase snap"

text \<open>
  The document an entry points at: mapped at the entry's rounded size, and mapped again at its own
  length when that is longer (the same code in \<open>read_sync\<close> and \<open>remove_sync\<close>).
\<close>

definition open_document :: "nat \<Rightarrow> nat \<Rightarrow> nat \<Rightarrow> bytes \<Rightarrow> DocumentReader option" where
  "open_document stripe_size doc_offset map_size disk =
     (case map_region disk doc_offset map_size of
        None \<Rightarrow> None
      | Some mapped \<Rightarrow>
          let reader = mapped_document_reader doc_offset mapped; n = unat (len (r_doc reader)) in
          if \<not> r_valid reader then None
          else if n > map_size then
            if n > stripe_size then None
            else case map_region disk doc_offset n of
                None \<Rightarrow> None
              | Some mapped \<Rightarrow>
                  let reader = mapped_document_reader doc_offset mapped in
                  if \<not> r_valid reader then None else Some reader
          else Some reader)"

text \<open>What \<open>writer_probe\<close> yields to a writer, which holds the stripe's mutex.\<close>

definition writer_probe :: "CacheKey \<Rightarrow> StripeSnapshot \<Rightarrow> nat \<Rightarrow> 'r vol \<Rightarrow> (DirEntry \<times> AdmitClass) list" where
  "writer_probe key snap i v =
     filter (\<lambda>(e, cls). cls \<noteq> kReject)
       (map (\<lambda>e. (e, classify (core i v) snap (e_offset e) (e_phase e))) (probe_all_phases key (dir_of i v)))"

definition kMaxPublishRaceRetries :: nat where "kMaxPublishRaceRetries = 8"

definition extend_for_publish_race :: "nat \<Rightarrow> nat \<Rightarrow> nat \<times> nat" where
  "extend_for_publish_race max_attempts retries =
     (if retries < kMaxPublishRaceRetries then (max_attempts + 1, retries + 1) else (max_attempts, retries))"

definition ram_coherence_active :: "vol_config \<Rightarrow> nat \<Rightarrow> 'r vol \<Rightarrow> bool" where
  "ram_coherence_active cfg i v \<longleftrightarrow> cf_ram_coherence cfg \<and> s_use_mmap_directory (core i v)"

definition admitted_generation :: "nat \<Rightarrow> 'r vol \<Rightarrow> bool" where
  "admitted_generation handle_generation v \<longleftrightarrow> \<not> vol_teardown v \<and> vol_generation v = handle_generation"

definition ram_key :: "CacheKey \<Rightarrow> RamCacheKey" where
  "ram_key key = \<lparr>cache_key = key, alternate_id = Original\<rparr>"

end
