(* ===== verification/Volume_Write.thy ===== *)
theory Volume_Write
  imports Volume_State
begin

text \<open>
  Writing through a volume: \<^verbatim>\<open>write_sync\<close> and the write handle, \<^verbatim>\<open>commit_write\<close> with
  \<^verbatim>\<open>commit_write_impl\<close>, and \<^verbatim>\<open>remove_sync\<close> of \<^verbatim>\<open>src/src/core/volume.cpp\<close>.  A commit builds the
  document, reserves a slot, fills it, advances the cursor, and publishes the entry in the
  directory under a conditional insert; the RAM copy is dropped last.
\<close>

section \<open>Environment\<close>

text \<open>
  The environment of a commit: that of the reservation, the kernel's answers to the fill, whether
  the write lock was still held when the slot was committed, and what other writers do while the
  stripe's mutex is released for the flush, between the election and the insert of a round (other
  processes only), and during the backoff before a round.
\<close>

record 'r commit_env =
  ce_alloc :: alloc_env
  ce_pwrite :: "answer list"
  ce_revalidate :: bool
  ce_flush :: "'r vol \<Rightarrow> 'r vol"
  ce_before_publish :: "nat \<Rightarrow> 'r vol \<Rightarrow> 'r vol"
  ce_backoff :: "nat \<Rightarrow> 'r vol \<Rightarrow> 'r vol"
  ce_sync_file_range_ok :: bool

section \<open>The election\<close>

record election =
  el_verified :: u64
  el_cls :: AdmitClass
  el_clear :: "u64 list"
  el_seen :: "u64 list"

definition election_start :: election where
  "election_start = \<lparr>el_verified = kNoVerifiedEntry, el_cls = kReject, el_clear = [], el_seen = []\<rparr>"

text \<open>A bucket's worth of offsets, without duplicates.\<close>

definition add_offset :: "u64 \<Rightarrow> u64 list \<Rightarrow> u64 list" where
  "add_offset off xs = (if off \<in> set xs then xs else if length xs < kEntriesPerBucket then xs @ [off] else xs)"

definition add_clear :: "u64 \<Rightarrow> election \<Rightarrow> election" where
  "add_clear off el = el\<lparr>el_clear := add_offset off (el_clear el)\<rparr>"

definition elect_verified :: "u64 \<Rightarrow> AdmitClass \<Rightarrow> election \<Rightarrow> election" where
  "elect_verified off cls el =
     (if el_verified el = kNoVerifiedEntry \<or> (cls = kCurrent \<and> el_cls el \<noteq> kCurrent)
      then (if el_verified el \<noteq> kNoVerifiedEntry then add_clear (el_verified el) el else el)
             \<lparr>el_verified := off, el_cls := cls\<rparr>
      else add_clear off el)"

definition elect_step :: "'z stripe_scheme \<Rightarrow> bytes \<Rightarrow> StripeSnapshot \<Rightarrow> CacheKey \<Rightarrow> DirEntry \<times> AdmitClass \<Rightarrow> election \<Rightarrow> election" where
  "elect_step s disk snap key = (\<lambda>(e, cls) el.
     let off = e_offset e; el = el\<lparr>el_seen := add_offset off (el_seen el)\<rparr>; doc_offset = s_offset s + unat off in
     if off = el_verified el then el
     else case map_region disk doc_offset kHeaderSize of
         None \<Rightarrow> el
       | Some region \<Rightarrow>
           let reader = mapped_document_reader doc_offset region in
           if \<not> r_valid reader then (if in_data_area s (unat off) then add_clear off el else el)
           else if \<not> (stamp_admits s snap cls (write_serial (r_doc reader)) \<and> entry_binds e (r_doc reader))
           then add_clear off el
           else if reader_first_key reader \<noteq> digest key then el
           else elect_verified off cls el)"

definition elect :: "CacheKey \<Rightarrow> nat \<Rightarrow> 'r vol \<Rightarrow> election" where
  "elect key i v =
     (let snap = snapshot (core i v)
      in fold (elect_step (core i v) (vol_disk v) snap key) (writer_probe key snap i v) election_start)"

section \<open>Publishing\<close>

definition kMaxStalePublishRetries :: nat where "kMaxStalePublishRetries = 32"

text \<open>Stripe::insert on the in-memory directory, under the stripe's admission.\<close>

definition stripe_insert ::
  "CacheKey \<Rightarrow> nat \<Rightarrow> nat \<Rightarrow> u64 \<Rightarrow> u64 list \<Rightarrow> u64 list \<Rightarrow> u16 \<Rightarrow> nat \<Rightarrow> 'r vol \<Rightarrow> insert_result \<times> 'r vol" where
  "stripe_insert key offset size' verified_offset clear_offsets seen serial i v =
     (case dir_insert key (of_nat offset) (of_nat size') verified_offset
             (Some (classify (core i v) (snapshot (core i v)))) clear_offsets (Some seen) serial (dir_of i v)
      of (res, d) \<Rightarrow> (res, set_dir i d v))"

text \<open>The publish rounds; \<open>left\<close> is how many more stale rounds are allowed.\<close>

fun publish_loop ::
  "'r commit_env \<Rightarrow> nat \<Rightarrow> CacheKey \<Rightarrow> nat \<Rightarrow> nat \<Rightarrow> u16 \<Rightarrow> StripeSnapshot \<Rightarrow> nat \<Rightarrow> nat \<Rightarrow> 'r vol \<Rightarrow>
   insert_result expected \<times> 'r vol" where
  "publish_loop env i key rel doc_size serial snap_at_commit left round' v =
     (if wrapped_since (core i v) snap_at_commit then (Inl Busy, v)
      else
        let el = elect key i v;
            v = ce_before_publish env round' v
        in case stripe_insert key rel doc_size (el_verified el) (el_clear el) (el_seen el) serial i v of (res, v) \<Rightarrow>
             if inserted res then (Inr res, v)
             else if stale res
             then (case left of
                     0 \<Rightarrow> (Inl Busy, v)
                   | Suc left \<Rightarrow>
                       publish_loop env i key rel doc_size serial snap_at_commit left (round' + 1)
                         (if round' \<ge> 1 then ce_backoff env (round' + 1) v else v))
             else (Inl InternalError, v))"

declare publish_loop.simps [simp del]

section \<open>Committing a write\<close>

definition kCoalesceMaxBytes :: nat where "kCoalesceMaxBytes = 64 * 1024"

definition commit_builder :: "CacheKey \<Rightarrow> bytes \<Rightarrow> DocumentBuilder" where
  "commit_builder key header =
     DocumentBuilder_default\<lparr>b_key := digest key, b_header := header, b_type := Type_SingleFrag, b_enable_checksum := True\<rparr>"

text \<open>Filling the reserved slot: the head with its stamps, the content behind it, the zeros of the tail fill.\<close>

definition fill_slot_bytes :: "answer list \<Rightarrow> WriteSlot \<Rightarrow> bytes \<Rightarrow> bytes \<Rightarrow> bytes \<Rightarrow> (bool \<times> answer list \<times> bytes) option" where
  "fill_slot_bytes ks ws doc_head body disk =
     (let coalesce = length body \<le> kCoalesceMaxBytes;
          doc_size = length doc_head + length body;
          doc_head = (if coalesce then doc_head @ body else doc_head);
          tail = (if coalesce then [] else body);
          doc_head = patch_fill_serial (ws_fill_serial ws) (patch_pass_stamp (of_nat (ws_pass ws)) doc_head);
          write_offset = ws_write_offset ws;
          tail_fill = (if ws_fill_end ws \<noteq> 0 then ws_fill_end ws - (write_offset + doc_size) else 0)
      in if ws_fill_end ws \<noteq> 0
         then pwritev_parts ks [doc_head, tail, replicate tail_fill 0] write_offset disk
         else pwrite_parts ks [doc_head, tail] write_offset disk)"

text \<open>The counters of a publish, and the copies in RAM it makes stale.\<close>

definition count_publish :: "insert_result \<Rightarrow> 'r vol \<Rightarrow> 'r vol" where
  "count_publish res v = v\<lparr>
     vol_tag_collision_evictions := vol_tag_collision_evictions v + (if evicted_collider res then 1 else 0),
     vol_bucket_full_evictions := vol_bucket_full_evictions v + (if evicted_full res then 1 else 0),
     vol_writes := vol_writes v + 1\<rparr>"

definition drop_ram_copies :: "(ram_op \<Rightarrow> 'r \<Rightarrow> (ram_result \<times> 'r) option) \<Rightarrow> ram_op \<Rightarrow> nat \<Rightarrow> 'r vol \<Rightarrow> 'r vol option" where
  "drop_ram_copies exec op i v =
     (case vol_ram v of
        None \<Rightarrow> Some v
      | Some ram \<Rightarrow>
          do { let v = v\<lparr>vol_stripes := (vol_stripes v)[i := (vol_stripes v ! i)
                 \<lparr>stripe_remove_epoch := stripe_remove_epoch (vol_stripes v ! i) + 1\<rparr>]\<rparr>;
               (_, ram) \<leftarrow> exec op ram;
               Some (v\<lparr>vol_ram := Some ram\<rparr>) })"

text \<open>What follows the fill: the flush, the checks on the range, the publish, the counters and the RAM copy.\<close>

definition publish_commit ::
  "(ram_op \<Rightarrow> 'r \<Rightarrow> (ram_result \<times> 'r) option) \<Rightarrow> vol_config \<Rightarrow> 'r commit_env \<Rightarrow> nat \<Rightarrow> CacheKey \<Rightarrow> WriteSlot \<Rightarrow> nat \<Rightarrow>
   StripeSnapshot \<Rightarrow> 'r vol \<Rightarrow> (unit expected \<times> 'r vol) option" where
  "publish_commit exec cfg env i key ws doc_size snap_at_commit v =
     (let v = (if cf_sync_on_write cfg then ce_flush env (v\<lparr>vol_fsyncs := vol_fsyncs v + 1\<rparr>) else v);
          write_offset = ws_write_offset ws; rel = write_offset - s_offset (core i v)
      in if write_offset < s_offset (core i v) then Some (Inl InternalError, v)
         else if rel + doc_size > s_size (core i v) then Some (Inl InternalError, v)
         else case publish_loop env i key rel doc_size (ws_fill_serial ws) snap_at_commit kMaxStalePublishRetries 0 v of
             (Inl e, v) \<Rightarrow> Some (Inl e, v)
           | (Inr res, v) \<Rightarrow>
               do { v \<leftarrow> drop_ram_copies exec (OpRemove (ram_key key)) i (count_publish res v); Some (Inr (), v) })"

text \<open>commit_write_impl, with the range it hands to the write-behind.\<close>

definition commit_write_impl ::
  "(ram_op \<Rightarrow> 'r \<Rightarrow> (ram_result \<times> 'r) option) \<Rightarrow> vol_config \<Rightarrow> 'r commit_env \<Rightarrow> nat \<Rightarrow> CacheKey \<Rightarrow> bytes \<Rightarrow> bytes \<Rightarrow> 'r vol \<Rightarrow>
   (unit expected \<times> (nat \<times> nat) \<times> 'r vol) option" where
  "commit_write_impl exec cfg env i key header body v =
     (let doc_head = build_head (commit_builder key header) body; doc_size = length doc_head + length body in
      if \<not> stripe_owned (vol_stripes v ! i) then Some (Inl NotOwned, (0, 0), v)
      else if doc_head = [] then Some (Inl InvalidArgument, (0, 0), v)
      else case allocate_write_slot (cf_lease cfg) (ce_alloc env) doc_size (core i v) of
          (c, Inl e) \<Rightarrow> Some (Inl e, (0, 0), set_core i c v)
        | (c, Inr ws) \<Rightarrow>
            do { (fill_ok, _, disk) \<leftarrow> fill_slot_bytes (ce_pwrite env) ws doc_head body (vol_disk v);
                 let v = (set_core i c v)\<lparr>vol_disk := disk\<rparr>;
                 let written = (if fill_ok \<and> doc_size > kTailFillAboveBytes then (ws_write_offset ws, doc_size) else (0, 0));
                 let snap_at_commit = snapshot (core i v);
                 (case commit_write_slot (ce_revalidate env) ws fill_ok (core i v) of
                    (c, Inl e) \<Rightarrow> Some (Inl e, written, set_core i c v)
                  | (c, Inr u) \<Rightarrow>
                      let v = set_core i c v in
                      if \<not> fill_ok then Some (Inl IoError, written, v)
                      else do { (r, v) \<leftarrow> publish_commit exec cfg env i key ws doc_size snap_at_commit v;
                                Some (r, written, v) }) })"

text \<open>The page-aligned range whose write-back is started.\<close>

definition write_behind_range :: "nat \<times> nat \<Rightarrow> (nat \<times> nat) option" where
  "write_behind_range range' =
     (case range' of (offset, n) \<Rightarrow>
        if n = 0 then None
        else let end' = align_down kTailFillPage (offset + n)
             in if end' \<le> offset then None else Some (offset, end' - offset))"

definition start_write_behind :: "vol_config \<Rightarrow> bool \<Rightarrow> nat \<times> nat \<Rightarrow> 'r vol \<Rightarrow> 'r vol" where
  "start_write_behind cfg ok range' v =
     (if \<not> cf_write_behind cfg then v
      else case write_behind_range range' of
          None \<Rightarrow> v
        | Some r \<Rightarrow> if ok then v\<lparr>vol_write_behind_ranges := vol_write_behind_ranges v + 1\<rparr> else v)"

definition commit_write ::
  "(ram_op \<Rightarrow> 'r \<Rightarrow> (ram_result \<times> 'r) option) \<Rightarrow> vol_config \<Rightarrow> 'r commit_env \<Rightarrow> nat \<Rightarrow> CacheKey \<Rightarrow> bytes \<Rightarrow> bytes \<Rightarrow> nat \<Rightarrow> 'r vol \<Rightarrow>
   (unit expected \<times> 'r vol) option" where
  "commit_write exec cfg env i key header body handle_generation v =
     (if \<not> admitted_generation handle_generation v then Some (Inl Closed, v)
      else do { (r, written, v) \<leftarrow> commit_write_impl exec cfg env i key header body v;
                Some (r, start_write_behind cfg (ce_sync_file_range_ok env) written v) })"

section \<open>Write handles\<close>

record WriteHandle =
  wh_stripe :: nat
  wh_generation :: nat
  wh_key :: CacheKey
  wh_header :: bytes
  wh_content :: bytes
  wh_expected_length :: nat
  wh_written :: nat
  wh_closed :: bool
  wh_aborted :: bool

definition write_sync :: "vol_config \<Rightarrow> CacheKey \<Rightarrow> nat \<Rightarrow> 'r vol \<Rightarrow> WriteHandle expected" where
  "write_sync cfg key declared v =
     (case select_stripe key v of
        None \<Rightarrow> Inl NotInitialized
      | Some i \<Rightarrow>
          if \<not> stripe_owned (vol_stripes v ! i) then Inl NotOwned
          else if cf_max_object_size cfg > 0 \<and> declared > cf_max_object_size cfg then Inl ObjectTooLarge
          else Inr \<lparr>wh_stripe = i, wh_generation = vol_generation v, wh_key = key, wh_header = [], wh_content = [],
                 wh_expected_length = declared, wh_written = 0, wh_closed = False, wh_aborted = False\<rparr>)"

definition kMaxContentSize :: nat where "kMaxContentSize = 2 ^ 32 - 1 - kHeaderSize"

definition admit_append :: "vol_config \<Rightarrow> nat \<Rightarrow> WriteHandle \<Rightarrow> 'r vol \<Rightarrow> unit expected" where
  "admit_append cfg n h v =
     (if wh_aborted h \<or> wh_closed h then Inl Closed
      else if vol_generation v \<noteq> wh_generation h then Inl Closed
      else if cf_max_object_size cfg > 0 \<and> (wh_written h + n) mod 2 ^ 64 > cf_max_object_size cfg then Inl ObjectTooLarge
      else if wh_written h > kMaxContentSize \<or> n > kMaxContentSize - wh_written h then Inl NoSpace
      else Inr ())"

definition handle_write :: "vol_config \<Rightarrow> bytes \<Rightarrow> 'r vol \<Rightarrow> WriteHandle \<Rightarrow> nat expected \<times> WriteHandle" where
  "handle_write cfg data v h =
     (case admit_append cfg (length data) h v of
        Inl e \<Rightarrow> (Inl e, h)
      | Inr u \<Rightarrow> (Inr (length data), h\<lparr>wh_content := wh_content h @ data, wh_written := wh_written h + length data\<rparr>))"

definition handle_set_header :: "bytes \<Rightarrow> WriteHandle \<Rightarrow> WriteHandle" where
  "handle_set_header header h = h\<lparr>wh_header := header\<rparr>"

definition handle_abort :: "WriteHandle \<Rightarrow> WriteHandle" where
  "handle_abort h = h\<lparr>wh_aborted := True\<rparr>"

definition handle_close ::
  "(ram_op \<Rightarrow> 'r \<Rightarrow> (ram_result \<times> 'r) option) \<Rightarrow> vol_config \<Rightarrow> 'r commit_env \<Rightarrow> 'r vol \<Rightarrow> WriteHandle \<Rightarrow>
   (unit expected \<times> WriteHandle \<times> 'r vol) option" where
  "handle_close exec cfg env v h =
     (if wh_aborted h then Some (Inl Closed, h, v)
      else if wh_closed h then Some (Inr (), h, v)
      else do { (r, v) \<leftarrow> commit_write exec cfg env (wh_stripe h) (wh_key h) (wh_header h) (wh_content h) (wh_generation h) v;
                Some (r, h\<lparr>wh_closed := True\<rparr>, v) })"

section \<open>Removing a key\<close>

text \<open>The entries of the key with whether their document is live.\<close>

definition verified_entry :: "'z stripe_scheme \<Rightarrow> bytes \<Rightarrow> StripeSnapshot \<Rightarrow> CacheKey \<Rightarrow> DirEntry \<times> AdmitClass \<Rightarrow> (u64 \<times> bool) option" where
  "verified_entry s disk snap key = (\<lambda>(e, cls).
     case open_document (s_size s) (s_offset s + unat (e_offset e)) (unat (approx_size e)) disk of
       None \<Rightarrow> None
     | Some reader \<Rightarrow>
         if reader_first_key reader \<noteq> digest key then None
         else Some (e_offset e, stamp_admits s snap cls (write_serial (r_doc reader)) \<and> entry_binds e (r_doc reader)))"

text \<open>Stripe::remove_entries_at on the in-memory directory: which offsets were found and removed.\<close>

fun remove_entries_at :: "CacheKey \<Rightarrow> u64 list \<Rightarrow> Directory \<Rightarrow> bool list \<times> Directory" where
  "remove_entries_at key [] d = ([], d)"
| "remove_entries_at key (off # offs) d =
     (case dir_remove_at key off d of (r, d) \<Rightarrow>
      case remove_entries_at key offs d of (rs, d) \<Rightarrow> (r # rs, d))"

definition remove_sync ::
  "(ram_op \<Rightarrow> 'r \<Rightarrow> (ram_result \<times> 'r) option) \<Rightarrow> CacheKey \<Rightarrow> 'r vol \<Rightarrow> (unit expected \<times> 'r vol) option" where
  "remove_sync exec key v =
     (case select_stripe key v of
        None \<Rightarrow> Some (Inl NotInitialized, v)
      | Some i \<Rightarrow>
          if \<not> stripe_owned (vol_stripes v ! i) then Some (Inl NotOwned, v)
          else
            let snap = snapshot (core i v);
                found = List.map_filter (verified_entry (core i v) (vol_disk v) snap key) (writer_probe key snap i v)
            in case remove_entries_at key (map fst found) (dir_of i v) of (removed, d) \<Rightarrow>
              let v = set_dir i d v in
              if list_ex (\<lambda>(r, l). r \<and> l) (zip removed (map snd found))
              then do { v \<leftarrow> drop_ram_copies exec (OpRemoveAll key) i v; Some (Inr (), v) }
              else Some (Inl NotFound, v))"

end
