(* ===== verification/Volume_Read.thy ===== *)
theory Volume_Read
  imports Volume_State
begin

text \<open>
  Reading through a volume: \<^verbatim>\<open>Volume::read_sync\<close> and \<^verbatim>\<open>exists_sync\<close> of \<^verbatim>\<open>src/src/core/volume.cpp\<close>.  A
  read takes no lock, so what other threads do to the volume while it runs is an input: a function
  for each point where the code's test seams sit, and the entries the seqlock scan of the bucket
  handed over.  Readahead hints have no effect on the result and are left out.
\<close>

section \<open>Environment and results\<close>

text \<open>
  One attempt's environment: whether the RAM cache's lock was free for the recency refresh, the
  scan's yield (with whether it completed), the clock, the thread's shard, and what other threads
  do (0: after the snapshot, 1: before the borrow, 2: after it, 3: after the probe).
\<close>

record 'r read_env =
  re_try_lock :: bool
  re_scan :: "CacheKey \<Rightarrow> Directory \<Rightarrow> DirEntry list \<times> bool"
  re_now :: int
  re_shard :: nat
  re_others :: "nat \<Rightarrow> 'r vol \<Rightarrow> 'r vol"

record ReadHandle =
  rh_ram_hit :: bool
  rh_doc :: Document
  rh_header :: bytes
  rh_content :: bytes
  rh_stripe :: "nat option"
  rh_epoch :: nat
  rh_borrow :: BorrowToken

datatype candidate = Skip | BadChecksum | Raced | Found ReadHandle

section \<open>The RAM tier\<close>

definition record_hit :: "vol_config \<Rightarrow> nat \<Rightarrow> CacheKey \<Rightarrow> 'r vol \<Rightarrow> 'r vol" where
  "record_hit cfg i key v =
     (if cf_hit_tracker cfg \<and> stripe_owned (vol_stripes v ! i) then v\<lparr>vol_hits := vol_hits v @ [key]\<rparr> else v)"

definition read_ram ::
  "(ram_op \<Rightarrow> 'r \<Rightarrow> (ram_result \<times> 'r) option) \<Rightarrow> vol_config \<Rightarrow> 'r read_env \<Rightarrow> nat \<Rightarrow> CacheKey \<Rightarrow> 'r vol \<Rightarrow>
   (ReadHandle option \<times> 'r vol) option" where
  "read_ram exec cfg env i key v =
     (case vol_ram v of
        None \<Rightarrow> Some (None, v)
      | Some ram \<Rightarrow>
          do { (r, ram) \<leftarrow> exec (OpGet (ram_key key) (re_try_lock env)) ram;
               let v = v\<lparr>vol_ram := Some ram\<rparr>;
               (case r of
                  Got (Some (data, stamp)) \<Rightarrow>
                    if ram_coherence_active cfg i v \<and> stamp \<noteq> bucket_version key (dir_of i v)
                    then do { (r, ram) \<leftarrow> exec (OpRemove (ram_key key)) ram;
                              Some (None, v\<lparr>vol_ram := Some ram,
                                      vol_ram_coherence_rejections := vol_ram_coherence_rejections v + 1\<rparr>) }
                    else
                      let reader = document_reader data in
                      if is_servable reader
                      then Some (Some \<lparr>rh_ram_hit = True, rh_doc = r_doc reader, rh_header = reader_header reader,
                                   rh_content = reader_content reader, rh_stripe = None, rh_epoch = 0,
                                   rh_borrow = no_token\<rparr>,
                                 record_hit cfg i key (v\<lparr>vol_reads := vol_reads v + 1\<rparr>))
                      else Some (None, v)
                | _ \<Rightarrow> Some (None, v)) })"

section \<open>One candidate\<close>

text \<open>The checksum pass, skipped when this incarnation of the document passed before and no re-check is due.\<close>

definition check_crc :: "vol_config \<Rightarrow> nat \<Rightarrow> DocumentReader \<Rightarrow> 'r vol \<Rightarrow> bool \<times> 'r vol" where
  "check_crc cfg doc_offset reader v =
     (if \<not> cf_verify_checksum_on_read cfg then (True, v)
      else
        let off = of_nat doc_offset; token = checksum_token (cf_salt cfg) off (r_doc reader);
            cached = is_checksum_validated off token (vol_checksum_cache v);
            (due, x) = (if cached then checksum_revalidation_due (vol_revalidate_state v)
                        else (True, vol_revalidate_state v));
            v = v\<lparr>vol_revalidate_state := x\<rparr>
        in if \<not> due then (True, v)
           else if \<not> verify_checksum (r_doc reader) (reader_payload reader)
           then (False, v\<lparr>vol_checksum_cache := forget_checksum_validated off token (vol_checksum_cache v)\<rparr>)
           else (True, v\<lparr>vol_checksum_cache := mark_checksum_validated off token (vol_checksum_cache v)\<rparr>))"

text \<open>Register the borrow, stamp the lease, and look again.\<close>

definition lend ::
  "vol_config \<Rightarrow> 'r read_env \<Rightarrow> nat \<Rightarrow> AdmitClass \<Rightarrow> nat \<Rightarrow> nat \<Rightarrow> DocumentReader \<Rightarrow> 'r vol \<Rightarrow> candidate \<times> 'r vol" where
  "lend cfg env i cls rel epoch_start reader v =
     (let v = re_others env 1 v;
          (c, borrow) = acquire_borrow (cf_lease cfg) (re_shard env) (chunk_of (core i v) rel) (core i v);
          v = set_core i (stamp_read_lease (cf_lease cfg) (steady_now_ns (re_now env)) c) v;
          v = re_others env 2 v
      in if \<not> borrow_still_valid epoch_start borrow (core i v)
         then (Raced, set_core i (release_borrow True borrow (core i v)) v)
         else
           let v = (if cls = kRetained then v\<lparr>vol_retained_hits := vol_retained_hits v + 1\<rparr> else v)
           in (Found \<lparr>rh_ram_hit = False, rh_doc = r_doc reader, rh_header = reader_header reader,
                 rh_content = reader_content reader, rh_stripe = Some i, rh_epoch = epoch_start, rh_borrow = borrow\<rparr>,
               v\<lparr>vol_reads := vol_reads v + 1\<rparr>))"

definition read_candidate ::
  "vol_config \<Rightarrow> 'r read_env \<Rightarrow> nat \<Rightarrow> CacheKey \<Rightarrow> StripeSnapshot \<Rightarrow> DirEntry \<Rightarrow> AdmitClass \<Rightarrow> 'r vol \<Rightarrow> candidate \<times> 'r vol" where
  "read_candidate cfg env i key snap e cls v =
     (let s = core i v; rel = unat (e_offset e); doc_offset = s_offset s + rel in
      case open_document (s_size s) doc_offset (unat (approx_size e)) (vol_disk v) of
        None \<Rightarrow> (Skip, v)
      | Some reader \<Rightarrow>
          if reader_first_key reader \<noteq> digest key \<or> \<not> is_servable reader \<or> \<not> entry_binds e (r_doc reader)
          then (Skip, v)
          else case admit_document s snap cls rel (write_serial (r_doc reader)) of
              None \<Rightarrow> (Skip, v)
            | Some epoch_start \<Rightarrow>
                (case check_crc cfg doc_offset reader v of (ok, v) \<Rightarrow>
                   if \<not> ok then (BadChecksum, v) else lend cfg env i cls rel epoch_start reader v))"

section \<open>The probe\<close>

text \<open>
  The callback over the yielded entries: the outcome, the entries the position leg turned away,
  and whether a checksum failed.
\<close>

fun read_scan ::
  "vol_config \<Rightarrow> 'r read_env \<Rightarrow> nat \<Rightarrow> CacheKey \<Rightarrow> StripeSnapshot \<Rightarrow> DirEntry list \<Rightarrow> (nat \<times> bool) list \<Rightarrow> bool \<Rightarrow> 'r vol \<Rightarrow>
   candidate \<times> (nat \<times> bool) list \<times> bool \<times> 'r vol" where
  "read_scan cfg env i key snap [] rejects bad v = (Skip, rejects, bad, v)"
| "read_scan cfg env i key snap (e # es) rejects bad v =
     (let cls = classify (core i v) snap (e_offset e) (e_phase e) in
      if cls = kReject
      then read_scan cfg env i key snap es (rejects_note (unat (e_offset e)) (e_phase e) rejects) bad v
      else case read_candidate cfg env i key snap e cls v of
          (Skip, v) \<Rightarrow> read_scan cfg env i key snap es rejects bad v
        | (BadChecksum, v) \<Rightarrow> read_scan cfg env i key snap es rejects True v
        | (r, v) \<Rightarrow> (r, rejects, bad, v))"

text \<open>
  An attempt ends the read, or asks for another one (after a publish race, or with a checksum
  verdict).  A scan the callback stopped counts as complete.
\<close>

datatype attempt = Return "ReadHandle expected" | RetryPublish | RetryTorn bool

definition read_disk :: "vol_config \<Rightarrow> 'r read_env \<Rightarrow> nat \<Rightarrow> CacheKey \<Rightarrow> 'r vol \<Rightarrow> attempt \<times> 'r vol" where
  "read_disk cfg env i key v =
     (let snap = snapshot (core i v);
          v = re_others env 0 v;
          (es, complete) = re_scan env key (dir_of i v)
      in case read_scan cfg env i key snap es [] False v of (r, rejects, bad, v) \<Rightarrow>
         (case r of
            Found h \<Rightarrow> (Return (Inr h), record_hit cfg i key v)
          | _ \<Rightarrow>
            if \<not> complete \<and> r \<noteq> Raced
            then (Return (Inl Busy), v\<lparr>vol_directory_read_timeouts := vol_directory_read_timeouts v + 1\<rparr>)
            else
              let v = re_others env 3 v in
              if probe_raced_publish (core i v) rejects then (RetryPublish, v)
              else if \<not> bad \<and> r \<noteq> Raced then (Return (Inl NotFound), v)
              else (RetryTorn bad, v)))"

definition read_attempt ::
  "(ram_op \<Rightarrow> 'r \<Rightarrow> (ram_result \<times> 'r) option) \<Rightarrow> vol_config \<Rightarrow> 'r read_env \<Rightarrow> nat \<Rightarrow> CacheKey \<Rightarrow> 'r vol \<Rightarrow>
   (attempt \<times> 'r vol) option" where
  "read_attempt exec cfg env i key v =
     do { (hit, v) \<leftarrow> read_ram exec cfg env i key v;
          (case hit of Some h \<Rightarrow> Some (Return (Inr h), v) | None \<Rightarrow> Some (read_disk cfg env i key v)) }"

section \<open>The retry loop\<close>

function read_loop ::
  "(ram_op \<Rightarrow> 'r \<Rightarrow> (ram_result \<times> 'r) option) \<Rightarrow> vol_config \<Rightarrow> (nat \<Rightarrow> 'r read_env) \<Rightarrow> nat \<Rightarrow> CacheKey \<Rightarrow>
   nat \<Rightarrow> nat \<Rightarrow> nat \<Rightarrow> bool \<Rightarrow> 'r vol \<Rightarrow> (ReadHandle expected \<times> 'r vol) option" where
  "read_loop exec cfg env i key attempt max_attempts retries saw_bad v =
     (if attempt \<ge> max_attempts then Some (Inl (if saw_bad then Corrupted else NotFound), v)
      else case read_attempt exec cfg (env attempt) i key v of
          None \<Rightarrow> None
        | Some (Return r, v) \<Rightarrow> Some (r, v)
        | Some (RetryPublish, v) \<Rightarrow>
            (case extend_for_publish_race max_attempts retries of (max_attempts, retries) \<Rightarrow>
               read_loop exec cfg env i key (attempt + 1) max_attempts retries saw_bad v)
        | Some (RetryTorn bad, v) \<Rightarrow> read_loop exec cfg env i key (attempt + 1) max_attempts retries (saw_bad \<or> bad) v)"
  by pat_completeness auto
termination
  by (relation "measure (\<lambda>(exec, cfg, env, i, key, attempt, max_attempts, retries, saw_bad, v).
    max_attempts + (kMaxPublishRaceRetries - retries) - attempt)")
    (auto simp: extend_for_publish_race_def split: if_splits)

declare read_loop.simps [simp del]

definition read_sync ::
  "(ram_op \<Rightarrow> 'r \<Rightarrow> (ram_result \<times> 'r) option) \<Rightarrow> vol_config \<Rightarrow> (nat \<Rightarrow> 'r read_env) \<Rightarrow> CacheKey \<Rightarrow> 'r vol \<Rightarrow>
   (ReadHandle expected \<times> 'r vol) option" where
  "read_sync exec cfg env key v =
     (case select_stripe key v of
        None \<Rightarrow> Some (Inl NotInitialized, v)
      | Some i \<Rightarrow> read_loop exec cfg env i key 0 (cf_max_read_retries cfg + 1) 0 False v)"

section \<open>exists\<close>

text \<open>The callback stops at the first admitted entry.\<close>

fun exists_scan :: "'z stripe_scheme \<Rightarrow> StripeSnapshot \<Rightarrow> DirEntry list \<Rightarrow> (nat \<times> bool) list \<Rightarrow> bool \<times> (nat \<times> bool) list" where
  "exists_scan s snap [] rejects = (False, rejects)"
| "exists_scan s snap (e # es) rejects =
     (if classify s snap (e_offset e) (e_phase e) = kReject
      then exists_scan s snap es (rejects_note (unat (e_offset e)) (e_phase e) rejects)
      else (True, rejects))"

function exists_loop ::
  "(nat \<Rightarrow> 'r read_env) \<Rightarrow> nat \<Rightarrow> CacheKey \<Rightarrow> nat \<Rightarrow> nat \<Rightarrow> nat \<Rightarrow> 'r vol \<Rightarrow> bool expected \<times> 'r vol" where
  "exists_loop env i key attempt max_attempts retries v =
     (if attempt \<ge> max_attempts then (Inr False, v)
      else
        let snap = snapshot (core i v);
            v = re_others (env attempt) 0 v;
            (es, complete) = re_scan (env attempt) key (dir_of i v);
            (found, rejects) = exists_scan (core i v) snap es []
        in if \<not> found \<and> \<not> complete
           then (Inl Busy, v\<lparr>vol_directory_read_timeouts := vol_directory_read_timeouts v + 1\<rparr>)
           else
             let v = (if found then v else re_others (env attempt) 3 v) in
             if found \<or> \<not> probe_raced_publish (core i v) rejects then (Inr found, v)
             else case extend_for_publish_race max_attempts retries of (max_attempts, retries) \<Rightarrow>
                    exists_loop env i key (attempt + 1) max_attempts retries v)"
  by pat_completeness auto
termination
  by (relation "measure (\<lambda>(env, i, key, attempt, max_attempts, retries, v).
    max_attempts + (kMaxPublishRaceRetries - retries) - attempt)")
    (auto simp: extend_for_publish_race_def split: if_splits)

declare exists_loop.simps [simp del]

definition exists_sync :: "vol_config \<Rightarrow> (nat \<Rightarrow> 'r read_env) \<Rightarrow> CacheKey \<Rightarrow> 'r vol \<Rightarrow> bool expected \<times> 'r vol" where
  "exists_sync cfg env key v =
     (case select_stripe key v of
        None \<Rightarrow> (Inl NotInitialized, v)
      | Some i \<Rightarrow> exists_loop env i key 0 (cf_max_read_retries cfg + 1) 0 v)"

end
