(* ===== verification/Stripe_Effects.thy ===== *)
theory Stripe_Effects
  imports Stripe_Writer
begin

text \<open>
  What each writer step of a stripe changes and what it leaves alone.  Every
  operation is described through six observations: the geometry, the exposure
  generation, the two cursors, the borrow slots and the lease expiry.  The
  equations are collected in frame, and the proofs about whole operations use
  nothing else of the record updates.
\<close>

named_theorems frame

section \<open>Observations\<close>

definition geom :: "'z stripe_scheme \<Rightarrow> nat \<times> nat \<times> nat \<times> nat \<times> nat \<times> bool \<times> bool" where
  "geom s = (s_offset s, s_size s, s_data_offset s, s_chunks s, s_chunk_size s, s_retain s, s_use_mmap_directory s)"

definition intent_value :: "'z stripe_scheme \<Rightarrow> nat" where
  "intent_value s = (if s_use_mmap_directory s then m_wrap_intent s else s_local_wrap_intent s)"

lemmas view_defs = geom_def exposure_gen_def borrow_slot_of_def lease_expiry_ns_def intent_value_def

lemma geomD:
  assumes "geom a = geom b"
  shows "s_offset a = s_offset b" "s_size a = s_size b" "s_data_offset a = s_data_offset b"
    "s_chunks a = s_chunks b" "s_chunk_size a = s_chunk_size b" "s_retain a = s_retain b"
    "s_use_mmap_directory a = s_use_mmap_directory b"
  using assms by (simp_all add: geom_def)

lemma geom_getters:
  assumes "geom a = geom b"
  shows "data_start_rel a = data_start_rel b" "chunk_of a = chunk_of b"
    "frontier_rel_of a = frontier_rel_of b" "pass_of a = pass_of b"
    "exposure_threshold a = exposure_threshold b" "chunk_index_ceil a = chunk_index_ceil b"
    "geometry_wf a = geometry_wf b" "in_data_area a = in_data_area b"
proof -
  note g = geomD[OF assms]
  show d: "data_start_rel a = data_start_rel b" by (simp add: data_start_rel_def g)
  show c: "chunk_of a = chunk_of b" by (simp add: fun_eq_iff chunk_of_def Let_def d g)
  show "frontier_rel_of a = frontier_rel_of b" by (simp add: fun_eq_iff frontier_rel_of_def Let_def d g)
  show "pass_of a = pass_of b" by (simp add: fun_eq_iff pass_of_def g)
  show "exposure_threshold a = exposure_threshold b" by (simp add: fun_eq_iff exposure_threshold_def c g)
  show "chunk_index_ceil a = chunk_index_ceil b" by (simp add: fun_eq_iff chunk_index_ceil_def Let_def g)
  show "geometry_wf a = geometry_wf b" by (simp add: geometry_wf_def d g)
  show "in_data_area a = in_data_area b" by (simp add: fun_eq_iff in_data_area_def d g)
qed

section \<open>Elementary steps\<close>

lemma set_wrap_intent_value_frame [frame]:
  fixes v :: "volume"
  shows "geom (set_wrap_intent_value x v) = geom v"
    and "exposure_gen (set_wrap_intent_value x v) = exposure_gen v"
    and "s_write_pos (set_wrap_intent_value x v) = s_write_pos v"
    and "m_shared_write_pos (set_wrap_intent_value x v) = m_shared_write_pos v"
    and "borrow_slot_of sh c (set_wrap_intent_value x v) = borrow_slot_of sh c v"
    and "lease_expiry_ns (set_wrap_intent_value x v) = lease_expiry_ns v"
    and "intent_value (set_wrap_intent_value x v) = x"
    and "v_wraps_forced_past_lease (set_wrap_intent_value x v) = v_wraps_forced_past_lease v"
  by (simp_all add: set_wrap_intent_value_def view_defs)

lemma set_wrap_intent_frame [frame]:
  fixes v :: "volume"
  shows "geom (set_wrap_intent b v) = geom v"
    and "exposure_gen (set_wrap_intent b v) = exposure_gen v"
    and "s_write_pos (set_wrap_intent b v) = s_write_pos v"
    and "m_shared_write_pos (set_wrap_intent b v) = m_shared_write_pos v"
    and "borrow_slot_of sh c (set_wrap_intent b v) = borrow_slot_of sh c v"
    and "lease_expiry_ns (set_wrap_intent b v) = lease_expiry_ns v"
    and "intent_value (set_wrap_intent b v) = (if b then kIntentStep else 0)"
    and "v_wraps_forced_past_lease (set_wrap_intent b v) = v_wraps_forced_past_lease v"
  by (simp_all add: set_wrap_intent_def frame)

lemma mark_wrap_committed_frame [frame]:
  fixes v :: "volume"
  shows "geom (mark_wrap_committed p v) = geom v"
    and "exposure_gen (mark_wrap_committed p v) = exposure_gen v"
    and "s_write_pos (mark_wrap_committed p v) = s_write_pos v"
    and "m_shared_write_pos (mark_wrap_committed p v) = m_shared_write_pos v"
    and "borrow_slot_of sh c (mark_wrap_committed p v) = borrow_slot_of sh c v"
    and "lease_expiry_ns (mark_wrap_committed p v) = lease_expiry_ns v"
    and "v_wraps_forced_past_lease (mark_wrap_committed p v) = v_wraps_forced_past_lease v"
  by (simp_all add: mark_wrap_committed_def frame)

lemma store_exposure_gen_frame [frame]:
  fixes v :: "volume"
  shows "geom (store_exposure_gen g v) = geom v"
    and "s_write_pos (store_exposure_gen g v) = s_write_pos v"
    and "m_shared_write_pos (store_exposure_gen g v) = m_shared_write_pos v"
    and "borrow_slot_of sh c (store_exposure_gen g v) = borrow_slot_of sh c v"
    and "lease_expiry_ns (store_exposure_gen g v) = lease_expiry_ns v"
    and "exposure_gen (store_exposure_gen g v) = g"
    and "intent_value (store_exposure_gen g v) = intent_value v"
    and "v_wraps_forced_past_lease (store_exposure_gen g v) = v_wraps_forced_past_lease v"
  by (simp_all add: store_exposure_gen_def view_defs)

lemma publish_deadline_frame [frame]:
  fixes v :: "volume"
  shows "geom (publish_wrap_deferred_deadline d v) = geom v"
    and "exposure_gen (publish_wrap_deferred_deadline d v) = exposure_gen v"
    and "s_write_pos (publish_wrap_deferred_deadline d v) = s_write_pos v"
    and "m_shared_write_pos (publish_wrap_deferred_deadline d v) = m_shared_write_pos v"
    and "borrow_slot_of sh c (publish_wrap_deferred_deadline d v) = borrow_slot_of sh c v"
    and "lease_expiry_ns (publish_wrap_deferred_deadline d v) = lease_expiry_ns v"
    and "intent_value (publish_wrap_deferred_deadline d v) = intent_value v"
    and "v_wraps_forced_past_lease (publish_wrap_deferred_deadline d v) = v_wraps_forced_past_lease v"
  by (simp_all add: publish_wrap_deferred_deadline_def Let_def view_defs)

lemma set_since_frame [frame]:
  fixes v :: "volume"
  shows "geom (v\<lparr>s_wrap_deferred_since_ns := x\<rparr>) = geom v"
    and "exposure_gen (v\<lparr>s_wrap_deferred_since_ns := x\<rparr>) = exposure_gen v"
    and "s_write_pos (v\<lparr>s_wrap_deferred_since_ns := x\<rparr>) = s_write_pos v"
    and "m_shared_write_pos (v\<lparr>s_wrap_deferred_since_ns := x\<rparr>) = m_shared_write_pos v"
    and "borrow_slot_of sh c (v\<lparr>s_wrap_deferred_since_ns := x\<rparr>) = borrow_slot_of sh c v"
    and "lease_expiry_ns (v\<lparr>s_wrap_deferred_since_ns := x\<rparr>) = lease_expiry_ns v"
    and "intent_value (v\<lparr>s_wrap_deferred_since_ns := x\<rparr>) = intent_value v"
  by (simp_all add: view_defs)

lemma end_deferral_frame [frame]:
  fixes v :: "volume"
  shows "geom (end_deferral_episode v) = geom v"
    and "exposure_gen (end_deferral_episode v) = exposure_gen v"
    and "s_write_pos (end_deferral_episode v) = s_write_pos v"
    and "m_shared_write_pos (end_deferral_episode v) = m_shared_write_pos v"
    and "borrow_slot_of sh c (end_deferral_episode v) = borrow_slot_of sh c v"
    and "lease_expiry_ns (end_deferral_episode v) = lease_expiry_ns v"
    and "intent_value (end_deferral_episode v) = intent_value v"
    and "v_wraps_forced_past_lease (end_deferral_episode v) = v_wraps_forced_past_lease v"
  by (simp_all add: end_deferral_episode_def frame)

lemma publish_wrap_phase_frame [frame]:
  shows "geom (publish_wrap_phase p v) = geom v"
    and "exposure_gen (publish_wrap_phase p v) = exposure_gen v"
    and "s_write_pos (publish_wrap_phase p v) = s_write_pos v"
    and "m_shared_write_pos (publish_wrap_phase p v) = m_shared_write_pos v"
    and "borrow_slot_of sh c (publish_wrap_phase p v) = borrow_slot_of sh c v"
    and "lease_expiry_ns (publish_wrap_phase p v) = lease_expiry_ns v"
    and "intent_value (publish_wrap_phase p v) = intent_value v"
    and "v_wraps_forced_past_lease (publish_wrap_phase p v) = v_wraps_forced_past_lease v"
  by (simp_all add: publish_wrap_phase_def Let_def view_defs)

lemma record_wrap_frame [frame]:
  shows "geom (record_wrap now v) = geom v"
    and "exposure_gen (record_wrap now v) = exposure_gen v"
    and "s_write_pos (record_wrap now v) = s_write_pos v"
    and "m_shared_write_pos (record_wrap now v) = m_shared_write_pos v"
    and "borrow_slot_of sh c (record_wrap now v) = borrow_slot_of sh c v"
    and "lease_expiry_ns (record_wrap now v) = lease_expiry_ns v"
    and "intent_value (record_wrap now v) = intent_value v"
    and "v_wraps_forced_past_lease (record_wrap now v) = v_wraps_forced_past_lease v"
  by (simp_all add: record_wrap_def Let_def view_defs)

lemma set_shared_write_pos_frame [frame]:
  fixes v :: "volume"
  shows "geom (set_shared_write_pos p v) = geom v"
    and "exposure_gen (set_shared_write_pos p v) = exposure_gen v"
    and "s_write_pos (set_shared_write_pos p v) = s_write_pos v"
    and "borrow_slot_of sh c (set_shared_write_pos p v) = borrow_slot_of sh c v"
    and "lease_expiry_ns (set_shared_write_pos p v) = lease_expiry_ns v"
    and "m_shared_write_pos (set_shared_write_pos p v) = p"
    and "intent_value (set_shared_write_pos p v) = intent_value v"
    and "v_wraps_forced_past_lease (set_shared_write_pos p v) = v_wraps_forced_past_lease v"
  by (simp_all add: set_shared_write_pos_def view_defs)

lemma set_write_pos_frame [frame]:
  fixes v :: "volume"
  shows "geom (v\<lparr>s_write_pos := p\<rparr>) = geom v"
    and "exposure_gen (v\<lparr>s_write_pos := p\<rparr>) = exposure_gen v"
    and "m_shared_write_pos (v\<lparr>s_write_pos := p\<rparr>) = m_shared_write_pos v"
    and "borrow_slot_of sh c (v\<lparr>s_write_pos := p\<rparr>) = borrow_slot_of sh c v"
    and "lease_expiry_ns (v\<lparr>s_write_pos := p\<rparr>) = lease_expiry_ns v"
    and "s_write_pos (v\<lparr>s_write_pos := p\<rparr>) = p"
    and "intent_value (v\<lparr>s_write_pos := p\<rparr>) = intent_value v"
    and "v_wraps_forced_past_lease (v\<lparr>s_write_pos := p\<rparr>) = v_wraps_forced_past_lease v"
  by (simp_all add: view_defs)

lemma release_write_lock_frame [frame]:
  shows "geom (release_write_lock v) = geom v"
    and "exposure_gen (release_write_lock v) = exposure_gen v"
    and "s_write_pos (release_write_lock v) = s_write_pos v"
    and "m_shared_write_pos (release_write_lock v) = m_shared_write_pos v"
    and "borrow_slot_of sh c (release_write_lock v) = borrow_slot_of sh c v"
    and "lease_expiry_ns (release_write_lock v) = lease_expiry_ns v"
    and "intent_value (release_write_lock v) = intent_value v"
    and "v_wraps_forced_past_lease (release_write_lock v) = v_wraps_forced_past_lease v"
  by (simp_all add: release_write_lock_def view_defs)

lemma force_reset_all_frame [frame]:
  fixes v :: "volume"
  shows "geom (force_reset_all v) = geom v"
    and "exposure_gen (force_reset_all v) = exposure_gen v"
    and "s_write_pos (force_reset_all v) = s_write_pos v"
    and "m_shared_write_pos (force_reset_all v) = m_shared_write_pos v"
    and "lease_expiry_ns (force_reset_all v) = lease_expiry_ns v"
    and "sh < kBorrowShards \<Longrightarrow> c < kMaxChunks \<Longrightarrow> borrow_slot_of sh c (force_reset_all v) = fst (slot_force_reset (borrow_slot_of sh c v))"
    and "intent_value (force_reset_all v) = intent_value v"
    and "v_wraps_forced_past_lease (force_reset_all v) = v_wraps_forced_past_lease v"
  by (simp_all add: force_reset_all_def view_defs)

lemma v_frontier_advances_frame [frame]:
  fixes v :: "volume"
  shows "geom (v\<lparr>v_frontier_advances := x\<rparr>) = geom v"
    and "exposure_gen (v\<lparr>v_frontier_advances := x\<rparr>) = exposure_gen v"
    and "s_write_pos (v\<lparr>v_frontier_advances := x\<rparr>) = s_write_pos v"
    and "m_shared_write_pos (v\<lparr>v_frontier_advances := x\<rparr>) = m_shared_write_pos v"
    and "borrow_slot_of sh c (v\<lparr>v_frontier_advances := x\<rparr>) = borrow_slot_of sh c v"
    and "lease_expiry_ns (v\<lparr>v_frontier_advances := x\<rparr>) = lease_expiry_ns v"
    and "intent_value (v\<lparr>v_frontier_advances := x\<rparr>) = intent_value v"
    and "v_wraps_forced_past_lease (v\<lparr>v_frontier_advances := x\<rparr>) = v_wraps_forced_past_lease v"
  by (simp_all add: view_defs)

lemma v_early_advances_skipped_frame [frame]:
  fixes v :: "volume"
  shows "geom (v\<lparr>v_early_advances_skipped := x\<rparr>) = geom v"
    and "exposure_gen (v\<lparr>v_early_advances_skipped := x\<rparr>) = exposure_gen v"
    and "s_write_pos (v\<lparr>v_early_advances_skipped := x\<rparr>) = s_write_pos v"
    and "m_shared_write_pos (v\<lparr>v_early_advances_skipped := x\<rparr>) = m_shared_write_pos v"
    and "borrow_slot_of sh c (v\<lparr>v_early_advances_skipped := x\<rparr>) = borrow_slot_of sh c v"
    and "lease_expiry_ns (v\<lparr>v_early_advances_skipped := x\<rparr>) = lease_expiry_ns v"
    and "intent_value (v\<lparr>v_early_advances_skipped := x\<rparr>) = intent_value v"
    and "v_wraps_forced_past_lease (v\<lparr>v_early_advances_skipped := x\<rparr>) = v_wraps_forced_past_lease v"
  by (simp_all add: view_defs)

lemma v_advances_deferred_by_lease_frame [frame]:
  fixes v :: "volume"
  shows "geom (v\<lparr>v_advances_deferred_by_lease := x, v_writes_dropped_by_lease := y\<rparr>) = geom v"
    and "exposure_gen (v\<lparr>v_advances_deferred_by_lease := x, v_writes_dropped_by_lease := y\<rparr>) = exposure_gen v"
    and "s_write_pos (v\<lparr>v_advances_deferred_by_lease := x, v_writes_dropped_by_lease := y\<rparr>) = s_write_pos v"
    and "m_shared_write_pos (v\<lparr>v_advances_deferred_by_lease := x, v_writes_dropped_by_lease := y\<rparr>) = m_shared_write_pos v"
    and "borrow_slot_of sh c (v\<lparr>v_advances_deferred_by_lease := x, v_writes_dropped_by_lease := y\<rparr>) = borrow_slot_of sh c v"
    and "lease_expiry_ns (v\<lparr>v_advances_deferred_by_lease := x, v_writes_dropped_by_lease := y\<rparr>) = lease_expiry_ns v"
    and "intent_value (v\<lparr>v_advances_deferred_by_lease := x, v_writes_dropped_by_lease := y\<rparr>) = intent_value v"
    and "v_wraps_forced_past_lease (v\<lparr>v_advances_deferred_by_lease := x, v_writes_dropped_by_lease := y\<rparr>) = v_wraps_forced_past_lease v"
  by (simp_all add: view_defs)

lemma v_wraps_deferred_by_lease_frame [frame]:
  fixes v :: "volume"
  shows "geom (v\<lparr>v_wraps_deferred_by_lease := x, v_writes_dropped_by_lease := y\<rparr>) = geom v"
    and "exposure_gen (v\<lparr>v_wraps_deferred_by_lease := x, v_writes_dropped_by_lease := y\<rparr>) = exposure_gen v"
    and "s_write_pos (v\<lparr>v_wraps_deferred_by_lease := x, v_writes_dropped_by_lease := y\<rparr>) = s_write_pos v"
    and "m_shared_write_pos (v\<lparr>v_wraps_deferred_by_lease := x, v_writes_dropped_by_lease := y\<rparr>) = m_shared_write_pos v"
    and "borrow_slot_of sh c (v\<lparr>v_wraps_deferred_by_lease := x, v_writes_dropped_by_lease := y\<rparr>) = borrow_slot_of sh c v"
    and "lease_expiry_ns (v\<lparr>v_wraps_deferred_by_lease := x, v_writes_dropped_by_lease := y\<rparr>) = lease_expiry_ns v"
    and "intent_value (v\<lparr>v_wraps_deferred_by_lease := x, v_writes_dropped_by_lease := y\<rparr>) = intent_value v"
    and "v_wraps_forced_past_lease (v\<lparr>v_wraps_deferred_by_lease := x, v_writes_dropped_by_lease := y\<rparr>) = v_wraps_forced_past_lease v"
  by (simp_all add: view_defs)

end
