(* ===== verification/Stripe_Alloc.thy ===== *)
theory Stripe_Alloc
  imports Stripe_Effects
begin

text \<open>
  What the gate, a frontier advance, the preparation of a retained write and the
  reservation of a slot do to the observations of a stripe.  A step is calm when it
  leaves geometry, lease and every borrow slot alone, and forced when it is the
  one step that resets every slot past the deferral ceiling.
\<close>

section \<open>Calm and forced steps\<close>

definition calm :: "volume \<Rightarrow> volume \<Rightarrow> bool" where
  "calm v v' \<longleftrightarrow> geom v' = geom v \<and> lease_expiry_ns v' = lease_expiry_ns v \<and>
     (\<forall>sh c. borrow_slot_of sh c v' = borrow_slot_of sh c v) \<and>
     v_wraps_forced_past_lease v' = v_wraps_forced_past_lease v"

definition forced :: "volume \<Rightarrow> volume \<Rightarrow> bool" where
  "forced v v' \<longleftrightarrow> geom v' = geom v \<and> lease_expiry_ns v' = lease_expiry_ns v \<and>
     (\<forall>sh c. sh < kBorrowShards \<longrightarrow> c < kMaxChunks \<longrightarrow>
        borrow_slot_of sh c v' = fst (slot_force_reset (borrow_slot_of sh c v))) \<and>
     v_wraps_forced_past_lease v' = Suc (v_wraps_forced_past_lease v)"

lemma calm_refl [simp]: "calm v v" by (simp add: calm_def)

lemma calm_trans: "calm u v \<Longrightarrow> calm v w \<Longrightarrow> calm u w" by (simp add: calm_def)

lemma calm_forced: "calm u v \<Longrightarrow> forced v w \<Longrightarrow> forced u w" by (simp add: calm_def forced_def)

lemma forced_calm: "forced u v \<Longrightarrow> calm v w \<Longrightarrow> forced u w" by (simp add: calm_def forced_def)

lemma calm_not_forced: "calm u v \<Longrightarrow> \<not> forced u v" by (simp add: calm_def forced_def)

lemma calm_geom: "calm u v \<Longrightarrow> geom v = geom u" by (simp add: calm_def)

lemma calm_steps [intro]:
  "calm v (set_wrap_intent b v)" "calm v (mark_wrap_committed p v)" "calm v (store_exposure_gen g v)"
  "calm v (publish_wrap_deferred_deadline d v)" "calm v (end_deferral_episode v)"
  "calm v (publish_wrap_phase p v)" "calm v (record_wrap now v)" "calm v (set_shared_write_pos p v)"
  "calm v (v\<lparr>s_write_pos := p\<rparr>)" "calm v (release_write_lock v)"
  "calm v (v\<lparr>v_frontier_advances := x\<rparr>)" "calm v (v\<lparr>v_early_advances_skipped := x\<rparr>)"
  "calm v (v\<lparr>v_advances_deferred_by_lease := x, v_writes_dropped_by_lease := y\<rparr>)"
  "calm v (v\<lparr>v_wraps_deferred_by_lease := x, v_writes_dropped_by_lease := y\<rparr>)"
  by (simp_all add: calm_def frame)

section \<open>The gate\<close>

definition lease_live :: "lease_config \<Rightarrow> nat \<Rightarrow> volume \<Rightarrow> bool" where
  "lease_live cfg now v \<longleftrightarrow> c_lease_t_ns cfg \<noteq> 0 \<and> lease_expiry_ns v \<noteq> 0 \<and> lease_expiry_ns v > now
     \<and> lease_expiry_ns v \<le> now + c_lease_t_ns cfg + c_lease_ceiling_ns cfg"

definition chunk_clear :: "nat \<Rightarrow> volume \<Rightarrow> bool" where
  "chunk_clear c v \<longleftrightarrow> (\<forall>sh < kBorrowShards. slot_count (borrow_slot_of sh c v) = 0)"

lemma borrow_count_clear:
  assumes "borrow_count lo hi v = 0" "lo \<le> c" "c < hi"
  shows "chunk_clear c v"
  using assms by (auto simp: borrow_count_def chunk_clear_def borrow_slot_of_def sum_list_eq_0_iff split: if_splits)

lemma borrow_count_clearI:
  assumes "\<And>c. lo \<le> c \<Longrightarrow> c < hi \<Longrightarrow> chunk_clear c v"
  shows "borrow_count lo hi v = 0"
proof -
  have p: "0 < kBorrowShards" by (simp add: kBorrowShards_def)
  show ?thesis
  proof (cases "s_use_mmap_directory v")
    case True
    have "slot_count (m_chunk_borrows v c) = 0" if "lo \<le> c" "c < hi" for c
      using assms[OF that] p True unfolding chunk_clear_def borrow_slot_of_def by auto
    then show ?thesis using True by (simp add: borrow_count_def sum_list_eq_0_iff)
  next
    case False
    then show ?thesis using assms
      by (auto simp: borrow_count_def chunk_clear_def borrow_slot_of_def sum_list_eq_0_iff)
  qed
qed

lemma lease_gate_cases:
  obtains
    (off) "lease_gate cfg now lo hi ep v = (v, True)" "c_lease_t_ns cfg = 0"
  | (clear) "lease_gate cfg now lo hi ep v = (end_deferral_episode v, True)"
      "\<not> lease_live cfg now v \<or> borrow_count lo (min hi kMaxChunks) v = 0"
  | (skip) "lease_gate cfg now lo hi ep v = (v, False)" "lease_live cfg now v"
      "borrow_count lo (min hi kMaxChunks) v \<noteq> 0"
  | (begin_episode) "lease_gate cfg now lo hi ep v =
        (publish_wrap_deferred_deadline (now + c_lease_ceiling_ns cfg) (v\<lparr>s_wrap_deferred_since_ns := now\<rparr>), False)"
      "ep" "s_wrap_deferred_since_ns v = 0" "lease_live cfg now v" "borrow_count lo (min hi kMaxChunks) v \<noteq> 0"
  | (force) "lease_gate cfg now lo hi ep v =
        (force_reset_all (publish_wrap_deferred_deadline 0
           (v\<lparr>v_wraps_forced_past_lease := v_wraps_forced_past_lease v + 1, s_wrap_deferred_since_ns := 0\<rparr>)), True)"
      "ep" "s_wrap_deferred_since_ns v \<noteq> 0" "sub64 now (s_wrap_deferred_since_ns v) > c_lease_ceiling_ns cfg"
      "lease_live cfg now v" "borrow_count lo (min hi kMaxChunks) v \<noteq> 0"
proof -
  let ?L = "lease_expiry_ns v \<noteq> 0 \<and> lease_expiry_ns v > now
     \<and> lease_expiry_ns v \<le> now + c_lease_t_ns cfg + c_lease_ceiling_ns cfg"
  let ?B = "borrow_count lo (min hi kMaxChunks) v \<noteq> 0"
  let ?F = "s_wrap_deferred_since_ns v \<noteq> 0 \<and> sub64 now (s_wrap_deferred_since_ns v) > c_lease_ceiling_ns cfg"
  consider (1) "c_lease_t_ns cfg = 0" | (2) "c_lease_t_ns cfg \<noteq> 0" "\<not> ?L \<or> \<not> ?B"
    | (3) "c_lease_t_ns cfg \<noteq> 0" "?L" "?B" "\<not> ep"
    | (4) "c_lease_t_ns cfg \<noteq> 0" "?L" "?B" "ep" "?F"
    | (5) "c_lease_t_ns cfg \<noteq> 0" "?L" "?B" "ep" "s_wrap_deferred_since_ns v = 0"
    | (6) "c_lease_t_ns cfg \<noteq> 0" "?L" "?B" "ep" "s_wrap_deferred_since_ns v \<noteq> 0" "\<not> ?F"
    by blast
  then show thesis
  proof cases
    case 1 then show ?thesis by (intro off) (simp_all add: lease_gate_def)
  next
    case 2 then show ?thesis by (intro clear) (auto simp: lease_gate_def Let_def lease_live_def)
  next
    case 3 then show ?thesis by (intro skip) (simp_all add: lease_gate_def Let_def lease_live_def)
  next
    case 4 then show ?thesis by (intro force) (simp_all add: lease_gate_def Let_def lease_live_def)
  next
    case 5 then show ?thesis by (intro begin_episode) (simp_all add: lease_gate_def Let_def lease_live_def)
  next
    case 6 then show ?thesis by (intro skip) (simp_all add: lease_gate_def Let_def lease_live_def)
  qed
qed

lemma lease_gate_positions:
  "exposure_gen (fst (lease_gate cfg now lo hi ep v)) = exposure_gen v"
  "s_write_pos (fst (lease_gate cfg now lo hi ep v)) = s_write_pos v"
  "m_shared_write_pos (fst (lease_gate cfg now lo hi ep v)) = m_shared_write_pos v"
  "intent_value (fst (lease_gate cfg now lo hi ep v)) = intent_value v"
  by (cases rule: lease_gate_cases[of cfg now lo hi ep v];
      simp add: force_reset_all_def publish_wrap_deferred_deadline_def end_deferral_episode_def
        exposure_gen_def intent_value_def Let_def)+

lemma force_step_forced:
  "forced v (force_reset_all (publish_wrap_deferred_deadline 0
     (v\<lparr>v_wraps_forced_past_lease := v_wraps_forced_past_lease v + 1, s_wrap_deferred_since_ns := 0\<rparr>)))"
  by (simp add: forced_def force_reset_all_def publish_wrap_deferred_deadline_def Let_def view_defs)

lemma lease_gate_effect:
  "calm v (fst (lease_gate cfg now lo hi ep v)) \<or>
   ep \<and> snd (lease_gate cfg now lo hi ep v) \<and> forced v (fst (lease_gate cfg now lo hi ep v))"
proof (cases rule: lease_gate_cases[of cfg now lo hi ep v])
  case force
  show ?thesis unfolding force(1) fst_conv snd_conv using force(2) force_step_forced by blast
qed (simp_all add: calm_def frame)

lemma lease_gate_open:
  assumes "snd (lease_gate cfg now lo hi ep v)" "calm v (fst (lease_gate cfg now lo hi ep v))"
    "lease_live cfg now v" "lo \<le> c" "c < hi" "c < kMaxChunks"
  shows "chunk_clear c v"
proof (cases rule: lease_gate_cases[of cfg now lo hi ep v])
  case off
  then show ?thesis using assms(3) by (simp add: lease_live_def)
next
  case clear
  then show ?thesis using assms by (intro borrow_count_clear[of lo "min hi kMaxChunks"]) auto
next
  case force
  show ?thesis using assms(2) calm_not_forced force_step_forced unfolding force(1) fst_conv by blast
qed (use assms(1) in simp_all)

lemma calm_clear: "calm u v \<Longrightarrow> chunk_clear c v = chunk_clear c u"
  by (simp add: calm_def chunk_clear_def)

lemma calm_live: "calm u v \<Longrightarrow> lease_live cfg now v = lease_live cfg now u"
  by (simp add: calm_def lease_live_def)

section \<open>A frontier advance\<close>

lemma advance_frontier_eq:
  "advance_frontier cfg now pass fr to ep v =
     (let g = lease_gate cfg now fr to ep (set_wrap_intent True v) in
      if to \<le> fr then (v, True)
      else if \<not> snd g then (set_wrap_intent False (fst g), False)
      else let w = set_wrap_intent False (store_exposure_gen (pass * (s_chunks (fst g) + 1) + to) (fst g))
           in (w\<lparr>v_frontier_advances := v_frontier_advances w + 1\<rparr>, True))"
  by (simp add: advance_frontier_def Let_def split: prod.splits)

lemma gate_after_intent_effect:
  "calm v (fst (lease_gate cfg now lo hi ep (set_wrap_intent b v))) \<or>
   ep \<and> snd (lease_gate cfg now lo hi ep (set_wrap_intent b v)) \<and>
     forced v (fst (lease_gate cfg now lo hi ep (set_wrap_intent b v)))"
  using lease_gate_effect[of "set_wrap_intent b v" cfg now lo hi ep] calm_steps(1)[of v b]
  by (meson calm_trans calm_forced)

lemma gate_after_intent_geom: "geom (fst (lease_gate cfg now lo hi ep (set_wrap_intent b v))) = geom v"
  using gate_after_intent_effect[of v cfg now lo hi ep b] by (auto simp: calm_def forced_def)

lemma advance_frontier_positions:
  fixes cfg now pass fr to ep v
  defines "r \<equiv> advance_frontier cfg now pass fr to ep v"
  shows "geom (fst r) = geom v" "s_write_pos (fst r) = s_write_pos v"
    "m_shared_write_pos (fst r) = m_shared_write_pos v"
    "exposure_gen (fst r) = (if snd r \<and> fr < to then pass * (s_chunks v + 1) + to else exposure_gen v)"
    "intent_value (fst r) = (if fr < to then 0 else intent_value v)"
  unfolding r_def advance_frontier_eq
  by (auto simp: Let_def frame lease_gate_positions gate_after_intent_geom geomD(4)[OF gate_after_intent_geom])

lemma advance_frontier_effect:
  fixes cfg now pass fr to ep v
  defines "r \<equiv> advance_frontier cfg now pass fr to ep v"
  shows "calm v (fst r) \<or> ep \<and> snd r \<and> forced v (fst r)"
proof -
  let ?g = "lease_gate cfg now fr to ep (set_wrap_intent True v)"
  have "calm (fst ?g) (fst r)" if "fr < to"
    using that by (auto simp: r_def advance_frontier_eq Let_def calm_def frame)
  moreover have "snd ?g \<longrightarrow> snd r" by (simp add: r_def advance_frontier_eq Let_def)
  moreover have "to \<le> fr \<Longrightarrow> fst r = v" by (simp add: r_def advance_frontier_eq)
  ultimately show ?thesis
    using gate_after_intent_effect[of v cfg now fr to ep True]
    by (metis calm_refl calm_trans forced_calm not_less)
qed

lemma advance_frontier_clear:
  fixes cfg now pass fr to ep v
  defines "r \<equiv> advance_frontier cfg now pass fr to ep v"
  assumes "snd r" "calm v (fst r)" "lease_live cfg now v" "fr \<le> c" "c < to" "c < kMaxChunks"
  shows "chunk_clear c v"
proof -
  let ?u = "set_wrap_intent True v"
  let ?g = "lease_gate cfg now fr to ep ?u"
  have lt: "fr < to" using assms by simp
  have g: "snd ?g" using assms(2) lt by (auto simp: r_def advance_frontier_eq Let_def split: if_splits)
  have "calm (fst ?g) (fst r)" using g lt by (simp add: r_def advance_frontier_eq Let_def calm_def frame)
  then have "calm ?u (fst ?g)"
    using assms(3) lease_gate_effect[of ?u cfg now fr to ep] calm_steps(1)[of v True]
    by (metis calm_forced calm_not_forced forced_calm)
  then have "chunk_clear c ?u"
    using g assms(4-7) calm_live[OF calm_steps(1)] by (intro lease_gate_open[of cfg now fr to ep]) auto
  then show ?thesis by (simp add: calm_clear[OF calm_steps(1)])
qed

text \<open>The frontier index that covers an end position covers it.\<close>

lemma chunk_index_ceil_le: "chunk_index_ceil s x \<le> s_chunks s"
  by (simp add: chunk_index_ceil_def Let_def)

lemma chunk_index_ceil_covers:
  assumes wf: "geometry_wf s" and x: "x \<le> s_offset s + s_size s"
  shows "x \<le> s_offset s + frontier_rel_of s (chunk_index_ceil s x)"
proof (cases "x \<le> s_data_offset s \<or> chunk_index_ceil s x = s_chunks s")
  case True
  have "s_data_offset s \<le> s_offset s + frontier_rel_of s (chunk_index_ceil s x)"
    using frontier_rel_of_mono[OF wf, of 0 "chunk_index_ceil s x"]
    by (simp add: frontier_rel_of_zero[OF wf] data_start_rel_def)
  then show ?thesis using True x by (auto simp: frontier_rel_of_all)
next
  case False
  let ?t = "chunk_index_ceil s x"
  have q: "0 < s_chunk_size s" using wf by (simp add: geometry_wf_def)
  have t: "?t < s_chunks s" using False chunk_index_ceil_le[of s x] by linarith
  have "?t = (x - s_data_offset s + s_chunk_size s - 1) div s_chunk_size s"
    using False t q by (auto simp: chunk_index_ceil_def Let_def min_def split: if_splits)
  then have "x - s_data_offset s \<le> ?t * s_chunk_size s"
    using ceil_div_le_iff[OF q, of "x - s_data_offset s" ?t] by simp
  then show ?thesis using wf False
    by (simp add: frontier_rel_of_inner[OF wf t] data_start_rel_def geometry_wf_def)
qed

section \<open>Preparing a retained write\<close>

lemma retention_wrap_frame:
  "geom (retention_wrap env L p v) = geom v" "calm v (retention_wrap env L p v)"
  "s_write_pos (retention_wrap env L p v) = s_data_offset v"
  "exposure_gen (retention_wrap env L p v) = p * (s_chunks v + 1)"
  "intent_value (retention_wrap env L p v) = 0"
  "m_shared_write_pos (retention_wrap env L p v) =
     (if L \<and> ae_revalidate env 1 then s_data_offset v else m_shared_write_pos v)"
proof -
  let ?a = "(mark_wrap_committed p v)\<lparr>s_write_pos := s_data_offset (mark_wrap_committed p v)\<rparr>"
  let ?b = "if L \<and> ae_revalidate env 1 then set_shared_write_pos (s_data_offset ?a) ?a else ?a"
  let ?c = "publish_wrap_phase p ?b"
  have eq: "retention_wrap env L p v = set_wrap_intent False (record_wrap (steady_now_ns (ae_clock env 2))
      (store_exposure_gen (p * (s_chunks ?c + 1)) ?c))"
    by (simp only: retention_wrap_def Let_def)
  have ga: "geom ?a = geom v" by (simp add: frame)
  have gc: "geom ?c = geom v" using ga by (simp add: frame)
  show "geom (retention_wrap env L p v) = geom v" using gc by (simp add: eq frame)
  show "s_write_pos (retention_wrap env L p v) = s_data_offset v"
    using geomD(3)[OF mark_wrap_committed_frame(1)] by (simp add: eq frame)
  show "exposure_gen (retention_wrap env L p v) = p * (s_chunks v + 1)"
    using geomD(4)[OF gc] by (simp add: eq frame)
  show "intent_value (retention_wrap env L p v) = 0" by (simp add: eq frame)
  show "m_shared_write_pos (retention_wrap env L p v) =
     (if L \<and> ae_revalidate env 1 then s_data_offset v else m_shared_write_pos v)"
    using geomD(3)[OF ga] by (simp add: eq frame)
  show "calm v (retention_wrap env L p v)" using gc by (simp add: eq calm_def frame)
qed

lemma mandatory_geom: "geom (fst (prepare_mandatory cfg env d p f v)) = geom v"
  by (simp add: prepare_mandatory_def Let_def frame advance_frontier_positions)

lemma gen_split: "exposure_gen v = exposure_gen v div (s_chunks v + 1) * (s_chunks v + 1) + exposure_gen v mod (s_chunks v + 1)"
  by (simp only: div_mult_mod_eq)

lemma prepare_wrap_spec:
  assumes wf: "geometry_wf v" and w: "s_data_offset v \<le> s_write_pos v" "s_write_pos v \<le> s_offset v + s_size v"
    and d: "d \<le> s_offset v + s_size v - s_data_offset v"
    and A: "prepare_wrap env d L v = (va, p, f)"
  defines "N \<equiv> s_chunks v"
  shows "calm v va" "exposure_gen va = p * (N + 1) + f" "f \<le> N" "s_data_offset v \<le> s_write_pos va"
    "s_write_pos va + d \<le> s_offset v + s_size v"
    "va = v \<and> p = exposure_gen v div (N + 1) \<and> f = exposure_gen v mod (N + 1) \<or>
     va = retention_wrap env L p v \<and> p = exposure_gen v div (N + 1) + 1 \<and> f = 0"
proof -
  have end64: "s_offset v + s_size v < 2 ^ 64" using wf by (simp add: geometry_wf_def)
  have sub: "sub64 (s_offset v + s_size v) (s_write_pos v) = s_offset v + s_size v - s_write_pos v"
    using w end64 by (intro sub64_le) auto
  have m: "exposure_gen v mod (N + 1) \<le> N"
    using mod_less_divisor[of "N + 1" "exposure_gen v"] by linarith
  define P where "P = exposure_gen v div (N + 1)"
  define F where "F = exposure_gen v mod (N + 1)"
  have G: "exposure_gen v = P * (N + 1) + F" unfolding P_def F_def by (simp only: div_mult_mod_eq)
  have "prepare_wrap env d L v =
      (if d > s_offset v + s_size v - s_write_pos v
       then (retention_wrap env L (P + 1) v, P + 1, 0) else (v, P, F))"
    using m by (simp only: prepare_wrap_def Let_def sub N_def[symmetric] P_def[symmetric] F_def[symmetric]
        min_absorb1)
  then have "va = v \<and> p = P \<and> f = F \<and> d \<le> s_offset v + s_size v - s_write_pos v \<or>
      va = retention_wrap env L p v \<and> p = P + 1 \<and> f = 0"
    using A by (simp split: if_splits)
  then consider (stay) "va = v" "p = P" "f = F" "d \<le> s_offset v + s_size v - s_write_pos v"
    | (wrap) "va = retention_wrap env L p v" "p = P + 1" "f = 0" by blast
  then show "calm v va" "exposure_gen va = p * (N + 1) + f" "f \<le> N" "s_data_offset v \<le> s_write_pos va"
    "s_write_pos va + d \<le> s_offset v + s_size v"
    "va = v \<and> p = exposure_gen v div (N + 1) \<and> f = exposure_gen v mod (N + 1) \<or>
     va = retention_wrap env L p v \<and> p = exposure_gen v div (N + 1) + 1 \<and> f = 0"
    unfolding P_def[symmetric] F_def[symmetric] using w d m[folded F_def] G wf
    by (cases; simp add: retention_wrap_frame N_def geometry_wf_def)+
qed

lemma prepare_mandatory_spec:
  assumes wf: "geometry_wf v" and G: "exposure_gen v = p * (s_chunks v + 1) + f" "f \<le> s_chunks v"
    and w: "s_write_pos v + d \<le> s_offset v + s_size v"
    and B: "prepare_mandatory cfg env d p f v = (vb, ok, g)"
  shows "s_write_pos vb = s_write_pos v" "m_shared_write_pos vb = m_shared_write_pos v"
    "intent_value v = 0 \<Longrightarrow> intent_value vb = 0"
    "calm v vb \<or> ok \<and> forced v vb"
    "\<not> ok \<Longrightarrow> exposure_gen vb = exposure_gen v"
    "ok \<Longrightarrow> f \<le> g \<and> g \<le> s_chunks v \<and> exposure_gen vb = p * (s_chunks v + 1) + g
       \<and> s_write_pos v + d \<le> s_offset v + frontier_rel_of v g"
    "ok \<Longrightarrow> calm v vb \<Longrightarrow> lease_live cfg (steady_now_ns (ae_clock env 1)) v \<Longrightarrow> f \<le> c \<Longrightarrow> c < g \<Longrightarrow> chunk_clear c v"
proof -
  define need t r where "need = s_write_pos v + d" and "t = chunk_index_ceil v need"
    and "r = advance_frontier cfg (steady_now_ns (ae_clock env 1)) p f t True v"
  let ?far = "need > s_offset v + frontier_rel_of v f"
  have cov: "need \<le> s_offset v + frontier_rel_of v t"
    unfolding t_def using w by (intro chunk_index_ceil_covers[OF wf]) (simp add: need_def)
  have tN: "t \<le> s_chunks v" by (simp add: t_def chunk_index_ceil_le)
  have ft: "f < t" if ?far
  proof (rule ccontr)
    assume "\<not> f < t"
    then have "frontier_rel_of v t \<le> frontier_rel_of v f" by (intro frontier_rel_of_mono[OF wf]) simp
    then show False using that cov by linarith
  qed
  note pos = advance_frontier_positions[of cfg "steady_now_ns (ae_clock env 1)" p f t True v, folded r_def]
  note eff = advance_frontier_effect[of v cfg "steady_now_ns (ae_clock env 1)" p f t True, folded r_def]
  define held where "held = (fst r)\<lparr>v_advances_deferred_by_lease := v_advances_deferred_by_lease (fst r) + 1,
        v_writes_dropped_by_lease := v_writes_dropped_by_lease (fst r) + 1\<rparr>"
  have "(vb, ok, g) = (if ?far then if \<not> snd r then (held, False, f) else (fst r, True, t) else (v, True, f))"
    unfolding B[symmetric] held_def by (simp only: prepare_mandatory_def Let_def need_def t_def r_def)
  then consider (near) "\<not> ?far" "vb = v" "ok" "g = f"
    | (go) ?far "vb = fst r" "ok" "snd r" "g = t"
    | (held) ?far "\<not> ok" "\<not> snd r" "g = f" "vb = held"
    by (cases ?far; cases "snd r"; simp)
  note cs = this
  have ch: "calm (fst r) held" by (simp only: held_def calm_steps)
  have hp: "s_write_pos held = s_write_pos v" "m_shared_write_pos held = m_shared_write_pos v"
    "intent_value v = 0 \<Longrightarrow> intent_value held = 0" "\<not> snd r \<Longrightarrow> exposure_gen held = exposure_gen v"
    by (simp_all add: held_def frame pos)
  show "s_write_pos vb = s_write_pos v" using cs by cases (simp_all only: hp pos)
  show "m_shared_write_pos vb = m_shared_write_pos v" using cs by cases (simp_all only: hp pos)
  show "intent_value v = 0 \<Longrightarrow> intent_value vb = 0" using cs by cases (simp_all add: hp pos)
  show "\<not> ok \<Longrightarrow> exposure_gen vb = exposure_gen v" using cs by cases (simp_all add: hp)
  show "calm v vb \<or> ok \<and> forced v vb"
    using cs
  proof cases
    case held
    then show ?thesis using eff calm_trans[OF _ ch] by blast
  qed (use eff in auto)
  show "ok \<Longrightarrow> f \<le> g \<and> g \<le> s_chunks v \<and> exposure_gen vb = p * (s_chunks v + 1) + g
       \<and> s_write_pos v + d \<le> s_offset v + frontier_rel_of v g"
    using cs
  proof cases
    case near
    then show ?thesis using G by (simp add: need_def)
  next
    case go
    then show ?thesis using cov tN ft[OF go(1)] by (simp add: pos need_def)
  qed simp
  show "ok \<Longrightarrow> calm v vb \<Longrightarrow> lease_live cfg (steady_now_ns (ae_clock env 1)) v \<Longrightarrow> f \<le> c \<Longrightarrow> c < g \<Longrightarrow> chunk_clear c v"
    using cs
  proof cases
    case go
    assume a: "calm v vb" "lease_live cfg (steady_now_ns (ae_clock env 1)) v" "f \<le> c" "c < g"
    have "c < kMaxChunks" using a go tN wf by (simp add: geometry_wf_def)
    then show ?thesis using go a
      by (intro advance_frontier_clear[of cfg "steady_now_ns (ae_clock env 1)" p f t True]) (simp_all add: r_def)
  qed simp_all
qed

lemma prepare_early_spec:
  fixes cfg env need p f v
  assumes wf: "geometry_wf v" and G: "exposure_gen v = p * (s_chunks v + 1) + f" "f \<le> s_chunks v"
  defines "v' \<equiv> prepare_early cfg env need p f v"
  shows "calm v v'" "s_write_pos v' = s_write_pos v" "m_shared_write_pos v' = m_shared_write_pos v"
    "intent_value v = 0 \<Longrightarrow> intent_value v' = 0"
    "\<exists>g. f \<le> g \<and> g \<le> s_chunks v \<and> exposure_gen v' = p * (s_chunks v + 1) + g \<and>
       (lease_live cfg (steady_now_ns (ae_clock env 3)) v \<longrightarrow> (\<forall>c. f \<le> c \<and> c < g \<longrightarrow> chunk_clear c v))"
proof -
  define t r where "t = chunk_index_ceil v (need + s_chunk_size v div 2)"
    and "r = advance_frontier cfg (steady_now_ns (ae_clock env 3)) p f t False v"
  define skipped where "skipped = (fst r)\<lparr>v_early_advances_skipped := v_early_advances_skipped (fst r) + 1\<rparr>"
  have tN: "t \<le> s_chunks v" by (simp add: t_def chunk_index_ceil_le)
  note pos = advance_frontier_positions[of cfg "steady_now_ns (ae_clock env 3)" p f t False v, folded r_def]
  have eff: "calm v (fst r)"
    using advance_frontier_effect[of v cfg "steady_now_ns (ae_clock env 3)" p f t False, folded r_def] by simp
  have sk: "calm v skipped" using eff by (rule calm_trans) (simp only: skipped_def calm_steps)
  have skp: "s_write_pos skipped = s_write_pos v" "m_shared_write_pos skipped = m_shared_write_pos v"
    "intent_value v = 0 \<Longrightarrow> intent_value skipped = 0" "\<not> snd r \<Longrightarrow> exposure_gen skipped = exposure_gen v"
    by (simp_all add: skipped_def frame pos)
  have "v' = v \<or> v' = fst r \<and> snd r \<or> v' = skipped \<and> \<not> snd r"
    unfolding v'_def skipped_def r_def t_def by (simp only: prepare_early_def Let_def split: if_splits) blast
  then consider (none) "v' = v" | (moved) "v' = fst r" "snd r" | (skipped) "v' = skipped" "\<not> snd r" by blast
  note cs = this
  show "calm v v'" using cs eff sk by cases simp_all
  show "s_write_pos v' = s_write_pos v" using cs by cases (simp_all only: pos skp)
  show "m_shared_write_pos v' = m_shared_write_pos v" using cs by cases (simp_all only: pos skp)
  show "intent_value v = 0 \<Longrightarrow> intent_value v' = 0" using cs by cases (simp_all add: pos skp)
  show "\<exists>g. f \<le> g \<and> g \<le> s_chunks v \<and> exposure_gen v' = p * (s_chunks v + 1) + g \<and>
       (lease_live cfg (steady_now_ns (ae_clock env 3)) v \<longrightarrow> (\<forall>c. f \<le> c \<and> c < g \<longrightarrow> chunk_clear c v))"
    using cs
  proof cases
    case moved
    have "chunk_clear c v" if "lease_live cfg (steady_now_ns (ae_clock env 3)) v" "f \<le> c" "c < t" for c
      using that moved eff tN wf
      by (intro advance_frontier_clear[of cfg "steady_now_ns (ae_clock env 3)" p f t False])
         (simp_all add: r_def geometry_wf_def)
    then show ?thesis using moved tN G by (intro exI[of _ "max f t"]) (auto simp: pos max_def)
  qed (use G skp in auto)
qed

section \<open>What a reservation does\<close>

definition pass_now :: "'z stripe_scheme \<Rightarrow> nat" where
  "pass_now v = exposure_gen v div (s_chunks v + 1)"

definition frontier_now :: "'z stripe_scheme \<Rightarrow> nat" where
  "frontier_now v = exposure_gen v mod (s_chunks v + 1)"

lemma pass_frontier:
  assumes "exposure_gen v = p * (s_chunks v + 1) + f" "f \<le> s_chunks v"
  shows "pass_now v = p" "frontier_now v = f"
  using assms by (simp_all add: pass_now_def frontier_now_def del: mult_Suc_right)

lemma gen_pass_frontier: "exposure_gen v = pass_now v * (s_chunks v + 1) + frontier_now v"
  unfolding pass_now_def frontier_now_def by (simp only: div_mult_mod_eq)

lemma frontier_now_le: "frontier_now v \<le> s_chunks v"
  using mod_less_divisor[of "s_chunks v + 1" "exposure_gen v"] by (simp add: frontier_now_def)

text \<open>
  The chunks a step from v to v' hands to the fill: those between the old and the
  new frontier, counted from the start of the area after a wrap.
\<close>

definition swept :: "'z stripe_scheme \<Rightarrow> 'z stripe_scheme \<Rightarrow> nat \<Rightarrow> bool" where
  "swept v v' c \<longleftrightarrow> c < frontier_now v' \<and> (pass_now v' = pass_now v \<longrightarrow> frontier_now v \<le> c)"

text \<open>
  A move of pass, frontier and cursor from v, whose cursor is cur, to v', that makes
  room for d bytes at w.
\<close>

definition write_move :: "lease_config \<Rightarrow> alloc_env \<Rightarrow> nat \<Rightarrow> nat \<Rightarrow> nat \<Rightarrow> volume \<Rightarrow> volume \<Rightarrow> bool" where
  "write_move cfg env cur w d v v' \<longleftrightarrow>
     (calm v v' \<or> forced v v') \<and>
     (pass_now v' = pass_now v \<and> frontier_now v \<le> frontier_now v' \<and> w = cur
      \<and> m_shared_write_pos v' = m_shared_write_pos v \<or>
      pass_now v' = pass_now v + 1 \<and> w = s_data_offset v
      \<and> (m_shared_write_pos v' = s_data_offset v \<or> m_shared_write_pos v' = m_shared_write_pos v)) \<and>
     s_write_pos v' = w \<and> w + d \<le> s_offset v + s_size v \<and>
     (s_retain v \<longrightarrow> w + d \<le> s_offset v + frontier_rel_of v (frontier_now v')) \<and>
     (\<not> s_retain v \<longrightarrow> frontier_now v' = (if pass_now v' = pass_now v then frontier_now v else s_chunks v)) \<and>
     (calm v v' \<longrightarrow> lease_live cfg (steady_now_ns (ae_clock env 1)) v \<longrightarrow>
        lease_live cfg (steady_now_ns (ae_clock env 3)) v \<longrightarrow> (\<forall>c. swept v v' c \<longrightarrow> chunk_clear c v)) \<and>
     (intent_value v = 0 \<longrightarrow> intent_value v' = 0)"

lemma retention_prepare_some:
  assumes wf: "geometry_wf v" and w: "s_data_offset v \<le> s_write_pos v" "s_write_pos v \<le> s_offset v + s_size v"
    and d: "d \<le> s_offset v + s_size v - s_data_offset v" and ret: "s_retain v"
    and R: "retention_prepare cfg env d L v = (v', Some p)"
  shows "write_move cfg env (s_write_pos v) (s_write_pos v') d v v'" "p = pass_now v'"
proof -
  obtain va f where A: "prepare_wrap env d L v = (va, p, f)"
    and R2: "(case prepare_mandatory cfg env d p f va of (vb, ok, g) \<Rightarrow>
        if \<not> ok then (vb, None) else (prepare_early cfg env (s_write_pos va + d) p g vb, Some p)) = (v', Some p)"
    using R by (auto simp: retention_prepare_def Let_def split: prod.splits if_splits)
  obtain vb ok g where B: "prepare_mandatory cfg env d p f va = (vb, ok, g)" by (metis prod_cases3)
  have ok: ok and v': "v' = prepare_early cfg env (s_write_pos va + d) p g vb"
    using R2 by (auto simp: B split: if_splits)
  note a = prepare_wrap_spec[OF wf w d A]
  have ga: "geom va = geom v" using a(1) by (rule calm_geom)
  note gga = geomD[OF ga] geom_getters[OF ga]
  have wfa: "geometry_wf va" using wf gga by simp
  have Ga: "exposure_gen va = p * (s_chunks va + 1) + f" "f \<le> s_chunks va" using a(2,3) gga by simp_all
  have wa: "s_write_pos va + d \<le> s_offset va + s_size va" using a(5) gga by simp
  note b = prepare_mandatory_spec[OF wfa Ga wa B]
  have gb: "geom vb = geom va" using b(4) by (auto simp: calm_def forced_def)
  note ggb = geomD[OF gb] geom_getters[OF gb]
  have wfb: "geometry_wf vb" using wfa ggb by simp
  have bg: "f \<le> g" "g \<le> s_chunks va" "exposure_gen vb = p * (s_chunks va + 1) + g"
    "s_write_pos va + d \<le> s_offset va + frontier_rel_of va g" using b(6)[OF ok] by auto
  have Gb: "exposure_gen vb = p * (s_chunks vb + 1) + g" "g \<le> s_chunks vb" using bg ggb by simp_all
  note e = prepare_early_spec[OF wfb Gb, of cfg env "s_write_pos va + d", folded v']
  obtain h where h: "g \<le> h" "h \<le> s_chunks vb" "exposure_gen v' = p * (s_chunks vb + 1) + h"
    and hc: "lease_live cfg (steady_now_ns (ae_clock env 3)) vb \<Longrightarrow> g \<le> c \<Longrightarrow> c < h \<Longrightarrow> chunk_clear c vb" for c
    using e(5) by blast
  have ge: "geom v' = geom vb" using e(1) by (rule calm_geom)
  have pf': "pass_now v' = p" "frontier_now v' = h" using h geomD[OF ge] by (auto intro!: pass_frontier)
  show "p = pass_now v'" by (simp add: pf')
  have eff: "calm v v' \<or> forced v v'"
    using b(4) a(1) e(1) by (meson calm_trans calm_forced forced_calm)
  have pos: "s_write_pos v' = s_write_pos va" "m_shared_write_pos v' = m_shared_write_pos va"
    using e(2,3) b(1,2) by simp_all
  have cover: "s_write_pos v' + d \<le> s_offset v + frontier_rel_of v h"
    using bg(4) frontier_rel_of_mono[OF wf h(1)] pos gga by simp
  have start: "p = pass_now v \<and> f = frontier_now v \<and> s_write_pos v' = s_write_pos v \<and> m_shared_write_pos v' = m_shared_write_pos v
      \<or> p = pass_now v + 1 \<and> f = 0 \<and> s_write_pos v' = s_data_offset v
        \<and> (m_shared_write_pos v' = s_data_offset v \<or> m_shared_write_pos v' = m_shared_write_pos v)"
    using a(6) pos by (auto simp: pass_now_def frontier_now_def retention_wrap_frame split: if_splits)
  have clear: "chunk_clear c v" if c: "calm v v'" "lease_live cfg (steady_now_ns (ae_clock env 1)) v"
    "lease_live cfg (steady_now_ns (ae_clock env 3)) v" "f \<le> c" "c < h" for c
  proof -
    have cb: "calm va vb" using b(4) c(1) a(1) e(1) by (metis calm_forced calm_not_forced forced_calm)
    show ?thesis
    proof (cases "c < g")
      case True
      then have "chunk_clear c va" using b(7)[OF ok cb] c calm_live[OF a(1)] by simp
      then show ?thesis by (simp add: calm_clear[OF a(1)])
    next
      case False
      then have "chunk_clear c vb" using hc c calm_live[OF calm_trans[OF a(1) cb]] by simp
      then show ?thesis by (simp add: calm_clear[OF calm_trans[OF a(1) cb]])
    qed
  qed
  have int0: "intent_value v = 0 \<longrightarrow> intent_value v' = 0"
    using a(6) b(3) e(4) by (auto simp: retention_wrap_frame)
  show "write_move cfg env (s_write_pos v) (s_write_pos v') d v v'"
    unfolding write_move_def swept_def pf'
    using eff start cover clear int0 ret h(1) bg(1) frontier_rel_of_le[of v h] by auto
qed

lemma retention_prepare_none:
  assumes wf: "geometry_wf v" and w: "s_data_offset v \<le> s_write_pos v" "s_write_pos v \<le> s_offset v + s_size v"
    and d: "d \<le> s_offset v + s_size v - s_data_offset v"
    and R: "retention_prepare cfg env d L v = (v', None)"
  shows "calm v v'" "intent_value v = 0 \<Longrightarrow> intent_value v' = 0"
    "exposure_gen v' = exposure_gen v \<and> s_write_pos v' = s_write_pos v \<and> m_shared_write_pos v' = m_shared_write_pos v \<or>
     pass_now v' = pass_now v + 1 \<and> frontier_now v' = 0 \<and> s_write_pos v' = s_data_offset v \<and>
       m_shared_write_pos v' = (if L \<and> ae_revalidate env 1 then s_data_offset v else m_shared_write_pos v)"
proof -
  obtain va p f where A: "prepare_wrap env d L v = (va, p, f)" by (metis prod_cases3)
  obtain g where B: "prepare_mandatory cfg env d p f va = (v', False, g)"
    using R by (auto simp: retention_prepare_def Let_def A split: prod.splits if_splits)
  note a = prepare_wrap_spec[OF wf w d A]
  have ga: "geom va = geom v" using a(1) by (rule calm_geom)
  note gga = geomD[OF ga] geom_getters[OF ga]
  have wfa: "geometry_wf va" using wf gga by simp
  have Ga: "exposure_gen va = p * (s_chunks va + 1) + f" "f \<le> s_chunks va" using a(2,3) gga by simp_all
  have wa: "s_write_pos va + d \<le> s_offset va + s_size va" using a(5) gga by simp
  note b = prepare_mandatory_spec[OF wfa Ga wa B]
  show cv: "calm v v'" using b(4) a(1) calm_trans by blast
  show "intent_value v = 0 \<Longrightarrow> intent_value v' = 0"
    using a(6) b(3) by (auto simp: retention_wrap_frame)
  have G': "exposure_gen v' = p * (s_chunks v' + 1) + f" "f \<le> s_chunks v'"
    using b(5) Ga geomD(4)[OF calm_geom[OF cv]] gga by simp_all
  show "exposure_gen v' = exposure_gen v \<and> s_write_pos v' = s_write_pos v \<and> m_shared_write_pos v' = m_shared_write_pos v \<or>
     pass_now v' = pass_now v + 1 \<and> frontier_now v' = 0 \<and> s_write_pos v' = s_data_offset v \<and>
       m_shared_write_pos v' = (if L \<and> ae_revalidate env 1 then s_data_offset v else m_shared_write_pos v)"
    using a(6) b(1,2,5) pass_frontier[OF G'] by (auto simp: retention_wrap_frame pass_now_def[of v])
qed

lemma write_move_shift:
  assumes c: "calm v u" and G: "exposure_gen u = exposure_gen v" "m_shared_write_pos u = m_shared_write_pos v"
    "intent_value v = 0 \<longrightarrow> intent_value u = 0"
    and m: "write_move cfg env cur w d u v'"
  shows "write_move cfg env cur w d v v'"
proof -
  note g = geomD[OF calm_geom[OF c]] geom_getters[OF calm_geom[OF c]]
  have pf: "pass_now u = pass_now v" "frontier_now u = frontier_now v"
    by (simp_all add: pass_now_def frontier_now_def G g)
  have cm: "calm v v' \<longrightarrow> calm u v'" using c by (simp add: calm_def)
  have "calm u v' \<or> forced u v'" using m by (simp only: write_move_def)
  then have eff: "calm v v' \<or> forced v v'" using calm_trans[OF c] calm_forced[OF c] by blast
  show ?thesis
    using m eff cm G(2,3) unfolding write_move_def swept_def
    by (simp add: pf g calm_live[OF c] calm_clear[OF c])
qed

section \<open>The flush-mode wrap and the cross-process lock\<close>

lemma flush_wrap_eq:
  "flush_wrap cfg env L v =
     (let r = lease_gate cfg (steady_now_ns (ae_clock env 1)) 0 (s_chunks v) True (set_wrap_intent True v);
          a = (mark_wrap_committed (pass_of (fst r) (exposure_gen (fst r)) + 1) (fst r));
          b = a\<lparr>s_write_pos := s_data_offset a\<rparr>;
          c = (if L \<and> ae_revalidate env 1 then set_shared_write_pos (s_data_offset b) b else b);
          e = publish_wrap_phase (pass_of (fst r) (exposure_gen (fst r)) + 1) c
      in if \<not> snd r
         then ((set_wrap_intent False (fst r))\<lparr>v_wraps_deferred_by_lease := v_wraps_deferred_by_lease (set_wrap_intent False (fst r)) + 1,
                v_writes_dropped_by_lease := v_writes_dropped_by_lease (set_wrap_intent False (fst r)) + 1\<rparr>, False)
         else (set_wrap_intent False (record_wrap (steady_now_ns (ae_clock env 2))
                (store_exposure_gen ((pass_of (fst r) (exposure_gen (fst r)) + 1) * (s_chunks e + 1) + s_chunks e) e)), True))"
  by (simp only: flush_wrap_def Let_def split_beta)

lemma flush_wrap_some:
  assumes wf: "geometry_wf v" and d: "d \<le> s_offset v + s_size v - s_data_offset v" and ret: "\<not> s_retain v"
    and R: "flush_wrap cfg env L v = (v', True)"
  shows "write_move cfg env cur (s_write_pos v') d v v'"
proof -
  define r where "r = lease_gate cfg (steady_now_ns (ae_clock env 1)) 0 (s_chunks v) True (set_wrap_intent True v)"
  define p where "p = pass_of (fst r) (exposure_gen (fst r)) + 1"
  define b where "b = (mark_wrap_committed p (fst r))\<lparr>s_write_pos := s_data_offset (mark_wrap_committed p (fst r))\<rparr>"
  define e where "e = publish_wrap_phase p (if L \<and> ae_revalidate env 1 then set_shared_write_pos (s_data_offset b) b else b)"
  have sr: "snd r" and v': "v' = set_wrap_intent False (record_wrap (steady_now_ns (ae_clock env 2))
      (store_exposure_gen (p * (s_chunks e + 1) + s_chunks e) e))"
    using R by (auto simp: flush_wrap_eq Let_def r_def p_def b_def e_def split: if_splits)
  have gr: "geom (fst r) = geom v" by (simp add: r_def gate_after_intent_geom)
  have ce: "calm (fst r) e" by (simp add: e_def b_def calm_def frame)
  have ge: "geom e = geom v" using calm_geom[OF ce] gr by simp
  have cv: "calm (fst r) v'" using ce by (simp add: v' calm_def frame)
  have p: "p = pass_now v + 1"
    using geomD(4)[OF gr] by (simp add: p_def pass_of_def pass_now_def r_def lease_gate_positions frame)
  have pf: "pass_now v' = pass_now v + 1" "frontier_now v' = s_chunks v"
    using pass_frontier[of v' p "s_chunks v"] geomD(4)[OF ge] geomD(4)[OF calm_geom[OF cv]] geomD(4)[OF gr]
    by (simp_all add: p v' frame)
  have "s_write_pos v' = s_data_offset (fst r)"
    using geomD(3)[OF mark_wrap_committed_frame(1)] by (simp add: v' e_def b_def frame)
  then have w: "s_write_pos v' = s_data_offset v" using geomD(3)[OF gr] by simp
  have ms: "m_shared_write_pos v' = s_data_offset v \<or> m_shared_write_pos v' = m_shared_write_pos v"
    using geomD(3)[OF gr] geomD(3)[OF mark_wrap_committed_frame(1)]
    by (simp add: v' e_def b_def frame) (simp add: r_def lease_gate_positions frame)
  have eff: "calm v v' \<or> forced v v'"
    using gate_after_intent_effect[of v cfg "steady_now_ns (ae_clock env 1)" 0 "s_chunks v" True True] cv
    by (metis calm_trans forced_calm r_def)
  have clear: "chunk_clear c v" if "calm v v'" "lease_live cfg (steady_now_ns (ae_clock env 1)) v" "c < s_chunks v" for c
  proof -
    let ?u = "set_wrap_intent True v"
    have "calm ?u (fst r)"
      using that(1) cv lease_gate_effect[of ?u cfg "steady_now_ns (ae_clock env 1)" 0 "s_chunks v" True]
        calm_steps(1)[of v True] by (metis calm_forced calm_not_forced forced_calm r_def)
    moreover have "c < kMaxChunks" using that(3) wf by (simp add: geometry_wf_def)
    ultimately have "chunk_clear c ?u"
      using sr that calm_live[OF calm_steps(1)]
      by (intro lease_gate_open[of cfg "steady_now_ns (ae_clock env 1)" 0 "s_chunks v" True]) (simp_all add: r_def)
    then show ?thesis by (simp add: calm_clear[OF calm_steps(1)])
  qed
  have fits: "s_data_offset v + d \<le> s_offset v + s_size v" using d wf unfolding geometry_wf_def by linarith
  have "intent_value v' = 0" by (simp add: v' frame)
  then show ?thesis unfolding write_move_def swept_def using eff pf w ms ret clear fits by simp
qed

lemma flush_wrap_none:
  assumes "flush_wrap cfg env L v = (v', False)"
  shows "calm v v'" "exposure_gen v' = exposure_gen v" "s_write_pos v' = s_write_pos v"
    "m_shared_write_pos v' = m_shared_write_pos v" "intent_value v' = 0"
proof -
  define r where "r = lease_gate cfg (steady_now_ns (ae_clock env 1)) 0 (s_chunks v) True (set_wrap_intent True v)"
  have sr: "\<not> snd r" and v': "v' = (set_wrap_intent False (fst r))\<lparr>v_wraps_deferred_by_lease := v_wraps_deferred_by_lease (set_wrap_intent False (fst r)) + 1,
                v_writes_dropped_by_lease := v_writes_dropped_by_lease (set_wrap_intent False (fst r)) + 1\<rparr>"
    using assms by (auto simp: flush_wrap_eq Let_def r_def split: if_splits)
  have "calm v (fst r)"
    using sr gate_after_intent_effect[of v cfg "steady_now_ns (ae_clock env 1)" 0 "s_chunks v" True True] by (simp add: r_def)
  moreover have "calm (fst r) v'" by (simp add: v' calm_def frame)
  ultimately show "calm v v'" by (rule calm_trans)
  show "exposure_gen v' = exposure_gen v" "s_write_pos v' = s_write_pos v"
    "m_shared_write_pos v' = m_shared_write_pos v" "intent_value v' = 0"
    by (simp_all add: v' frame r_def lease_gate_positions)
qed

lemma repair_quiescent:
  assumes "m_wrap_intent v = 0"
  shows "repair_wrap_state now v =
    (if s_use_mmap_directory v then set_wrap_intent False (v\<lparr>m_current_phase := odd (pass_of v (m_exposure_gen v))\<rparr>) else v)"
  using assms by (simp add: repair_wrap_state_def Let_def kIntentWrapEven_def kIntentWrapOdd_def)

lemma repair_quiescent_frame:
  assumes "m_wrap_intent v = 0"
  shows "calm v (repair_after_forced_release now t v)"
    "exposure_gen (repair_after_forced_release now t v) = exposure_gen v"
    "m_shared_write_pos (repair_after_forced_release now t v) = m_shared_write_pos v"
    "intent_value v = 0 \<longrightarrow> intent_value (repair_after_forced_release now t v) = 0"
    "m_write_lock_held (repair_after_forced_release now t v) = m_write_lock_held v"
proof -
  have "calm v (v\<lparr>m_current_phase := x\<rparr>)" for x by (simp add: calm_def view_defs)
  then show "calm v (repair_after_forced_release now t v)"
    using assms by (auto simp: repair_after_forced_release_def repair_quiescent intro: calm_trans)
qed (use assms in \<open>auto simp: repair_after_forced_release_def repair_quiescent frame
    set_wrap_intent_def set_wrap_intent_value_def view_defs\<close>)

lemma lock_and_adopt_true:
  assumes mm: "s_use_mmap_directory v" and i: "intent_value v = 0" and cw: "cursor_wf v"
    and R: "lock_and_adopt env v = (u, True)"
  shows "calm v u" "exposure_gen u = exposure_gen v" "m_shared_write_pos u = m_shared_write_pos v"
    "intent_value u = 0" "s_write_pos u = current_write_cursor v" "m_write_lock_held u"
proof -
  let ?t = "ae_token env"
  define a where "a = v\<lparr>m_write_lock_held := True,
      v_write_lock_force_releases := v_write_lock_force_releases v + (if wt_forced_release ?t then 1 else 0),
      v_write_lock_escalation_takeovers := v_write_lock_escalation_takeovers v + (if wt_escalated_takeover ?t then 1 else 0),
      v_write_lock_live_holder_waits := v_write_lock_live_holder_waits v + wt_live_waits ?t\<rparr>"
  define b where "b = repair_after_forced_release (steady_now_ns (ae_clock env 0)) ?t a"
  have a: "calm v a" "exposure_gen a = exposure_gen v" "m_shared_write_pos a = m_shared_write_pos v"
    "intent_value a = 0" "m_wrap_intent a = 0" "m_write_lock_held a"
    using mm i by (simp_all add: a_def calm_def view_defs)
  note b = repair_quiescent_frame[OF a(5), of "steady_now_ns (ae_clock env 0)" ?t, folded b_def]
  have g: "geom b = geom v" using calm_geom[OF b(1)] calm_geom[OF a(1)] by simp
  have "s_data_offset b \<le> m_shared_write_pos b \<and> m_shared_write_pos b \<le> s_offset b + s_size b"
    using cw mm geomD[OF g] b(3) a(3) by (simp add: cursor_wf_def current_write_cursor_def)
  then have u: "u = b\<lparr>s_write_pos := m_shared_write_pos b\<rparr>"
    using R by (auto simp: lock_and_adopt_def Let_def a_def b_def split: if_splits)
  show "calm v u" using calm_trans[OF calm_trans[OF a(1) b(1)] calm_steps(9)] by (simp add: u)
  show "exposure_gen u = exposure_gen v" "m_shared_write_pos u = m_shared_write_pos v"
    "intent_value u = 0" "s_write_pos u = current_write_cursor v" "m_write_lock_held u"
    using a b mm by (simp_all add: u frame current_write_cursor_def)
qed

lemma lock_and_adopt_false:
  assumes "lock_and_adopt env v = (u, False)"
  shows "calm v u" "exposure_gen u = exposure_gen v" "m_shared_write_pos u = m_shared_write_pos v"
    "s_write_pos u = s_write_pos v" "intent_value u = intent_value v"
    "\<not> m_write_lock_held v \<Longrightarrow> \<not> m_write_lock_held u"
  using assms by (auto simp: lock_and_adopt_def Let_def calm_def view_defs split: if_splits)

section \<open>The reservation as a whole\<close>

lemma round_up8_code: "n + 7 < 2 ^ 64 \<Longrightarrow> align_down 8 ((n + 7) mod 2 ^ 64) = round_up8 n"
  by (simp add: round_up8_def)

lemma make_room_true:
  assumes wf: "geometry_wf v" and w: "s_data_offset v \<le> s_write_pos v" "s_write_pos v \<le> s_offset v + s_size v"
    and d: "d \<le> s_offset v + s_size v - s_data_offset v"
    and R: "make_room cfg env d L v = (v', True, rp)"
  shows "write_move cfg env (s_write_pos v) (s_write_pos v') d v v'"
    "(case rp of Some p \<Rightarrow> p | None \<Rightarrow> pass_now v') = pass_now v'"
proof -
  have sub: "sub64 (s_offset v + s_size v) (s_write_pos v) = s_offset v + s_size v - s_write_pos v"
    using w wf by (intro sub64_le) (auto simp: geometry_wf_def)
  consider (ret) p where "s_retain v" "retention_prepare cfg env d L v = (v', Some p)" "rp = Some p"
    | (wrap) "\<not> s_retain v" "flush_wrap cfg env L v = (v', True)" "rp = None"
    | (fits) "\<not> s_retain v" "v' = v" "rp = None" "d \<le> s_offset v + s_size v - s_write_pos v"
    using R unfolding make_room_def Let_def sub by (auto split: if_splits prod.splits)
  note cs = this
  show "write_move cfg env (s_write_pos v) (s_write_pos v') d v v'"
    using cs
  proof cases
    case ret
    then show ?thesis using retention_prepare_some[OF wf w d] by blast
  next
    case wrap
    then show ?thesis using flush_wrap_some[OF wf d] by blast
  next
    case fits
    then show ?thesis using w by (auto simp: write_move_def swept_def)
  qed
  show "(case rp of Some p \<Rightarrow> p | None \<Rightarrow> pass_now v') = pass_now v'"
    using cs retention_prepare_some(2)[OF wf w d] by cases auto
qed

lemma make_room_false:
  assumes wf: "geometry_wf v" and w: "s_data_offset v \<le> s_write_pos v" "s_write_pos v \<le> s_offset v + s_size v"
    and d: "d \<le> s_offset v + s_size v - s_data_offset v" and i: "intent_value v = 0"
    and R: "make_room cfg env d L v = (v', False, rp)"
  shows "calm v v'" "intent_value v' = 0"
    "exposure_gen v' = exposure_gen v \<and> s_write_pos v' = s_write_pos v \<and> m_shared_write_pos v' = m_shared_write_pos v \<or>
     s_retain v \<and> pass_now v' = pass_now v + 1 \<and> frontier_now v' = 0 \<and> s_write_pos v' = s_data_offset v \<and>
       m_shared_write_pos v' = (if L \<and> ae_revalidate env 1 then s_data_offset v else m_shared_write_pos v)"
proof -
  consider (ret) "s_retain v" "retention_prepare cfg env d L v = (v', None)"
    | (wrap) "flush_wrap cfg env L v = (v', False)"
    using R unfolding make_room_def Let_def by (auto split: if_splits prod.splits)
  note cs = this
  show "calm v v'" using cs retention_prepare_none(1)[OF wf w d] flush_wrap_none(1) by cases blast+
  show "intent_value v' = 0" using cs retention_prepare_none(2)[OF wf w d _ i] flush_wrap_none(5) by cases blast+
  show "exposure_gen v' = exposure_gen v \<and> s_write_pos v' = s_write_pos v \<and> m_shared_write_pos v' = m_shared_write_pos v \<or>
     s_retain v \<and> pass_now v' = pass_now v + 1 \<and> frontier_now v' = 0 \<and> s_write_pos v' = s_data_offset v \<and>
       m_shared_write_pos v' = (if L \<and> ae_revalidate env 1 then s_data_offset v else m_shared_write_pos v)"
    using cs retention_prepare_none(3)[OF wf w d] flush_wrap_none(2-4) by cases blast+
qed

text \<open>The state in which the wrap decision runs: under the lock, with the cursor adopted.\<close>

lemma allocate_entry:
  assumes wf: "geometry_wf v" and cw: "cursor_wf v" and i: "intent_value v = 0"
    and R: "(if s_use_mmap_directory v then lock_and_adopt env v else (v, True)) = (u, True)"
  shows "calm v u" "exposure_gen u = exposure_gen v" "m_shared_write_pos u = m_shared_write_pos v"
    "intent_value u = 0" "s_write_pos u = current_write_cursor v" "s_use_mmap_directory v \<Longrightarrow> m_write_lock_held u"
    "geometry_wf u" "s_data_offset u \<le> s_write_pos u" "s_write_pos u \<le> s_offset u + s_size u"
proof -
  have k: "calm v u \<and> exposure_gen u = exposure_gen v \<and> m_shared_write_pos u = m_shared_write_pos v \<and>
      intent_value u = 0 \<and> s_write_pos u = current_write_cursor v \<and> (s_use_mmap_directory v \<longrightarrow> m_write_lock_held u)"
  proof (cases "s_use_mmap_directory v")
    case True
    then have "lock_and_adopt env v = (u, True)" using R by simp
    from lock_and_adopt_true[OF True i cw this] show ?thesis by blast
  next
    case False
    then show ?thesis using R i by (simp add: current_write_cursor_def)
  qed
  then show "calm v u" "exposure_gen u = exposure_gen v" "m_shared_write_pos u = m_shared_write_pos v"
    "intent_value u = 0" "s_write_pos u = current_write_cursor v" "s_use_mmap_directory v \<Longrightarrow> m_write_lock_held u"
    by blast+
  note g = geomD[OF calm_geom] geom_getters[OF calm_geom]
  show "geometry_wf u" using k wf g(14) by blast
  show "s_data_offset u \<le> s_write_pos u" "s_write_pos u \<le> s_offset u + s_size u"
    using k cw g(1-3) by (auto simp: cursor_wf_def)
qed

lemma tail_fill_bound:
  "tail_fill_end cfg d w v \<le> s_offset v + s_size v"
  "s_retain v \<Longrightarrow> tail_fill_end cfg d w v \<le> s_offset v + frontier_rel_of v (frontier_now v)"
  using frontier_now_le[of v] by (auto simp: tail_fill_end_def Let_def frontier_now_def min_absorb1)

lemma write_move_calm_end:
  assumes m: "write_move cfg env cur w d v v'" and c: "calm v' v''" "exposure_gen v'' = exposure_gen v'"
    "s_write_pos v'' = s_write_pos v'" "m_shared_write_pos v'' = m_shared_write_pos v'" "intent_value v'' = intent_value v'"
  shows "write_move cfg env cur w d v v''"
proof -
  have pf: "pass_now v'' = pass_now v'" "frontier_now v'' = frontier_now v'"
    using c geomD(4)[OF calm_geom[OF c(1)]] by (simp_all add: pass_now_def frontier_now_def)
  have "calm v v' \<or> forced v v'" using m by (simp only: write_move_def)
  then have "calm v v'' \<or> forced v v''" "calm v v'' \<longrightarrow> calm v v'"
    using calm_trans[OF _ c(1)] forced_calm[OF _ c(1)] calm_not_forced by blast+
  then show ?thesis using m c(3-5) unfolding write_move_def swept_def by (simp add: pf)
qed

lemma allocate_some:
  assumes wf: "geometry_wf v" and cw: "cursor_wf v" and i: "intent_value v = 0" and n: "n + 7 < 2 ^ 64"
    and R: "allocate_write_slot cfg env n v = (v', Inr slot)"
  shows "write_move cfg env (current_write_cursor v) (ws_write_offset slot) (round_up8 n) v v'"
    "ws_new_write_pos slot = ws_write_offset slot + round_up8 n" "ws_pass slot = pass_now v'"
    "ws_fill_end slot \<le> s_offset v + s_size v"
    "s_retain v \<Longrightarrow> ws_fill_end slot \<le> s_offset v + frontier_rel_of v (frontier_now v')"
    "ws_holds_write_lock slot = s_use_mmap_directory v" "ws_deferred_publish slot"
proof -
  let ?d = "round_up8 n"
  obtain u where E: "(if s_use_mmap_directory v then lock_and_adopt env v else (v, True)) = (u, True)"
    and d: "\<not> ?d > sub64 (s_offset u + s_size u) (s_data_offset u)"
    and K: "\<exists>x rp. make_room cfg env ?d (s_use_mmap_directory v) u = (x, True, rp) \<and> v' = end_deferral_episode x \<and>
      slot = \<lparr>ws_write_offset = s_write_pos v', ws_new_write_pos = s_write_pos v' + ?d,
        ws_write_token = (if s_use_mmap_directory v then ae_token env else null_token),
        ws_holds_write_lock = s_use_mmap_directory v, ws_deferred_publish = True,
        ws_pass = (case rp of Some p \<Rightarrow> p | None \<Rightarrow> pass_of v' (exposure_gen v')),
        ws_fill_serial = (if s_use_mmap_directory v then wt_generation (ae_token env) else 0),
        ws_fill_end = tail_fill_end cfg ?d (s_write_pos v' + ?d) v'\<rparr>"
    using R unfolding allocate_write_slot_def Let_def round_up8_code[OF n]
    by (auto split: prod.splits if_splits)
  obtain x rp where M: "make_room cfg env ?d (s_use_mmap_directory v) u = (x, True, rp)"
    and v': "v' = end_deferral_episode x" and slot: "ws_write_offset slot = s_write_pos v'"
      "ws_new_write_pos slot = s_write_pos v' + ?d" "ws_holds_write_lock slot = s_use_mmap_directory v"
      "ws_deferred_publish slot" "ws_pass slot = (case rp of Some p \<Rightarrow> p | None \<Rightarrow> pass_of v' (exposure_gen v'))"
      "ws_fill_end slot = tail_fill_end cfg ?d (s_write_pos v' + ?d) v'"
    using K by auto
  note e = allocate_entry[OF wf cw i E]
  have d': "?d \<le> s_offset u + s_size u - s_data_offset u"
    using d e(7) sub64_le[of "s_data_offset u" "s_offset u + s_size u"] by (simp add: geometry_wf_def)
  note m = make_room_true[OF e(7,8,9) d' M]
  have "write_move cfg env (current_write_cursor v) (s_write_pos x) ?d v x"
    using write_move_shift[OF e(1,2,3) _ m(1)] e(4,5) by simp
  then have mv: "write_move cfg env (current_write_cursor v) (s_write_pos v') ?d v v'"
    using write_move_calm_end[of cfg env _ _ _ v x v'] by (auto simp: v' frame)
  then show "write_move cfg env (current_write_cursor v) (ws_write_offset slot) ?d v v'" by (simp add: slot)
  have g: "geom v' = geom v" using mv by (auto simp: write_move_def calm_def forced_def)
  show "ws_new_write_pos slot = ws_write_offset slot + ?d" "ws_holds_write_lock slot = s_use_mmap_directory v"
    "ws_deferred_publish slot" by (simp_all add: slot)
  have "pass_now x = pass_now v'" using geomD(4)[OF end_deferral_frame(1)] by (simp add: v' pass_now_def frame)
  then show "ws_pass slot = pass_now v'" using m(2) by (cases rp) (simp_all add: slot pass_of_def pass_now_def)
  show "ws_fill_end slot \<le> s_offset v + s_size v"
    "s_retain v \<Longrightarrow> ws_fill_end slot \<le> s_offset v + frontier_rel_of v (frontier_now v')"
    using tail_fill_bound[where v = v' and cfg = cfg and d = ?d and w = "s_write_pos v' + ?d"]
      geomD[OF g] geom_getters(3)[OF g] by (simp_all add: slot)
qed

lemma allocate_error:
  assumes wf: "geometry_wf v" and cw: "cursor_wf v" and i: "intent_value v = 0" and n: "n + 7 < 2 ^ 64"
    and R: "allocate_write_slot cfg env n v = (v', Inl e)"
  shows "calm v v'" "intent_value v' = 0" "e = Busy \<or> e = NoSpace"
    "\<not> m_write_lock_held v \<Longrightarrow> s_use_mmap_directory v \<Longrightarrow> \<not> m_write_lock_held v'"
    "exposure_gen v' = exposure_gen v \<and> current_write_cursor v' = current_write_cursor v \<or>
     s_retain v \<and> pass_now v' = pass_now v + 1 \<and> frontier_now v' = 0 \<and>
       current_write_cursor v' = (if s_use_mmap_directory v \<and> \<not> ae_revalidate env 1
                                  then current_write_cursor v else s_data_offset v)"
proof -
  let ?d = "round_up8 n" and ?L = "s_use_mmap_directory v"
  define unlock where "unlock = (\<lambda>x. if ?L then release_write_lock x else x)"
  have un: "calm x (unlock x)" "exposure_gen (unlock x) = exposure_gen x" "intent_value (unlock x) = intent_value x"
    "s_write_pos (unlock x) = s_write_pos x" "m_shared_write_pos (unlock x) = m_shared_write_pos x"
    "?L \<Longrightarrow> \<not> m_write_lock_held (unlock x)" for x
    by (auto simp: unlock_def frame) (simp add: release_write_lock_def)
  obtain u locked where E: "(if ?L then lock_and_adopt env v else (v, True)) = (u, locked)" by (metis prod.exhaust)
  consider (busy) "\<not> locked" "v' = u" "e = Busy"
    | (large) "locked" "v' = unlock u" "e = NoSpace"
    | (full) x rp where "locked" "\<not> ?d > sub64 (s_offset u + s_size u) (s_data_offset u)"
        "make_room cfg env ?d ?L u = (x, False, rp)" "v' = unlock x" "e = NoSpace"
    using R unfolding allocate_write_slot_def Let_def round_up8_code[OF n] E unlock_def
    by (auto split: prod.splits if_splits)
  then have "calm v v' \<and> intent_value v' = 0 \<and> (e = Busy \<or> e = NoSpace) \<and>
     (\<not> m_write_lock_held v \<longrightarrow> ?L \<longrightarrow> \<not> m_write_lock_held v') \<and>
     (exposure_gen v' = exposure_gen v \<and> current_write_cursor v' = current_write_cursor v \<or>
     s_retain v \<and> pass_now v' = pass_now v + 1 \<and> frontier_now v' = 0 \<and>
       current_write_cursor v' = (if ?L \<and> \<not> ae_revalidate env 1 then current_write_cursor v else s_data_offset v))"
  proof cases
    case busy
    then have L: ?L and F: "lock_and_adopt env v = (u, False)" using E by (auto split: if_splits)
    note f = lock_and_adopt_false[OF F]
    have "current_write_cursor v' = current_write_cursor v"
      using f L geomD(7)[OF calm_geom[OF f(1)]] by (simp add: busy current_write_cursor_def)
    then show ?thesis using busy i f by simp
  next
    case large
    note en = allocate_entry[OF wf cw i E[unfolded eqTrueI[OF large(1)]]]
    have c: "calm v v'" using calm_trans[OF en(1) un(1)] large by simp
    have "current_write_cursor v' = current_write_cursor v"
      using en large geomD(7)[OF calm_geom[OF c]] by (simp add: current_write_cursor_def un)
    then show ?thesis using c en large un by simp
  next
    case full
    note en = allocate_entry[OF wf cw i E[unfolded eqTrueI[OF full(1)]]]
    note gu = geomD[OF calm_geom[OF en(1)]]
    have d': "?d \<le> s_offset u + s_size u - s_data_offset u"
      using full(2) en(7) sub64_le[of "s_data_offset u" "s_offset u + s_size u"] by (simp add: geometry_wf_def)
    note m = make_room_false[OF en(7,8,9) d' en(4) full(3)]
    have c: "calm v v'" using calm_trans[OF en(1) calm_trans[OF m(1) un(1)]] full by simp
    note g = geomD[OF calm_geom[OF c]]
    have pu: "pass_now u = pass_now v" using en(2) gu by (simp add: pass_now_def)
    have px: "pass_now v' = pass_now x" "frontier_now v' = frontier_now x"
      using full geomD(4)[OF calm_geom[OF un(1)[of x]]] by (simp_all add: pass_now_def frontier_now_def un)
    have cur: "current_write_cursor v' = (if ?L then m_shared_write_pos x else s_write_pos x)"
      using g full by (simp add: current_write_cursor_def un)
    show ?thesis using m(3) c m(2) full en(2,3,5) un pu px cur gu
      by (auto simp: current_write_cursor_def)
  qed
  then show "calm v v'" "intent_value v' = 0" "e = Busy \<or> e = NoSpace"
    "\<not> m_write_lock_held v \<Longrightarrow> s_use_mmap_directory v \<Longrightarrow> \<not> m_write_lock_held v'"
    "exposure_gen v' = exposure_gen v \<and> current_write_cursor v' = current_write_cursor v \<or>
     s_retain v \<and> pass_now v' = pass_now v + 1 \<and> frontier_now v' = 0 \<and>
       current_write_cursor v' = (if s_use_mmap_directory v \<and> \<not> ae_revalidate env 1
                                  then current_write_cursor v else s_data_offset v)"
    by simp_all
qed

end
