(* ===== verification/Stripe_Safety.thy ===== *)
theory Stripe_Safety
  imports Stripe_Alloc
begin

text \<open>
  What the wrap protocol of a stripe is for: a reader that borrowed the bytes of a
  document keeps reading those bytes.  The world below holds a stripe, the file
  behind it, the documents written so far and the open borrows; its steps are the
  operations of src/src/core/volume.cpp, in any order and with any environment.
  The file is a function from absolute offsets to bytes, and a fill may write
  anything inside the reserved span.
\<close>

section \<open>Documents, borrows and the world\<close>

record doc =
  d_pass :: nat
  d_rel :: nat
  d_len :: nat
  d_bytes :: bytes

definition holds :: "(nat \<Rightarrow> byte) \<Rightarrow> nat \<Rightarrow> doc \<Rightarrow> bool" where
  "holds file base d \<longleftrightarrow> (\<forall>i < length (d_bytes d). file (base + d_rel d + i) = d_bytes d ! i)"

record open_borrow =
  ob_doc :: doc
  ob_token :: BorrowToken
  ob_epoch :: nat
  ob_lapsed :: bool

record world =
  w_vol :: volume
  w_file :: "nat \<Rightarrow> byte"
  w_docs :: "doc set"
  w_borrows :: "open_borrow list"
  w_epoch :: "nat \<Rightarrow> nat \<Rightarrow> nat"

text \<open>The end of the span a fill may touch.\<close>

definition fill_limit :: "WriteSlot \<Rightarrow> nat" where
  "fill_limit slot = max (ws_new_write_pos slot) (ws_fill_end slot)"

text \<open>
  Ghost bookkeeping of a write step from volume v to v': the slots a forced step
  reset move to a new epoch, and a borrow whose lease was not live when a gate looked
  has lapsed.
\<close>

definition next_epoch :: "volume \<Rightarrow> volume \<Rightarrow> (nat \<Rightarrow> nat \<Rightarrow> nat) \<Rightarrow> nat \<Rightarrow> nat \<Rightarrow> nat" where
  "next_epoch v v' ep sh c =
     (if v_wraps_forced_past_lease v' \<noteq> v_wraps_forced_past_lease v \<and> slot_count (borrow_slot_of sh c v) \<noteq> 0
      then Suc (ep sh c) else ep sh c)"

definition leases_live :: "lease_config \<Rightarrow> alloc_env \<Rightarrow> volume \<Rightarrow> bool" where
  "leases_live cfg env v \<longleftrightarrow>
     lease_live cfg (steady_now_ns (ae_clock env 1)) v \<and> lease_live cfg (steady_now_ns (ae_clock env 3)) v"

definition after_write :: "lease_config \<Rightarrow> alloc_env \<Rightarrow> volume \<Rightarrow> volume \<Rightarrow> world \<Rightarrow> world" where
  "after_write cfg env v1 v2 w =
     w\<lparr>w_vol := v2, w_epoch := next_epoch (w_vol w) v1 (w_epoch w),
       w_borrows := map (\<lambda>b. b\<lparr>ob_lapsed := ob_lapsed b \<or> \<not> leases_live cfg env (w_vol w)\<rparr>) (w_borrows w)\<rparr>"

definition slot_doc :: "volume \<Rightarrow> WriteSlot \<Rightarrow> bytes \<Rightarrow> doc" where
  "slot_doc v slot content =
     \<lparr>d_pass = ws_pass slot, d_rel = ws_write_offset slot - s_offset v,
      d_len = ws_new_write_pos slot - ws_write_offset slot, d_bytes = content\<rparr>"

text \<open>
  The steps.  A reader may borrow a document when, after counting itself and
  stamping its lease, the revalidation of the code finds it valid.
\<close>

inductive world_step :: "lease_config \<Rightarrow> world \<Rightarrow> world \<Rightarrow> bool" for cfg where
  write_refused:
    "n + 7 < 2 ^ 64 \<Longrightarrow> allocate_write_slot cfg env n (w_vol w) = (v1, Inl e) \<Longrightarrow>
     world_step cfg w (after_write cfg env v1 v1 w)"
| write_filled:
    "n + 7 < 2 ^ 64 \<Longrightarrow> allocate_write_slot cfg env n (w_vol w) = (v1, Inr slot) \<Longrightarrow>
     0 < length content \<Longrightarrow> length content \<le> n \<Longrightarrow>
     (\<forall>x. x < ws_write_offset slot \<or> fill_limit slot \<le> x \<longrightarrow> file' x = w_file w x) \<Longrightarrow>
     (fill_ok \<longrightarrow> holds file' (s_offset (w_vol w)) (slot_doc (w_vol w) slot content)) \<Longrightarrow>
     commit_write_slot revalidated slot fill_ok v1 = (v2, r) \<Longrightarrow>
     world_step cfg w ((after_write cfg env v1 v2 w)\<lparr>w_file := file',
       w_docs := (if fill_ok \<and> r = Inr () then insert (slot_doc (w_vol w) slot content) (w_docs w) else w_docs w)\<rparr>)"
| borrow:
    "d \<in> w_docs w \<Longrightarrow>
     acquire_borrow cfg thread (chunk_of (w_vol w) (d_rel d)) (w_vol w) = (v1, token) \<Longrightarrow>
     v2 = stamp_read_lease cfg now v1 \<Longrightarrow>
     borrow_still_valid (exposure_threshold v2 (d_pass d) (d_rel d)) token v2 \<Longrightarrow>
     world_step cfg w (w\<lparr>w_vol := v2,
       w_borrows := \<lparr>ob_doc = d, ob_token = token, ob_epoch = w_epoch w (bt_shard token) (bt_chunk token),
                     ob_lapsed = False\<rparr> # w_borrows w\<rparr>)"
| close:
    "w_borrows w = A @ b # B \<Longrightarrow>
     w_epoch w (bt_shard (ob_token b)) (bt_chunk (ob_token b)) < ob_epoch b + 256 \<Longrightarrow>
     world_step cfg w (w\<lparr>w_vol := release_borrow True (ob_token b) (w_vol w), w_borrows := A @ B\<rparr>)"
| renew:
    "world_step cfg w (w\<lparr>w_vol := stamp_read_lease cfg now (w_vol w)\<rparr>)"

inductive_cases world_stepE: "world_step cfg w w'"

text \<open>
  A borrow is guarded while it is counted, no forced step has reset its slot since,
  and its lease has been live whenever a gate looked.
\<close>

definition guarded :: "world \<Rightarrow> open_borrow \<Rightarrow> bool" where
  "guarded w b \<longleftrightarrow> bt_counted (ob_token b) \<and> \<not> ob_lapsed b \<and>
     ob_epoch b = w_epoch w (bt_shard (ob_token b)) (bt_chunk (ob_token b))"

definition world_init :: "world \<Rightarrow> bool" where
  "world_init w \<longleftrightarrow> geometry_wf (w_vol w) \<and> current_write_cursor (w_vol w) = s_data_offset (w_vol w) \<and>
     exposure_gen (w_vol w) = 0 \<and> intent_value (w_vol w) = 0 \<and>
     (\<forall>sh c. borrow_slot_of sh c (w_vol w) = 0) \<and> w_docs w = {} \<and> w_borrows w = [] \<and> w_epoch w = (\<lambda>_ _. 0)"

section \<open>The invariant\<close>

definition doc_placed :: "volume \<Rightarrow> doc \<Rightarrow> bool" where
  "doc_placed v d \<longleftrightarrow> data_start_rel v \<le> d_rel d \<and> d_rel d + d_len d \<le> s_size v \<and> length (d_bytes d) \<le> d_len d \<and>
     0 < d_len d \<and> d_pass d \<le> pass_now v \<and>
     (d_pass d = pass_now v \<longrightarrow> s_offset v + d_rel d + d_len d \<le> current_write_cursor v)"

definition out_of_reach :: "volume \<Rightarrow> doc \<Rightarrow> bool" where
  "out_of_reach v d \<longleftrightarrow> d_pass d = pass_now v \<or> frontier_now v \<le> chunk_of v (d_rel d)"

definition slot_tokens :: "nat \<Rightarrow> nat \<Rightarrow> open_borrow list \<Rightarrow> slot_token list" where
  "slot_tokens sh c bs = map (\<lambda>b. \<lparr>tk_acq = \<lparr>acq_generation = bt_generation (ob_token b), acq_counted = bt_counted (ob_token b)\<rparr>,
       tk_epoch = ob_epoch b\<rparr>) (filter (\<lambda>b. bt_active (ob_token b) \<and> bt_shard (ob_token b) = sh \<and> bt_chunk (ob_token b) = c) bs)"

definition slot_view :: "world \<Rightarrow> nat \<Rightarrow> nat \<Rightarrow> slot_system" where
  "slot_view w sh c = \<lparr>sys_slot = borrow_slot_of sh c (w_vol w), sys_epoch = w_epoch w sh c,
     sys_live = slot_tokens sh c (w_borrows w)\<rparr>"

definition valid_shard :: "volume \<Rightarrow> nat \<Rightarrow> bool" where
  "valid_shard v sh \<longleftrightarrow> sh < kBorrowShards \<and> (s_use_mmap_directory v \<longrightarrow> sh = 0)"

definition volume_inv :: "volume \<Rightarrow> bool" where
  "volume_inv v \<longleftrightarrow> geometry_wf v \<and> cursor_wf v \<and> intent_value v = 0 \<and>
     (\<not> s_retain v \<longrightarrow> pass_now v > 0 \<longrightarrow> frontier_now v = s_chunks v)"

definition borrow_wf :: "volume \<Rightarrow> open_borrow \<Rightarrow> bool" where
  "borrow_wf v b \<longleftrightarrow>
     (bt_active (ob_token b) \<longrightarrow> valid_shard v (bt_shard (ob_token b)) \<and> bt_chunk (ob_token b) < kMaxChunks \<and>
        bt_chunk (ob_token b) = chunk_of v (d_rel (ob_doc b))) \<and>
     (\<not> bt_active (ob_token b) \<longrightarrow> \<not> bt_counted (ob_token b))"

definition slots_inv :: "world \<Rightarrow> bool" where
  "slots_inv w \<longleftrightarrow>
     (\<forall>sh c. valid_shard (w_vol w) sh \<longrightarrow> c < kMaxChunks \<longrightarrow> slot_inv (slot_view w sh c)) \<and>
     (\<forall>b \<in> set (w_borrows w). ob_doc b \<in> w_docs w \<and> borrow_wf (w_vol w) b)"

definition docs_inv :: "world \<Rightarrow> bool" where
  "docs_inv w \<longleftrightarrow>
     (\<forall>d \<in> w_docs w. doc_placed (w_vol w) d \<and>
        (exposure_gen (w_vol w) \<le> exposure_threshold (w_vol w) (d_pass d) (d_rel d) \<longrightarrow>
           holds (w_file w) (s_offset (w_vol w)) d)) \<and>
     (\<forall>b \<in> set (w_borrows w). guarded w b \<longrightarrow>
        out_of_reach (w_vol w) (ob_doc b) \<and> holds (w_file w) (s_offset (w_vol w)) (ob_doc b))"

definition world_inv :: "world \<Rightarrow> bool" where
  "world_inv w \<longleftrightarrow> volume_inv (w_vol w) \<and> slots_inv w \<and> docs_inv w"

section \<open>Fills stay clear of documents out of reach\<close>

lemma unexposed_out_of_reach:
  assumes wf: "geometry_wf v" and p: "d_pass d \<le> pass_now v"
    and G: "exposure_gen v \<le> exposure_threshold v (d_pass d) (d_rel d)"
  shows "out_of_reach v d"
proof (rule ccontr)
  assume n: "\<not> out_of_reach v d"
  let ?M = "s_chunks v + 1"
  have "d_pass d + 1 \<le> pass_now v" and f: "chunk_of v (d_rel d) < frontier_now v"
    using n p by (auto simp: out_of_reach_def)
  then have "(d_pass d + 1) * ?M \<le> pass_now v * ?M" by (intro mult_right_mono) auto
  then show False using G f gen_pass_frontier[of v] by (simp add: exposure_threshold_def)
qed

lemma write_move_geom: "write_move cfg env cur w n v v' \<Longrightarrow> geom v' = geom v"
  by (auto simp: write_move_def calm_def forced_def)

lemma write_move_pass: "write_move cfg env cur w n v v' \<Longrightarrow> pass_now v \<le> pass_now v'"
  by (auto simp: write_move_def)

lemma write_move_gen_mono:
  assumes "write_move cfg env cur w n v v'"
  shows "exposure_gen v \<le> exposure_gen v'"
proof -
  have c: "s_chunks v' = s_chunks v" using geomD(4)[OF write_move_geom[OF assms]] .
  consider "pass_now v' = pass_now v" "frontier_now v \<le> frontier_now v'" | "pass_now v' = pass_now v + 1"
    using assms by (auto simp: write_move_def)
  then show ?thesis
    using gen_pass_frontier[of v] gen_pass_frontier[of v'] frontier_now_le[of v] c by cases (simp_all add: algebra_simps)
qed

lemma fill_avoids_doc:
  assumes wf: "geometry_wf v" and m: "write_move cfg env (current_write_cursor v) w n v v'"
    and pl: "doc_placed v d" and reach: "out_of_reach v' d"
    and flush: "\<not> s_retain v \<Longrightarrow> pass_now v > 0 \<Longrightarrow> frontier_now v = s_chunks v"
    and X: "s_retain v \<Longrightarrow> X \<le> s_offset v + frontier_rel_of v (frontier_now v')"
  shows "s_offset v + d_rel d + d_len d \<le> w \<or> X \<le> s_offset v + d_rel d"
proof -
  note g = geom_getters[OF write_move_geom[OF m]] geomD[OF write_move_geom[OF m]]
  have ps: "d_pass d \<le> pass_now v" using pl by (simp add: doc_placed_def)
  have mono: "pass_now v \<le> pass_now v'" using write_move_pass[OF m] .
  show ?thesis
  proof (cases "d_pass d = pass_now v'")
    case True
    then have "pass_now v' = pass_now v" using ps mono by simp
    moreover have "w = current_write_cursor v" using m calculation by (auto simp: write_move_def)
    ultimately show ?thesis using pl True by (simp add: doc_placed_def)
  next
    case False
    then have fr: "frontier_now v' \<le> chunk_of v (d_rel d)" using reach g by (simp add: out_of_reach_def)
    have pos: "pass_now v' > 0" using False ps mono by linarith
    have "s_retain v"
    proof (rule ccontr)
      assume r: "\<not> s_retain v"
      then have "frontier_now v' = s_chunks v"
        using m flush pos by (auto simp: write_move_def split: if_splits)
      then show False using fr chunk_of_less[OF wf, of "d_rel d"] by simp
    qed
    moreover have "frontier_rel_of v (frontier_now v') \<le> d_rel d"
      using frontier_le_iff_chunk[OF wf] fr pl by (simp add: doc_placed_def)
    ultimately show ?thesis using X by linarith
  qed
qed

lemma holds_unchanged:
  assumes "holds file base d" "length (d_bytes d) \<le> d_len d"
    "base + d_rel d + d_len d \<le> w \<or> X \<le> base + d_rel d"
    "\<And>x. x < w \<or> X \<le> x \<Longrightarrow> file' x = file x"
  shows "holds file' base d"
  using assms by (fastforce simp: holds_def)

section \<open>Reader steps\<close>

text \<open>Readers only touch borrow slots and the lease.\<close>

definition reader_same :: "volume \<Rightarrow> volume \<Rightarrow> bool" where
  "reader_same v v' \<longleftrightarrow> geom v' = geom v \<and> exposure_gen v' = exposure_gen v \<and> s_write_pos v' = s_write_pos v \<and>
     m_shared_write_pos v' = m_shared_write_pos v \<and> intent_value v' = intent_value v"

lemma stamp_same: "reader_same v (stamp_read_lease cfg now v)"
  by (simp add: reader_same_def stamp_read_lease_def Let_def view_defs)

lemma set_slot_same: "reader_same v (set_borrow_slot sh c x v)"
  by (simp add: reader_same_def set_borrow_slot_def view_defs)

lemma reader_same_refl [simp]: "reader_same v v" by (simp add: reader_same_def)

lemma reader_same_trans: "reader_same u v \<Longrightarrow> reader_same v w \<Longrightarrow> reader_same u w"
  by (simp add: reader_same_def)

lemma acquire_same: "acquire_borrow cfg th c v = (v1, t) \<Longrightarrow> reader_same v v1"
  by (auto simp: acquire_borrow_def Let_def set_slot_same split: if_splits)

lemma release_same: "reader_same v (release_borrow a t v)"
  by (auto simp: release_borrow_def set_slot_same)

lemma reader_same_views:
  assumes "reader_same v v'"
  shows "pass_now v' = pass_now v" "frontier_now v' = frontier_now v" "current_write_cursor v' = current_write_cursor v"
    "exposure_gen v' = exposure_gen v" "s_offset v' = s_offset v" "exposure_threshold v' = exposure_threshold v"
    "doc_placed v' = doc_placed v" "out_of_reach v' = out_of_reach v" "volume_inv v' = volume_inv v"
    "valid_shard v' = valid_shard v" "chunk_of v' = chunk_of v" "borrow_wf v' = borrow_wf v"
proof -
  have g: "geom v' = geom v" using assms by (simp add: reader_same_def)
  note gg = geomD[OF g] geom_getters[OF g]
  show p: "pass_now v' = pass_now v" and f: "frontier_now v' = frontier_now v"
    and c: "current_write_cursor v' = current_write_cursor v" and "exposure_gen v' = exposure_gen v"
    and "s_offset v' = s_offset v" and "exposure_threshold v' = exposure_threshold v" and "chunk_of v' = chunk_of v"
    using assms gg by (simp_all add: reader_same_def pass_now_def frontier_now_def current_write_cursor_def)
  show "doc_placed v' = doc_placed v" "out_of_reach v' = out_of_reach v" "valid_shard v' = valid_shard v"
    "borrow_wf v' = borrow_wf v"
    by (simp_all add: fun_eq_iff doc_placed_def out_of_reach_def valid_shard_def borrow_wf_def p f c gg)
  show "volume_inv v' = volume_inv v"
    using assms by (simp add: volume_inv_def cursor_wf_def p f c gg reader_same_def)
qed

lemma slot_of_stamp: "borrow_slot_of sh c (stamp_read_lease cfg now v) = borrow_slot_of sh c v"
  by (simp add: stamp_read_lease_def Let_def view_defs)

lemma slot_of_set:
  assumes "valid_shard v sh" "valid_shard v sh'"
  shows "borrow_slot_of sh' c' (set_borrow_slot sh c x v) =
    (if sh' = sh \<and> c' = c then x else borrow_slot_of sh' c' v)"
  using assms by (auto simp: set_borrow_slot_def borrow_slot_of_def valid_shard_def)

lemma guarded_same:
  "guarded (w\<lparr>w_vol := v\<rparr>) b = guarded w b" "guarded (w\<lparr>w_vol := v, w_borrows := bs\<rparr>) b = guarded w b"
  by (simp_all add: guarded_def)

lemma renew_inv:
  assumes "world_inv w"
  shows "world_inv (w\<lparr>w_vol := stamp_read_lease cfg now (w_vol w)\<rparr>)"
proof -
  note r = reader_same_views[OF stamp_same[of "w_vol w" cfg now]]
  show ?thesis using assms
    by (simp add: world_inv_def slots_inv_def docs_inv_def slot_view_def r slot_of_stamp guarded_same)
qed

lemma slot_tokens_Cons:
  "slot_tokens sh c (b # bs) =
     (if bt_active (ob_token b) \<and> bt_shard (ob_token b) = sh \<and> bt_chunk (ob_token b) = c
      then \<lparr>tk_acq = \<lparr>acq_generation = bt_generation (ob_token b), acq_counted = bt_counted (ob_token b)\<rparr>,
             tk_epoch = ob_epoch b\<rparr> # slot_tokens sh c bs
      else slot_tokens sh c bs)"
  by (simp add: slot_tokens_def)

lemma slot_tokens_append: "slot_tokens sh c (A @ B) = slot_tokens sh c A @ slot_tokens sh c B"
  by (simp add: slot_tokens_def)

lemma acquire_borrow_token:
  assumes wf: "geometry_wf v" and R: "acquire_borrow cfg th (chunk_of v rel) v = (v1, t)"
  shows "borrow_wf v \<lparr>ob_doc = d\<lparr>d_rel := rel\<rparr>, ob_token = t, ob_epoch = e, ob_lapsed = l\<rparr>"
    and "bt_active t \<Longrightarrow> v1 = set_borrow_slot (bt_shard t) (bt_chunk t)
           (fst (slot_acquire (borrow_slot_of (bt_shard t) (bt_chunk t) v))) v \<and>
         \<lparr>acq_generation = bt_generation t, acq_counted = bt_counted t\<rparr>
           = snd (slot_acquire (borrow_slot_of (bt_shard t) (bt_chunk t) v))"
    and "\<not> bt_active t \<Longrightarrow> v1 = v"
proof -
  have c: "chunk_of v rel < kMaxChunks" using chunk_of_less[OF wf, of rel] wf by (simp add: geometry_wf_def)
  have sh: "valid_shard v (if s_use_mmap_directory v then 0 else th mod kBorrowShards)"
    by (simp add: valid_shard_def kBorrowShards_def)
  show "borrow_wf v \<lparr>ob_doc = d\<lparr>d_rel := rel\<rparr>, ob_token = t, ob_epoch = e, ob_lapsed = l\<rparr>"
    using R c sh by (auto simp: acquire_borrow_def Let_def borrow_wf_def no_token_def split: if_splits)
  show "bt_active t \<Longrightarrow> v1 = set_borrow_slot (bt_shard t) (bt_chunk t)
           (fst (slot_acquire (borrow_slot_of (bt_shard t) (bt_chunk t) v))) v \<and>
         \<lparr>acq_generation = bt_generation t, acq_counted = bt_counted t\<rparr>
           = snd (slot_acquire (borrow_slot_of (bt_shard t) (bt_chunk t) v))"
    "\<not> bt_active t \<Longrightarrow> v1 = v"
    using R c by (auto simp: acquire_borrow_def Let_def no_token_def split: if_splits)
qed

lemma borrow_slots_inv:
  assumes s: "slots_inv w" and wf: "geometry_wf (w_vol w)" and d: "d \<in> w_docs w"
    and R: "acquire_borrow cfg th (chunk_of (w_vol w) (d_rel d)) (w_vol w) = (v1, t)"
    and v2: "v2 = stamp_read_lease cfg now v1"
  defines "nb \<equiv> \<lparr>ob_doc = d, ob_token = t, ob_epoch = w_epoch w (bt_shard t) (bt_chunk t), ob_lapsed = False\<rparr>"
  shows "slots_inv (w\<lparr>w_vol := v2, w_borrows := nb # w_borrows w\<rparr>)"
proof -
  let ?w' = "w\<lparr>w_vol := v2, w_borrows := nb # w_borrows w\<rparr>"
  note a = acquire_borrow_token[OF wf R]
  have bw: "borrow_wf (w_vol w) nb" using a(1)[of d] by (simp add: nb_def)
  note rs = reader_same_views[OF reader_same_trans[OF acquire_same[OF R] stamp_same[of v1 cfg now]], folded v2]
  have "slot_inv (slot_view ?w' sh c)" if v: "valid_shard (w_vol w) sh" "c < kMaxChunks" for sh c
  proof -
    have old: "slot_inv (slot_view w sh c)" using s v by (simp add: slots_inv_def)
    show ?thesis
    proof (cases "bt_active t \<and> bt_shard t = sh \<and> bt_chunk t = c")
      case True
      then have "slot_view ?w' sh c = (slot_view w sh c)\<lparr>sys_slot := fst (slot_acquire (sys_slot (slot_view w sh c))),
          sys_live := \<lparr>tk_acq = snd (slot_acquire (sys_slot (slot_view w sh c))), tk_epoch = sys_epoch (slot_view w sh c)\<rparr>
            # sys_live (slot_view w sh c)\<rparr>"
        using a(2) v by (simp add: slot_view_def nb_def slot_tokens_Cons v2 slot_of_stamp slot_of_set)
      then show ?thesis using slot_inv_borrow[OF old] by simp
    next
      case False
      have vt: "bt_active t \<Longrightarrow> valid_shard (w_vol w) (bt_shard t)" using bw by (simp add: borrow_wf_def nb_def)
      have "borrow_slot_of sh c v1 = borrow_slot_of sh c (w_vol w)"
        using False a(2,3) vt v by (cases "bt_active t") (auto simp: slot_of_set)
      then have "slot_view ?w' sh c = slot_view w sh c"
        using False by (auto simp: slot_view_def nb_def slot_tokens_Cons v2 slot_of_stamp)
      then show ?thesis using old by simp
    qed
  qed
  then show ?thesis using s d bw by (simp add: slots_inv_def rs nb_def)
qed

lemma borrow_inv:
  assumes inv: "world_inv w" and d: "d \<in> w_docs w"
    and R: "acquire_borrow cfg th (chunk_of (w_vol w) (d_rel d)) (w_vol w) = (v1, t)"
    and v2: "v2 = stamp_read_lease cfg now v1"
    and ok: "borrow_still_valid (exposure_threshold v2 (d_pass d) (d_rel d)) t v2"
  shows "world_inv (w\<lparr>w_vol := v2, w_borrows := \<lparr>ob_doc = d, ob_token = t,
      ob_epoch = w_epoch w (bt_shard t) (bt_chunk t), ob_lapsed = False\<rparr> # w_borrows w\<rparr>)"
proof -
  have wf: "geometry_wf (w_vol w)" using inv by (simp add: world_inv_def volume_inv_def)
  note rs = reader_same_views[OF reader_same_trans[OF acquire_same[OF R] stamp_same[of v1 cfg now]], folded v2]
  have G: "exposure_gen (w_vol w) \<le> exposure_threshold (w_vol w) (d_pass d) (d_rel d)"
    using ok by (simp add: borrow_still_valid_def rs)
  have pl: "doc_placed (w_vol w) d" and h: "holds (w_file w) (s_offset (w_vol w)) d"
    using inv d G by (auto simp: world_inv_def docs_inv_def)
  have "out_of_reach (w_vol w) d"
    using pl G by (intro unexposed_out_of_reach[OF wf]) (simp_all add: doc_placed_def)
  then have "docs_inv (w\<lparr>w_vol := v2, w_borrows := \<lparr>ob_doc = d, ob_token = t,
      ob_epoch = w_epoch w (bt_shard t) (bt_chunk t), ob_lapsed = False\<rparr> # w_borrows w\<rparr>)"
    using inv h by (simp add: world_inv_def docs_inv_def rs guarded_same)
  then show ?thesis using inv borrow_slots_inv[OF _ wf d R v2] by (simp add: world_inv_def rs)
qed

lemma close_inv:
  assumes inv: "world_inv w" and l: "w_borrows w = A @ b # B"
    and e: "w_epoch w (bt_shard (ob_token b)) (bt_chunk (ob_token b)) < ob_epoch b + 256"
  shows "world_inv (w\<lparr>w_vol := release_borrow True (ob_token b) (w_vol w), w_borrows := A @ B\<rparr>)"
proof -
  let ?v = "w_vol w" and ?t = "ob_token b"
  let ?w' = "w\<lparr>w_vol := release_borrow True ?t ?v, w_borrows := A @ B\<rparr>"
  note rs = reader_same_views[OF release_same[of ?v True ?t]]
  have bw: "borrow_wf ?v b" and s: "slots_inv w" using inv l by (auto simp: world_inv_def slots_inv_def)
  have "slot_inv (slot_view ?w' sh c)" if v: "valid_shard ?v sh" "c < kMaxChunks" for sh c
  proof -
    let ?y = "slot_view w sh c"
    have old: "slot_inv ?y" using s v by (simp add: slots_inv_def)
    have sl: "borrow_slot_of sh c (release_borrow True ?t ?v) =
        (if bt_active ?t \<and> bt_counted ?t \<and> sh = bt_shard ?t \<and> c = bt_chunk ?t
         then slot_release (bt_generation ?t) (borrow_slot_of sh c ?v) else borrow_slot_of sh c ?v)"
      using bw v by (auto simp: release_borrow_def slot_of_set borrow_wf_def)
    show ?thesis
    proof (cases "bt_active ?t \<and> bt_shard ?t = sh \<and> bt_chunk ?t = c")
      case True
      define tk where "tk = \<lparr>tk_acq = \<lparr>acq_generation = bt_generation ?t, acq_counted = bt_counted ?t\<rparr>, tk_epoch = ob_epoch b\<rparr>"
      have live: "sys_live ?y = slot_tokens sh c A @ tk # slot_tokens sh c B"
        using True by (simp add: slot_view_def l slot_tokens_append slot_tokens_Cons tk_def)
      have "slot_view ?w' sh c = ?y\<lparr>sys_slot := token_release tk (sys_slot ?y), sys_live := slot_tokens sh c A @ slot_tokens sh c B\<rparr>"
        using True by (auto simp: slot_view_def sl token_release_def tk_def slot_tokens_append)
      then show ?thesis using slot_inv_close_split[OF old live] e True by (simp add: tk_def slot_view_def)
    next
      case False
      then have "slot_view ?w' sh c = ?y"
        by (auto simp: slot_view_def sl l slot_tokens_append slot_tokens_Cons)
      then show ?thesis using old by simp
    qed
  qed
  moreover have "\<forall>x \<in> set (A @ B). x \<in> set (w_borrows w)" by (auto simp: l)
  ultimately show ?thesis using inv
    unfolding world_inv_def slots_inv_def docs_inv_def by (simp add: rs guarded_same)
qed

section \<open>Writer steps\<close>

lemma slot_tokens_lapse: "slot_tokens sh c (map (\<lambda>b. b\<lparr>ob_lapsed := f b\<rparr>) bs) = slot_tokens sh c bs"
  by (induction bs) (simp_all add: slot_tokens_def)

lemma slot_view_after_write:
  assumes s: "slot_inv (slot_view w sh c)" and cf: "calm (w_vol w) v1 \<or> forced (w_vol w) v1"
    and v2: "borrow_slot_of sh c v2 = borrow_slot_of sh c v1"
    and v: "valid_shard (w_vol w) sh" "c < kMaxChunks"
  shows "slot_inv (slot_view (after_write cfg env v1 v2 w) sh c)"
proof -
  let ?y = "slot_view w sh c"
  have "slot_view (after_write cfg env v1 v2 w) sh c = ?y \<or>
    slot_view (after_write cfg env v1 v2 w) sh c = ?y\<lparr>sys_slot := fst (slot_force_reset (sys_slot ?y)),
      sys_epoch := (if snd (slot_force_reset (sys_slot ?y)) then Suc (sys_epoch ?y) else sys_epoch ?y)\<rparr>"
    using cf
  proof
    assume "calm (w_vol w) v1"
    then show ?thesis
      by (simp add: slot_view_def after_write_def slot_tokens_lapse v2 next_epoch_def calm_def)
  next
    assume "forced (w_vol w) v1"
    then show ?thesis using v
      by (simp add: slot_view_def after_write_def slot_tokens_lapse v2 next_epoch_def forced_def valid_shard_def reset_slot)
  qed
  then show ?thesis using s slot_inv_force[OF s] by auto
qed

lemma counted_occupies:
  assumes s: "slots_inv w" and b: "b \<in> set (w_borrows w)" "bt_counted (ob_token b)"
  defines "sh \<equiv> bt_shard (ob_token b)" and "c \<equiv> bt_chunk (ob_token b)"
  shows "valid_shard (w_vol w) sh" "c < kMaxChunks" "c = chunk_of (w_vol w) (d_rel (ob_doc b))"
    "ob_epoch b \<le> w_epoch w sh c" "ob_epoch b = w_epoch w sh c \<Longrightarrow> slot_count (borrow_slot_of sh c (w_vol w)) \<noteq> 0"
proof -
  have wf: "borrow_wf (w_vol w) b" using s b by (simp add: slots_inv_def)
  then have act: "bt_active (ob_token b)" using b(2) by (auto simp: borrow_wf_def)
  then show v: "valid_shard (w_vol w) sh" "c < kMaxChunks" and "c = chunk_of (w_vol w) (d_rel (ob_doc b))"
    using wf by (auto simp: borrow_wf_def sh_def c_def)
  let ?tk = "\<lparr>tk_acq = \<lparr>acq_generation = bt_generation (ob_token b), acq_counted = bt_counted (ob_token b)\<rparr>, tk_epoch = ob_epoch b\<rparr>"
  have i: "slot_inv (slot_view w sh c)" using s v by (simp add: slots_inv_def)
  have mem: "?tk \<in> set (sys_live (slot_view w sh c))"
    using b(1) act by (auto simp: slot_view_def slot_tokens_def sh_def c_def)
  show "ob_epoch b \<le> w_epoch w sh c" using i mem by (auto simp: slot_inv_def slot_view_def)
  assume "ob_epoch b = w_epoch w sh c"
  then have "?tk \<in> set (filter (\<lambda>t. acq_counted (tk_acq t) \<and> tk_epoch t = w_epoch w sh c) (sys_live (slot_view w sh c)))"
    using mem b(2) by simp
  then have "counted_now (w_epoch w sh c) (sys_live (slot_view w sh c)) \<noteq> 0" by (metis length_pos_if_in_set less_irrefl)
  then show "slot_count (borrow_slot_of sh c (w_vol w)) \<noteq> 0" using i by (simp add: slot_inv_def slot_view_def)
qed

lemma guarded_after_write:
  assumes s: "slots_inv w" and b: "b \<in> set (w_borrows w)" and cf: "calm (w_vol w) v1 \<or> forced (w_vol w) v1"
    and g: "guarded (after_write cfg env v1 v2 w) (b\<lparr>ob_lapsed := ob_lapsed b \<or> \<not> leases_live cfg env (w_vol w)\<rparr>)"
  shows "guarded w b" "calm (w_vol w) v1" "leases_live cfg env (w_vol w)"
    "\<not> chunk_clear (chunk_of (w_vol w) (d_rel (ob_doc b))) (w_vol w)"
proof -
  let ?sh = "bt_shard (ob_token b)" and ?c = "bt_chunk (ob_token b)"
  have cnt: "bt_counted (ob_token b)" and live: "leases_live cfg env (w_vol w)" "\<not> ob_lapsed b"
    and e: "ob_epoch b = next_epoch (w_vol w) v1 (w_epoch w) ?sh ?c"
    using g by (auto simp: guarded_def after_write_def)
  note o = counted_occupies[OF s b cnt]
  have same: "ob_epoch b = w_epoch w ?sh ?c"
    using e o(4) by (auto simp: next_epoch_def split: if_splits)
  then have occ: "slot_count (borrow_slot_of ?sh ?c (w_vol w)) \<noteq> 0" by (rule o(5))
  show "guarded w b" using cnt live same by (simp add: guarded_def)
  show "leases_live cfg env (w_vol w)" by (rule live(1))
  show "calm (w_vol w) v1"
    using cf e same occ by (auto simp: next_epoch_def forced_def split: if_splits)
  show "\<not> chunk_clear (chunk_of (w_vol w) (d_rel (ob_doc b))) (w_vol w)"
    using occ o(1,3) by (auto simp: chunk_clear_def valid_shard_def)
qed

lemma write_move_keeps_reach:
  assumes m: "write_move cfg env cur x n v v'" and c: "calm v v'" and l: "leases_live cfg env v"
    and b: "\<not> chunk_clear (chunk_of v (d_rel d)) v" and r: "out_of_reach v d"
  shows "out_of_reach v' d"
proof -
  have "\<not> swept v v' (chunk_of v (d_rel d))"
    using m c l b by (auto simp: write_move_def leases_live_def)
  then show ?thesis using r geom_getters(2)[OF write_move_geom[OF m]] m
    by (auto simp: out_of_reach_def swept_def write_move_def not_less)
qed

lemma commit_effect:
  assumes R: "commit_write_slot rv slot ok v1 = (v2, r)" and "ws_deferred_publish slot"
    "ws_holds_write_lock slot = s_use_mmap_directory v1"
  shows "calm v1 v2" "exposure_gen v2 = exposure_gen v1" "intent_value v2 = intent_value v1"
    "current_write_cursor v2 = (if ok \<and> r = Inr () then ws_new_write_pos slot else current_write_cursor v1)"
  using assms
  by (auto simp: commit_write_slot_def release_write_lock_def set_shared_write_pos_def current_write_cursor_def
      calm_def view_defs Let_def split: if_splits)

lemma calm_views:
  assumes "calm v v'" "exposure_gen v' = exposure_gen v"
  shows "pass_now v' = pass_now v" "frontier_now v' = frontier_now v" "exposure_threshold v' = exposure_threshold v"
    "out_of_reach v' = out_of_reach v" "valid_shard v' = valid_shard v" "borrow_wf v' = borrow_wf v"
    "chunk_of v' = chunk_of v" "s_offset v' = s_offset v" "geometry_wf v' = geometry_wf v"
proof -
  note g = geomD[OF calm_geom[OF assms(1)]] geom_getters[OF calm_geom[OF assms(1)]]
  show p: "pass_now v' = pass_now v" "frontier_now v' = frontier_now v"
    using assms(2) g by (simp_all add: pass_now_def frontier_now_def)
  show "out_of_reach v' = out_of_reach v" "valid_shard v' = valid_shard v" "borrow_wf v' = borrow_wf v"
    by (simp_all add: fun_eq_iff out_of_reach_def valid_shard_def borrow_wf_def p g)
qed (simp_all add: geomD[OF calm_geom[OF assms(1)]] geom_getters[OF calm_geom[OF assms(1)]])

lemma effect_views:
  assumes "calm v v' \<or> forced v v'"
  shows "geom v' = geom v" "valid_shard v' = valid_shard v" "borrow_wf v' = borrow_wf v"
proof -
  show g: "geom v' = geom v" using assms by (auto simp: calm_def forced_def)
  show "valid_shard v' = valid_shard v" "borrow_wf v' = borrow_wf v"
    by (simp_all add: fun_eq_iff valid_shard_def borrow_wf_def geomD[OF g] geom_getters[OF g])
qed

lemma slots_inv_after_write:
  assumes s: "slots_inv w" and cf: "calm (w_vol w) v1 \<or> forced (w_vol w) v1" and c2: "calm v1 v2"
    and docs: "w_docs w \<subseteq> D"
  shows "slots_inv ((after_write cfg env v1 v2 w)\<lparr>w_file := f, w_docs := D\<rparr>)"
proof -
  have e: "valid_shard v2 = valid_shard (w_vol w)" "borrow_wf v2 = borrow_wf (w_vol w)"
    using effect_views[OF cf] effect_views[of v1 v2] c2 by simp_all
  have "slot_inv (slot_view (after_write cfg env v1 v2 w) sh c)" if "valid_shard (w_vol w) sh" "c < kMaxChunks" for sh c
    using s that c2 by (intro slot_view_after_write[OF _ cf]) (simp_all add: slots_inv_def calm_def)
  moreover have "slot_view ((after_write cfg env v1 v2 w)\<lparr>w_file := f, w_docs := D\<rparr>) = slot_view (after_write cfg env v1 v2 w)"
    by (simp add: fun_eq_iff slot_view_def)
  moreover have "borrow_wf v (b\<lparr>ob_lapsed := x\<rparr>) = borrow_wf v b" for v b x by (simp add: borrow_wf_def)
  ultimately show ?thesis using s docs by (auto simp: slots_inv_def after_write_def e)
qed

text \<open>
  The core of the argument, for a step from v to v1 that moves frontier and cursor
  and then changes the file only inside the reserved span [x, X).
\<close>

lemma docs_survive:
  assumes inv: "world_inv w" and m: "write_move cfg env (current_write_cursor (w_vol w)) x n (w_vol w) v1"
    and X: "s_retain (w_vol w) \<Longrightarrow> X \<le> s_offset (w_vol w) + frontier_rel_of (w_vol w) (frontier_now v1)"
    and f: "\<And>y. y < x \<or> X \<le> y \<Longrightarrow> f y = w_file w y"
  shows "d \<in> w_docs w \<Longrightarrow> exposure_gen v1 \<le> exposure_threshold (w_vol w) (d_pass d) (d_rel d) \<Longrightarrow>
      holds f (s_offset (w_vol w)) d"
    and "b \<in> set (w_borrows w) \<Longrightarrow>
      guarded (after_write cfg env v1 v2 w) (b\<lparr>ob_lapsed := ob_lapsed b \<or> \<not> leases_live cfg env (w_vol w)\<rparr>) \<Longrightarrow>
      out_of_reach v1 (ob_doc b) \<and> holds f (s_offset (w_vol w)) (ob_doc b)"
proof -
  let ?v = "w_vol w"
  have wf: "geometry_wf ?v" and flush: "\<not> s_retain ?v \<Longrightarrow> pass_now ?v > 0 \<Longrightarrow> frontier_now ?v = s_chunks ?v"
    and s: "slots_inv w" using inv by (auto simp: world_inv_def volume_inv_def)
  have cf: "calm ?v v1 \<or> forced ?v v1" using m by (simp add: write_move_def)
  note g = geom_getters[OF write_move_geom[OF m]] geomD[OF write_move_geom[OF m]]
  have keep: "holds f (s_offset ?v) d" if "doc_placed ?v d" "out_of_reach v1 d" "holds (w_file w) (s_offset ?v) d" for d
  proof -
    have "length (d_bytes d) \<le> d_len d" using that(1) by (simp add: doc_placed_def)
    then show ?thesis using holds_unchanged[OF that(3) _ fill_avoids_doc[OF wf m that(1,2) flush X] f] by simp
  qed
  show "holds f (s_offset ?v) d"
    if d: "d \<in> w_docs w" and G: "exposure_gen v1 \<le> exposure_threshold ?v (d_pass d) (d_rel d)"
  proof -
    have pl: "doc_placed ?v d" using inv d by (simp add: world_inv_def docs_inv_def)
    have "exposure_gen ?v \<le> exposure_threshold ?v (d_pass d) (d_rel d)" using G write_move_gen_mono[OF m] by linarith
    then have h: "holds (w_file w) (s_offset ?v) d" using inv d by (simp add: world_inv_def docs_inv_def)
    have "out_of_reach v1 d"
      using pl G write_move_pass[OF m] wf
      by (intro unexposed_out_of_reach) (simp_all add: doc_placed_def g)
    then show ?thesis using keep pl h by simp
  qed
  show "out_of_reach v1 (ob_doc b) \<and> holds f (s_offset ?v) (ob_doc b)"
    if b: "b \<in> set (w_borrows w)"
      and gd: "guarded (after_write cfg env v1 v2 w) (b\<lparr>ob_lapsed := ob_lapsed b \<or> \<not> leases_live cfg env ?v\<rparr>)"
  proof -
    note ga = guarded_after_write[OF s b cf gd]
    have pl: "doc_placed ?v (ob_doc b)" and o: "out_of_reach ?v (ob_doc b)" and h: "holds (w_file w) (s_offset ?v) (ob_doc b)"
      using inv b ga(1) by (auto simp: world_inv_def docs_inv_def slots_inv_def)
    have "out_of_reach v1 (ob_doc b)" by (rule write_move_keeps_reach[OF m ga(2,3,4) o])
    then show ?thesis using keep pl h by simp
  qed
qed

lemma write_move_cursor:
  assumes wf: "geometry_wf v" and cw: "cursor_wf v" and m: "write_move cfg env (current_write_cursor v) x n v v1"
  shows "cursor_wf v1" "pass_now v1 = pass_now v \<Longrightarrow> x = current_write_cursor v \<and> current_write_cursor v1 = current_write_cursor v"
    "s_data_offset v \<le> x" "x + n \<le> s_offset v + s_size v"
proof -
  note g = geomD[OF write_move_geom[OF m]]
  have d: "s_data_offset v \<le> s_offset v + s_size v" using wf by (simp add: geometry_wf_def)
  have cur: "current_write_cursor v1 = (if s_use_mmap_directory v then m_shared_write_pos v1 else s_write_pos v1)"
    by (simp add: current_write_cursor_def g)
  show n: "pass_now v1 = pass_now v \<Longrightarrow> x = current_write_cursor v \<and> current_write_cursor v1 = current_write_cursor v"
    using m by (auto simp: write_move_def cur current_write_cursor_def[of v])
  show "s_data_offset v \<le> x" "x + n \<le> s_offset v + s_size v"
    using m cw by (auto simp: write_move_def cursor_wf_def)
  show "cursor_wf v1"
  proof (cases "pass_now v1 = pass_now v")
    case True
    then show ?thesis using n cw by (simp add: cursor_wf_def g)
  next
    case False
    then have "s_write_pos v1 = s_data_offset v"
      "m_shared_write_pos v1 = s_data_offset v \<or> m_shared_write_pos v1 = m_shared_write_pos v"
      using m by (auto simp: write_move_def)
    then have "current_write_cursor v1 = s_data_offset v \<or> current_write_cursor v1 = current_write_cursor v"
      by (auto simp: cur current_write_cursor_def[of v])
    then show ?thesis using d cw by (auto simp: cursor_wf_def g)
  qed
qed

lemma doc_placed_moves:
  assumes pl: "doc_placed v d" and g: "geom v' = geom v" and p: "pass_now v \<le> pass_now v'"
    and c: "pass_now v' = pass_now v \<Longrightarrow> current_write_cursor v \<le> current_write_cursor v'"
  shows "doc_placed v' d"
proof -
  note gg = geomD[OF g] geom_getters[OF g]
  have "s_offset v + d_rel d + d_len d \<le> current_write_cursor v'" if "d_pass d = pass_now v'"
  proof -
    have "pass_now v' = pass_now v" using that pl p by (simp add: doc_placed_def)
    then show ?thesis using c pl that by (auto simp: doc_placed_def)
  qed
  then show ?thesis using pl p by (auto simp: doc_placed_def gg)
qed

lemma write_filled_inv:
  assumes inv: "world_inv w" and n: "n + 7 < 2 ^ 64"
    and R: "allocate_write_slot cfg env n (w_vol w) = (v1, Inr slot)"
    and len: "0 < length content" "length content \<le> n"
    and f: "\<forall>x. x < ws_write_offset slot \<or> fill_limit slot \<le> x \<longrightarrow> file' x = w_file w x"
    and h: "fill_ok \<longrightarrow> holds file' (s_offset (w_vol w)) (slot_doc (w_vol w) slot content)"
    and C: "commit_write_slot rv slot fill_ok v1 = (v2, r)"
  shows "world_inv ((after_write cfg env v1 v2 w)\<lparr>w_file := file',
       w_docs := (if fill_ok \<and> r = Inr () then insert (slot_doc (w_vol w) slot content) (w_docs w) else w_docs w)\<rparr>)"
    (is "world_inv ?w'")
proof -
  let ?v = "w_vol w" and ?x = "ws_write_offset slot" and ?d = "slot_doc (w_vol w) slot content"
  have wf: "geometry_wf ?v" and cw: "cursor_wf ?v" and i: "intent_value ?v = 0" and s: "slots_inv w"
    and fl: "\<not> s_retain ?v \<Longrightarrow> pass_now ?v > 0 \<Longrightarrow> frontier_now ?v = s_chunks ?v"
    using inv by (auto simp: world_inv_def volume_inv_def)
  note a = allocate_some[OF wf cw i n R]
  note m = a(1)
  note g = geomD[OF write_move_geom[OF m]] geom_getters[OF write_move_geom[OF m]]
  note cur = write_move_cursor[OF wf cw m]
  have hl: "ws_holds_write_lock slot = s_use_mmap_directory v1" using a(6) g by simp
  note k = commit_effect[OF C a(7) hl]
  note c2 = calm_views[OF k(1,2)]
  note g2 = geomD[OF calm_geom[OF k(1)]]
  have np: "ws_new_write_pos slot = ?x + round_up8 n" by (rule a(2))
  have X: "s_retain ?v \<Longrightarrow> fill_limit slot \<le> s_offset ?v + frontier_rel_of ?v (frontier_now v1)"
    using m a(5) np by (simp add: fill_limit_def write_move_def)
  have ff: "\<And>y. y < ?x \<or> fill_limit slot \<le> y \<Longrightarrow> file' y = w_file w y" using f by blast
  note sv1 = docs_survive(1)[OF inv m X ff] and sv2 = docs_survive(2)[OF inv m X ff]
  have vol: "volume_inv v2"
    using wf cur k m fl g np c2 g2 i by (auto simp: volume_inv_def cursor_wf_def write_move_def split: if_splits)
  have old: "doc_placed v2 d" if "d \<in> w_docs w" for d
  proof (rule doc_placed_moves)
    show "doc_placed ?v d" using inv that by (simp add: world_inv_def docs_inv_def)
    show "geom v2 = geom ?v" using calm_geom[OF k(1)] write_move_geom[OF m] by simp
    show "pass_now ?v \<le> pass_now v2" using write_move_pass[OF m] c2 by simp
    show "pass_now v2 = pass_now ?v \<Longrightarrow> current_write_cursor ?v \<le> current_write_cursor v2"
      using cur(2) k(4) c2 np by auto
  qed
  have new: "doc_placed v2 ?d" if "fill_ok \<and> r = Inr ()"
  proof -
    have "?d = \<lparr>d_pass = pass_now v2, d_rel = ?x - s_offset ?v, d_len = round_up8 n, d_bytes = content\<rparr>"
      by (simp add: slot_doc_def np a(3) c2)
    moreover have "s_offset ?v \<le> ?x" using cur(3) wf by (simp add: geometry_wf_def)
    moreover have "0 < round_up8 n" "length content \<le> round_up8 n" using len round_up8_ge[of n] by linarith+
    ultimately show ?thesis using that cur(3,4) k(4) np g g2
      by (auto simp: doc_placed_def data_start_rel_def)
  qed
  have gw: "guarded ?w' b = guarded (after_write cfg env v1 v2 w) b" for b by (simp add: guarded_def)
  have th: "exposure_threshold v2 = exposure_threshold ?v" "s_offset v2 = s_offset ?v" using c2 g by simp_all
  have "doc_placed v2 d \<and> (exposure_gen v2 \<le> exposure_threshold v2 (d_pass d) (d_rel d) \<longrightarrow> holds file' (s_offset v2) d)"
    if "d \<in> w_docs ?w'" for d
    using that old new h sv1 unfolding th k(2) by (auto split: if_splits)
  moreover have "out_of_reach v2 (ob_doc b) \<and> holds file' (s_offset v2) (ob_doc b)"
    if "b \<in> set (w_borrows ?w')" "guarded ?w' b" for b
    using that sv2 unfolding gw th c2(4) by (auto simp: after_write_def)
  ultimately have docs: "docs_inv ?w'" by (simp add: docs_inv_def after_write_def)
  have cf: "calm ?v v1 \<or> forced ?v v1" using m by (simp only: write_move_def)
  have "slots_inv ?w'" by (rule slots_inv_after_write[OF s cf k(1)]) auto
  moreover have "w_vol ?w' = v2" by (simp add: after_write_def)
  ultimately show ?thesis using vol docs by (simp only: world_inv_def)
qed

lemma refused_gen:
  assumes "geom v1 = geom v" and c: "exposure_gen v1 = exposure_gen v \<or>
      s_retain v \<and> pass_now v1 = pass_now v + 1 \<and> frontier_now v1 = 0"
  shows "exposure_gen v \<le> exposure_gen v1" "pass_now v \<le> pass_now v1"
    "out_of_reach v d \<Longrightarrow> out_of_reach v1 d"
    "(\<not> s_retain v \<longrightarrow> pass_now v > 0 \<longrightarrow> frontier_now v = s_chunks v) \<Longrightarrow>
     \<not> s_retain v1 \<longrightarrow> pass_now v1 > 0 \<longrightarrow> frontier_now v1 = s_chunks v1"
proof -
  note g = geomD[OF assms(1)] geom_getters[OF assms(1)]
  have e: "exposure_gen v1 = exposure_gen v \<Longrightarrow> pass_now v1 = pass_now v \<and> frontier_now v1 = frontier_now v"
    by (simp add: pass_now_def frontier_now_def g)
  show "exposure_gen v \<le> exposure_gen v1"
    using c gen_pass_frontier[of v] gen_pass_frontier[of v1] frontier_now_le[of v] g by auto
  show "pass_now v \<le> pass_now v1" "out_of_reach v d \<Longrightarrow> out_of_reach v1 d"
    using c e g by (auto simp: out_of_reach_def)
  show "(\<not> s_retain v \<longrightarrow> pass_now v > 0 \<longrightarrow> frontier_now v = s_chunks v) \<Longrightarrow>
     \<not> s_retain v1 \<longrightarrow> pass_now v1 > 0 \<longrightarrow> frontier_now v1 = s_chunks v1"
    using c e g by auto
qed

lemma write_refused_inv:
  assumes inv: "world_inv w" and n: "n + 7 < 2 ^ 64"
    and R: "allocate_write_slot cfg env n (w_vol w) = (v1, Inl e)"
  shows "world_inv (after_write cfg env v1 v1 w)" (is "world_inv ?w'")
proof -
  let ?v = "w_vol w"
  have wf: "geometry_wf ?v" and cw: "cursor_wf ?v" and i: "intent_value ?v = 0" and s: "slots_inv w"
    and fl: "\<not> s_retain ?v \<longrightarrow> pass_now ?v > 0 \<longrightarrow> frontier_now ?v = s_chunks ?v"
    using inv by (auto simp: world_inv_def volume_inv_def)
  note a = allocate_error[OF wf cw i n R]
  note g = geomD[OF calm_geom[OF a(1)]] geom_getters[OF calm_geom[OF a(1)]]
  have c: "exposure_gen v1 = exposure_gen ?v \<or> s_retain ?v \<and> pass_now v1 = pass_now ?v + 1 \<and> frontier_now v1 = 0"
    using a(5) by blast
  note rg = refused_gen[OF calm_geom[OF a(1)] c]
  have cur: "pass_now v1 = pass_now ?v \<Longrightarrow> current_write_cursor v1 = current_write_cursor ?v"
    and cc: "current_write_cursor v1 = current_write_cursor ?v \<or> current_write_cursor v1 = s_data_offset ?v"
    using a(5) by (auto split: if_splits)
  have vol: "volume_inv v1"
    using wf cw cc a(2) rg(4)[OF fl] g by (auto simp: volume_inv_def cursor_wf_def geometry_wf_def)
  have pl: "doc_placed v1 d" if "d \<in> w_docs w" for d
    using that inv cur by (intro doc_placed_moves[OF _ calm_geom[OF a(1)] rg(2)])
      (simp_all add: world_inv_def docs_inv_def)
  have cf: "calm ?v v1 \<or> forced ?v v1" using a(1) by simp
  have "holds (w_file w) (s_offset v1) d"
    if "d \<in> w_docs w" "exposure_gen v1 \<le> exposure_threshold v1 (d_pass d) (d_rel d)" for d
    using inv that rg(1) g by (auto simp: world_inv_def docs_inv_def)
  moreover have "out_of_reach v1 (ob_doc b) \<and> holds (w_file w) (s_offset v1) (ob_doc b)"
    if b: "b \<in> set (w_borrows w)"
      and gd: "guarded ?w' (b\<lparr>ob_lapsed := ob_lapsed b \<or> \<not> leases_live cfg env ?v\<rparr>)" for b
    using guarded_after_write(1)[OF s b cf gd] inv b rg(3) g by (simp add: world_inv_def docs_inv_def)
  ultimately have docs: "docs_inv ?w'" using pl by (auto simp: docs_inv_def after_write_def)
  have eq: "(after_write cfg env v1 v1 w)\<lparr>w_file := w_file w, w_docs := w_docs w\<rparr> = ?w'"
    by (simp add: after_write_def)
  have "slots_inv ?w'"
    using slots_inv_after_write[OF s cf calm_refl subset_refl, where f = "w_file w" and cfg = cfg and env = env] unfolding eq .
  moreover have "w_vol ?w' = v1" by (simp add: after_write_def)
  ultimately show ?thesis using vol docs by (simp only: world_inv_def)
qed

lemma world_inv_step:
  assumes "world_step cfg w w'" "world_inv w"
  shows "world_inv w'"
  using assms(1)
proof cases
  case (write_refused n env v1 e)
  then show ?thesis using write_refused_inv[OF assms(2)] by simp
next
  case (write_filled n env v1 slot content file' fill_ok revalidated v2 r)
  show ?thesis unfolding write_filled(1) by (rule write_filled_inv[OF assms(2) write_filled(2-8)])
next
  case (borrow d thread v1 token v2 now)
  show ?thesis unfolding borrow(1) by (rule borrow_inv[OF assms(2) borrow(2-5)])
next
  case (close A b B)
  show ?thesis unfolding close(1) by (rule close_inv[OF assms(2) close(2,3)])
next
  case (renew now)
  show ?thesis unfolding renew(1) by (rule renew_inv[OF assms(2)])
qed

lemma world_init_inv: "world_init w \<Longrightarrow> world_inv w"
  by (auto simp: world_init_def world_inv_def volume_inv_def slots_inv_def docs_inv_def cursor_wf_def geometry_wf_def
      pass_now_def slot_view_def slot_tokens_def slot_inv_def generation_of_def count_of_def)

lemma world_inv_reachable: "(world_step cfg)\<^sup>*\<^sup>* w0 w \<Longrightarrow> world_init w0 \<Longrightarrow> world_inv w"
  by (induction rule: rtranclp_induct) (auto intro: world_init_inv world_inv_step)

end
