(* ===== verification/Volume_Image.thy ===== *)
theory Volume_Image
  imports Volume_Write Volume_Read Stripe_Safety
begin

text \<open>
  What a commit leaves in the file, and what a read finds there: the image of a document, the slot it
  fills, and the entry's document as \<open>open_document\<close> sees it.
\<close>

section \<open>The stamped head\<close>

lemma stamps_serialize:
  assumes "document_wf d"
  shows "patch_fill_serial f (patch_pass_stamp p (serialize_to d @ rest)) =
    serialize_to (d\<lparr>write_serial := ucast p, fill_serial := ucast f\<rparr>) @ rest"
  using assms length_serialize_to[OF assms] length_serialize_to[of "d\<lparr>write_serial := ucast p\<rparr>"]
    put_in_place(2)[OF assms] put_in_place(1)[of "d\<lparr>write_serial := ucast p\<rparr>"]
  by (simp add: patch_fill_serial_def patch_pass_stamp_def kHeaderSize_def)

lemma volume_document_stamped:
  assumes "volume_document key h c d"
  shows "volume_document key h c (d\<lparr>write_serial := w, fill_serial := f\<rparr>)"
proof -
  let ?d = "d\<lparr>write_serial := w, fill_serial := f\<rparr>"
  have "is_valid_and_compatible ?d = is_valid_and_compatible d" "has_volume_shape ?d = has_volume_shape d"
    by (simp_all add: is_valid_and_compatible_def doc_is_valid_def is_version_compatible_def has_volume_shape_def)
  moreover have "verify_checksum ?d (h @ c) = verify_checksum d (h @ c)"
    using assms by (intro verify_checksum_in_place) (simp_all add: volume_document_def canonical_document_def)
  ultimately show ?thesis using assms by (simp add: volume_document_def)
qed

lemma commit_head:
  assumes "key_wf key" and "build_head (commit_builder key header) body \<noteq> []"
  obtains d where "build_head (commit_builder key header) body = serialize_to d @ header"
    "volume_document (digest key) header body d" "132 + length header + length body < 2 ^ 32"
proof -
  let ?b = "commit_builder key header"
  have b: "b_key ?b = digest key" "b_header ?b = header" "b_enable_checksum ?b" "b_total_len ?b = 0"
    "b_type ?b = Type_SingleFrag" "b_frag_offset ?b = 0" "length (b_key ?b) = 32"
    using assms(1) by (simp_all add: commit_builder_def DocumentBuilder_default_def key_wf_def kDigestSize_def)
  have n: "132 + length header + length body < 2 ^ 32"
    using assms(2) b(2) by (auto simp: build_head_def serialize_head_def Let_def kHeaderSize_def split: if_splits)
  obtain d where d: "serialize_head ?b body = serialize_to d @ header" "document_wf d"
    "canonical_document d = canonical_document (builder_document ?b body)" "verify_checksum d (header @ body)"
    using head_serialized[of ?b body] b n by auto
  show ?thesis
    using volume_documentI[of ?b body d] b n d by (intro that[of d]) (simp_all add: build_head_def)
qed

section \<open>The filled slot\<close>

text \<open>The bytes a successful fill puts at the slot's offset.\<close>

definition slot_image :: "WriteSlot \<Rightarrow> Document \<Rightarrow> bytes \<Rightarrow> bytes \<Rightarrow> bytes" where
  "slot_image ws d header body =
     serialize_to (d\<lparr>write_serial := ucast (of_nat (ws_pass ws) :: u64), fill_serial := ucast (ws_fill_serial ws)\<rparr>) @
     header @ body @
     replicate (if ws_fill_end ws \<noteq> 0 then ws_fill_end ws - (ws_write_offset ws + (132 + length header + length body)) else 0) 0"

lemma length_slot_image:
  "document_wf d \<Longrightarrow> length (slot_image ws d header body) = 132 + length header + length body +
    (if ws_fill_end ws \<noteq> 0 then ws_fill_end ws - (ws_write_offset ws + (132 + length header + length body)) else 0)"
  by (simp add: slot_image_def length_serialize_to)

text \<open>The fill is one write of the parts of that image.\<close>

lemma fill_slot_bytes_parts:
  assumes d: "document_wf d"
  obtains parts where "concat parts = slot_image ws d header body" "length parts \<le> kMaxParts"
    "fill_slot_bytes ks ws (serialize_to d @ header) body disk =
      (if ws_fill_end ws \<noteq> 0 then pwritev_parts else pwrite_parts) ks parts (ws_write_offset ws) disk"
proof -
  let ?n = "if ws_fill_end ws \<noteq> 0 then ws_fill_end ws - (ws_write_offset ws + (132 + length header + length body)) else 0"
  define c where "c = (length body \<le> kCoalesceMaxBytes)"
  define hd' where "hd' = patch_fill_serial (ws_fill_serial ws) (patch_pass_stamp (of_nat (ws_pass ws))
    (if c then (serialize_to d @ header) @ body else serialize_to d @ header))"
  define tl' where "tl' = (if c then [] else body)"
  have parts: "hd' @ tl' @ replicate ?n 0 = slot_image ws d header body"
    using stamps_serialize[OF d] by (simp add: hd'_def tl'_def slot_image_def)
  have l: "length (serialize_to d @ header) + length body = 132 + length header + length body"
    using length_serialize_to[OF d] by simp
  have w: "fill_slot_bytes ks ws (serialize_to d @ header) body disk =
      (if ws_fill_end ws \<noteq> 0 then pwritev_parts ks [hd', tl', replicate ?n 0] (ws_write_offset ws) disk
       else pwrite_parts ks [hd', tl'] (ws_write_offset ws) disk)"
    unfolding fill_slot_bytes_def Let_def l c_def[symmetric] hd'_def tl'_def by simp
  show thesis
    by (rule that[of "if ws_fill_end ws \<noteq> 0 then [hd', tl', replicate ?n 0] else [hd', tl']"])
      (use w parts in \<open>simp_all add: kMaxParts_def split: if_splits\<close>)
qed

lemma fill_slot_bytes_image:
  assumes d: "document_wf d" and r: "fill_slot_bytes ks ws (serialize_to d @ header) body disk = Some (ok, ks', disk')"
    and len: "ws_write_offset ws + length (slot_image ws d header body) \<le> length disk"
  shows "filled ok (slot_image ws d header body) (ws_write_offset ws) disk disk'"
proof -
  obtain parts where "concat parts = slot_image ws d header body"
    "fill_slot_bytes ks ws (serialize_to d @ header) body disk =
      (if ws_fill_end ws \<noteq> 0 then pwritev_parts else pwrite_parts) ks parts (ws_write_offset ws) disk"
    using fill_slot_bytes_parts[OF d] .
  then show ?thesis
    using r len pwrite_parts_filled[of ks parts "ws_write_offset ws" disk ok ks' disk']
      pwritev_parts_filled[of ks parts "ws_write_offset ws" disk ok ks' disk'] by (cases "ws_fill_end ws = 0") simp_all
qed

lemma fill_slot_bytes_returns:
  assumes d: "document_wf d" and ks: "no_failure ks" "length (slot_image ws d header body) \<le> writes ks"
  obtains ks' disk' where "fill_slot_bytes ks ws (serialize_to d @ header) body disk = Some (True, ks', disk')"
proof -
  obtain parts where "concat parts = slot_image ws d header body" "length parts \<le> kMaxParts"
    "fill_slot_bytes ks ws (serialize_to d @ header) body disk =
      (if ws_fill_end ws \<noteq> 0 then pwritev_parts else pwrite_parts) ks parts (ws_write_offset ws) disk"
    using fill_slot_bytes_parts[OF d] .
  then have "\<exists>ks' disk'. fill_slot_bytes ks ws (serialize_to d @ header) body disk = Some (True, ks', disk')"
    using ks pwrite_parts_returns[of ks parts "ws_write_offset ws" disk]
      pwritev_parts_returns[of ks parts "ws_write_offset ws" disk] by (cases "ws_fill_end ws = 0") simp_all
  then show thesis using that by blast
qed

section \<open>Opening a document\<close>

lemma deserialize_take: "132 \<le> n \<Longrightarrow> 132 \<le> length data \<Longrightarrow> deserialize (take n data) = deserialize data"
proof -
  assume n: "132 \<le> n" "132 \<le> length data"
  have "deserialize data = deserialize (take 132 data)"
    using deserialize_serialize[OF document_wf_deserialize[of data], of "[]"] serialize_deserialize[OF n(2)] by simp
  moreover have "deserialize (take n data) = deserialize (take 132 (take n data))"
    using deserialize_serialize[OF document_wf_deserialize[of "take n data"], of "[]"] serialize_deserialize[of "take n data"] n by simp
  ultimately show ?thesis using n by (simp add: min_absorb1)
qed

lemma mapped_reader_header:
  assumes "132 \<le> n" and "132 \<le> length data"
  shows "r_valid (mapped_document_reader a (take n data)) = r_valid (mapped_document_reader a data)"
    "r_doc (mapped_document_reader a (take n data)) = r_doc (mapped_document_reader a data)"
  using assms deserialize_take[OF assms] by (simp_all add: mapped_document_reader_def document_reader_def kHeaderSize_def Let_def)

lemma map_region_some:
  "map_region disk off n = Some data \<longleftrightarrow> off + n \<le> length disk \<and> data = subspan off n disk"
  by (auto simp: map_region_def)

lemma map_region_none: "map_region disk off n = None \<longleftrightarrow> length disk < off + n"
  by (auto simp: map_region_def)

text \<open>What an opened document says in its header, its first 132 bytes say.\<close>

lemma open_document_header:
  assumes "open_document sz off n disk = Some r" and "132 \<le> n"
  obtains h where "map_region disk off 132 = Some h" "r_valid (mapped_document_reader off h)"
    "r_doc (mapped_document_reader off h) = r_doc r" "r_valid r"
proof -
  obtain m where m: "132 \<le> m" "off + m \<le> length disk" "r = mapped_document_reader off (subspan off m disk)" "r_valid r"
  proof -
    let ?r = "mapped_document_reader off (subspan off n disk)"
    have o: "off + n \<le> length disk" "r_valid ?r"
      using assms(1) by (auto simp: open_document_def map_region_some Let_def split: option.splits if_splits)
    show ?thesis
    proof (cases "unat (len (r_doc ?r)) > n")
      case True
      then show ?thesis
        using assms o by (intro that[of "unat (len (r_doc ?r))"])
          (auto simp: open_document_def map_region_some Let_def split: option.splits if_splits)
    next
      case False
      then show ?thesis
        using assms o by (intro that[of n]) (auto simp: open_document_def map_region_some Let_def split: option.splits if_splits)
    qed
  qed
  have "subspan off 132 disk = take 132 (subspan off m disk)" using m(1) by (simp add: subspan_def min_absorb1)
  then show ?thesis
    using m mapped_reader_header[of 132 "subspan off m disk" off] by (intro that[of "subspan off 132 disk"]) (auto simp: map_region_some)
qed

lemma reader_of_image:
  assumes "volume_document key h c d" and "a mod 8 = 0" and "r = mapped_document_reader a (serialize_to d @ h @ c @ rest)"
  shows "r_valid r" "r_doc r = d" "reader_header r = h" "reader_content r = c" "reader_payload r = h @ c" "is_servable r"
    "reader_first_key r = key" "verify_checksum (r_doc r) (reader_payload r)"
proof -
  have r: "r = document_reader (serialize_to d @ h @ c @ rest)" using assms(2,3) by (simp add: mapped_document_reader_def)
  note v = assms(1)[unfolded volume_document_def]
  note p = reader_parts[OF _ _ _ _ r]
  show "r_valid r" "r_doc r = d" "reader_header r = h" "reader_content r = c" "reader_payload r = h @ c" "is_servable r"
    "reader_first_key r = key" "verify_checksum (r_doc r) (reader_payload r)"
    using v p by (simp_all add: is_servable_def reader_first_key_def)
qed

text \<open>A document in the file opens with any map size of at least its header that stays in the file.\<close>

lemma open_document_image:
  assumes v: "volume_document key h c d" and a: "off mod 8 = 0"
    and disk: "subspan off (132 + length h + length c) disk = serialize_to d @ h @ c"
    and n: "132 \<le> n" "off + n \<le> length disk" "off + (132 + length h + length c) \<le> length disk"
    and sz: "132 + length h + length c \<le> sz"
  obtains r where "open_document sz off n disk = Some r" "r_doc r = d" "reader_header r = h" "reader_content r = c"
    "is_servable r" "reader_first_key r = key" "verify_checksum (r_doc r) (reader_payload r)"
proof -
  let ?L = "132 + length h + length c"
  have l: "unat (len d) = ?L" using v by (simp add: volume_document_def)
  have whole: "subspan off m disk = serialize_to d @ h @ c @ take (m - ?L) (drop (off + ?L) disk)" if "?L \<le> m" for m
    using that disk take_add[of ?L "m - ?L" "drop off disk"] by (simp add: subspan_def add.commute add.left_commute)
  show ?thesis
  proof (cases "?L \<le> n")
    case True
    note r = reader_of_image[OF v a arg_cong[OF whole[OF True], of "mapped_document_reader off"]]
    show ?thesis
      by (rule that[of "mapped_document_reader off (subspan off n disk)"])
        (use r n True l in \<open>simp_all add: open_document_def map_region_def Let_def\<close>)
  next
    case False
    note r = reader_of_image[OF v a arg_cong[OF whole[OF order.refl], of "mapped_document_reader off"]]
    have t: "subspan off n disk = take n (subspan off ?L disk)" using False by (simp add: subspan_def min_absorb1)
    have L: "132 \<le> length (subspan off ?L disk)" using n(3) by simp
    note h = mapped_reader_header[OF n(1) L, of off]
    show ?thesis
      by (rule that[of "mapped_document_reader off (subspan off ?L disk)"])
        (use r h t n False l sz in \<open>simp_all add: open_document_def map_region_def Let_def\<close>)
  qed
qed

end
