(* ===== verification/Volume_Publish.thy ===== *)
theory Volume_Publish
  imports Volume_Image
begin

text \<open>
  The publish step of a commit: the directory's phase follows the pass, the election names every
  entry of the key, and the conditional insert leaves at most one entry that can resolve it.
\<close>

section \<open>The phase of the directory\<close>

definition phase_ok :: "volume \<Rightarrow> bool" where
  "phase_ok v \<longleftrightarrow> s_directory_phase v = odd (pass_now v)"

lemma phase_steps [simp]:
  "s_directory_phase (set_wrap_intent b v) = s_directory_phase v"
  "s_directory_phase (mark_wrap_committed p v) = s_directory_phase v"
  "s_directory_phase (store_exposure_gen g v) = s_directory_phase v"
  "s_directory_phase (publish_wrap_deferred_deadline dl v) = s_directory_phase v"
  "s_directory_phase (end_deferral_episode v) = s_directory_phase v"
  "s_directory_phase (record_wrap now w) = s_directory_phase w"
  "s_directory_phase (set_shared_write_pos x v) = s_directory_phase v"
  "s_directory_phase (force_reset_all v) = s_directory_phase v"
  by (simp_all add: set_wrap_intent_def set_wrap_intent_value_def mark_wrap_committed_def store_exposure_gen_def
      publish_wrap_deferred_deadline_def end_deferral_episode_def record_wrap_def set_shared_write_pos_def force_reset_all_def Let_def)

lemma mmap_steps [simp]:
  "s_use_mmap_directory (set_wrap_intent b v) = s_use_mmap_directory v"
  "s_use_mmap_directory (mark_wrap_committed p v) = s_use_mmap_directory v"
  "s_use_mmap_directory (set_shared_write_pos x v) = s_use_mmap_directory v"
  by (simp_all add: set_wrap_intent_def set_wrap_intent_value_def mark_wrap_committed_def set_shared_write_pos_def)

lemma lease_gate_phase [simp]: "s_directory_phase (fst (lease_gate cfg now lo hi ep v)) = s_directory_phase v"
  by (simp add: lease_gate_def Let_def)

lemma advance_frontier_phase [simp]: "s_directory_phase (fst (advance_frontier cfg now p f t ep v)) = s_directory_phase v"
  by (simp add: advance_frontier_eq Let_def)

lemma retention_wrap_phase: "\<not> s_use_mmap_directory v \<Longrightarrow> s_directory_phase (retention_wrap env L p v) = odd p"
  by (simp add: retention_wrap_def Let_def publish_wrap_phase_def)

lemma retention_prepare_phase:
  assumes "retention_prepare cfg env d L v = (v', Some p)" and "\<not> s_use_mmap_directory v" and "phase_ok v"
  shows "s_directory_phase v' = odd p"
proof -
  obtain va f where w: "prepare_wrap env d L v = (va, p, f)"
    using assms(1) by (auto simp: retention_prepare_def Let_def split: prod.splits if_splits)
  have "s_directory_phase va = odd p"
    using w assms(2,3) retention_wrap_phase[of v env L p]
    by (auto simp: prepare_wrap_def Let_def phase_ok_def pass_now_def split: if_splits)
  moreover have "s_directory_phase (fst (prepare_mandatory cfg env d p f va)) = s_directory_phase va"
    by (simp add: prepare_mandatory_def Let_def)
  moreover have "s_directory_phase (prepare_early cfg env n p g u) = s_directory_phase u" for n g u
    by (simp add: prepare_early_def Let_def)
  ultimately show ?thesis
    using assms(1) w by (auto simp: retention_prepare_def Let_def split: prod.splits if_splits)
qed

lemma flush_wrap_phase:
  assumes R: "flush_wrap cfg env L v = (v', True)" and mm: "\<not> s_use_mmap_directory v"
  shows "phase_ok v'"
proof -
  define r where "r = lease_gate cfg (steady_now_ns (ae_clock env 1)) 0 (s_chunks v) True (set_wrap_intent True v)"
  define p where "p = pass_of (fst r) (exposure_gen (fst r)) + 1"
  define b where "b = (mark_wrap_committed p (fst r))\<lparr>s_write_pos := s_data_offset (mark_wrap_committed p (fst r))\<rparr>"
  define e where "e = publish_wrap_phase p (if L \<and> ae_revalidate env 1 then set_shared_write_pos (s_data_offset b) b else b)"
  have v': "v' = set_wrap_intent False (record_wrap (steady_now_ns (ae_clock env 2))
      (store_exposure_gen (p * (s_chunks e + 1) + s_chunks e) e))"
    using R by (auto simp: flush_wrap_eq Let_def r_def p_def b_def e_def split: if_splits)
  have gr: "geom (fst r) = geom v" by (simp add: r_def gate_after_intent_geom)
  have ce: "calm (fst r) e" by (simp add: e_def b_def calm_def frame)
  have cv: "calm e v'" by (simp add: v' calm_def frame)
  have "pass_now v' = p"
    using pass_frontier(1)[of v' p "s_chunks e"] geomD(4)[OF calm_geom[OF cv]] by (simp add: v' frame)
  moreover have "s_directory_phase v' = odd p"
    using mm geomD(7)[OF gr] by (simp add: v' e_def b_def publish_wrap_phase_def)
  ultimately show ?thesis by (simp add: phase_ok_def)
qed

lemma allocate_phase:
  assumes inv: "volume_inv v" and mm: "\<not> s_use_mmap_directory v" and n: "n + 7 < 2 ^ 64" and ph: "phase_ok v"
    and R: "allocate_write_slot cfg env n v = (v', Inr ws)"
  shows "phase_ok v'"
proof -
  have wf: "geometry_wf v" "cursor_wf v" "intent_value v = 0" using inv by (simp_all add: volume_inv_def)
  obtain x rp where M: "make_room cfg env (round_up8 n) False v = (x, True, rp)" and v': "v' = end_deferral_episode x"
    and d: "\<not> round_up8 n > sub64 (s_offset v + s_size v) (s_data_offset v)"
    using R mm unfolding allocate_write_slot_def Let_def round_up8_code[OF n] by (auto split: prod.splits if_splits)
  have d': "round_up8 n \<le> s_offset v + s_size v - s_data_offset v"
    using d wf(1) sub64_le[of "s_data_offset v" "s_offset v + s_size v"] by (simp add: geometry_wf_def)
  have w: "s_data_offset v \<le> s_write_pos v" "s_write_pos v \<le> s_offset v + s_size v"
    using wf(2) mm by (simp_all add: cursor_wf_def current_write_cursor_def)
  have "phase_ok x"
  proof (cases "s_retain v")
    case True
    then obtain p where p: "retention_prepare cfg env (round_up8 n) False v = (x, Some p)"
      using M by (auto simp: make_room_def Let_def split: prod.splits)
    show ?thesis
      using retention_prepare_phase[OF p mm ph] retention_prepare_some(2)[OF wf(1) w d' True p] by (simp add: phase_ok_def)
  next
    case False
    then show ?thesis
      using M ph flush_wrap_phase[OF _ mm] by (auto simp: make_room_def Let_def split: prod.splits if_splits)
  qed
  moreover have "pass_now v' = pass_now x" using geomD(4)[OF end_deferral_frame(1)] by (simp add: v' pass_now_def frame)
  ultimately show ?thesis by (simp add: phase_ok_def v')
qed

section \<open>The election\<close>

text \<open>The document at a relative offset carries the key.\<close>

definition names_key :: "'z stripe_scheme \<Rightarrow> bytes \<Rightarrow> CacheKey \<Rightarrow> u64 \<Rightarrow> bool" where
  "names_key s disk key off \<longleftrightarrow>
     (case map_region disk (s_offset s + unat off) kHeaderSize of
        None \<Rightarrow> False
      | Some h \<Rightarrow> let r = mapped_document_reader (s_offset s + unat off) h in r_valid r \<and> reader_first_key r = digest key)"

abbreviation offsets :: "(DirEntry \<times> AdmitClass) list \<Rightarrow> u64 set" where
  "offsets es \<equiv> (\<lambda>(e, cls). e_offset e) ` set es"

lemma e_offset_not_sentinel [simp]: "e_offset e \<noteq> kNoVerifiedEntry" "e_offset e \<noteq> kMatchAnyTag"
proof -
  have "\<not> bit (e_offset e) 63" by (simp add: bit_e_offset)
  moreover have "bit kNoVerifiedEntry 63" "bit kMatchAnyTag 63"
    by (simp_all add: kNoVerifiedEntry_def kMatchAnyTag_def)
  ultimately show "e_offset e \<noteq> kNoVerifiedEntry" "e_offset e \<noteq> kMatchAnyTag" by auto
qed

definition elect_inv :: "(u64 \<Rightarrow> bool) \<Rightarrow> (DirEntry \<times> AdmitClass) list \<Rightarrow> election \<Rightarrow> bool" where
  "elect_inv N es el \<longleftrightarrow>
     set (el_seen el) = offsets es \<and> distinct (el_seen el) \<and> set (el_clear el) \<subseteq> offsets es \<and> distinct (el_clear el) \<and>
     (el_verified el = kNoVerifiedEntry \<or> el_verified el \<in> offsets es) \<and>
     (\<forall>off \<in> offsets es. N off \<longrightarrow> off = el_verified el \<or> off \<in> set (el_clear el))"

lemma add_offset_room:
  assumes "distinct xs" and "set xs \<subseteq> offsets es" and "length es < 4"
  shows "set (add_offset off xs) = insert off (set xs)" "distinct (add_offset off xs)"
proof -
  have "length xs = card (set xs)" using assms(1) by (simp add: distinct_card)
  also have "\<dots> \<le> card (offsets es)" using assms(2) by (intro card_mono) auto
  also have "\<dots> \<le> length es" by (metis card_image_le card_length finite_set le_trans)
  finally have "length xs < kEntriesPerBucket" using assms(3) by (simp add: kEntriesPerBucket_def)
  then show "set (add_offset off xs) = insert off (set xs)" "distinct (add_offset off xs)"
    using assms(1) by (auto simp: add_offset_def)
qed

lemma elect_step_cases:
  fixes s disk snap key e cls el
  defines "el1 \<equiv> el\<lparr>el_seen := add_offset (e_offset e) (el_seen el)\<rparr>"
  obtains "elect_step s disk snap key (e, cls) el = el1" "names_key s disk key (e_offset e) \<longrightarrow> e_offset e = el_verified el"
  | "elect_step s disk snap key (e, cls) el = add_clear (e_offset e) el1"
  | "elect_step s disk snap key (e, cls) el = elect_verified (e_offset e) cls el1"
proof -
  have v: "el_verified el1 = el_verified el" by (simp add: el1_def)
  show thesis
  proof (cases "e_offset e = el_verified el")
    case True
    then show thesis using that(1) by (simp add: elect_step_def Let_def el1_def)
  next
    case False
    show thesis
    proof (cases "map_region disk (s_offset s + unat (e_offset e)) kHeaderSize")
      case None
      then show thesis using that(1) False by (simp add: elect_step_def Let_def el1_def names_key_def)
    next
      case (Some h)
      let ?r = "mapped_document_reader (s_offset s + unat (e_offset e)) h"
      let ?ok = "stamp_admits s snap cls (write_serial (r_doc ?r)) \<and> entry_binds e (r_doc ?r)"
      have st: "elect_step s disk snap key (e, cls) el =
          (if \<not> r_valid ?r then (if in_data_area s (unat (e_offset e)) then add_clear (e_offset e) el1 else el1)
           else if \<not> ?ok then add_clear (e_offset e) el1
           else if reader_first_key ?r \<noteq> digest key then el1 else elect_verified (e_offset e) cls el1)"
        using Some False by (simp add: elect_step_def Let_def el1_def)
      have "names_key s disk key (e_offset e) \<longleftrightarrow> r_valid ?r \<and> reader_first_key ?r = digest key"
        using Some by (simp add: names_key_def Let_def)
      then show thesis using st that by (auto split: if_splits)
    qed
  qed
qed

text \<open>What one step may do to the verified offset and the offsets to clear.\<close>

lemma elect_step_fields:
  fixes s disk snap key e cls el
  defines "el' \<equiv> elect_step s disk snap key (e, cls) el" and "off \<equiv> e_offset e"
  shows "el_seen el' = add_offset off (el_seen el)"
    "el_verified el' = el_verified el \<and> el_clear el' = el_clear el \<and> (names_key s disk key off \<longrightarrow> off = el_verified el) \<or>
     el_verified el' = el_verified el \<and> el_clear el' = add_offset off (el_clear el) \<or>
     el_verified el' = off \<and> el_clear el' = el_clear el \<and> el_verified el = kNoVerifiedEntry \<or>
     el_verified el' = off \<and> el_clear el' = add_offset (el_verified el) (el_clear el) \<and> el_verified el \<noteq> kNoVerifiedEntry"
  unfolding el'_def off_def
  by (rule elect_step_cases[of s disk snap key e cls el]; simp add: add_clear_def elect_verified_def)+

lemma elect_step_inv:
  assumes inv: "elect_inv (names_key s disk key) es el" and len: "length es < 4"
  shows "elect_inv (names_key s disk key) (es @ [(e, cls)]) (elect_step s disk snap key (e, cls) el)"
proof -
  let ?el = "elect_step s disk snap key (e, cls) el" and ?o = "e_offset e"
  define S where "S = offsets es"
  have i: "set (el_seen el) = S" "distinct (el_seen el)" "set (el_clear el) \<subseteq> S" "distinct (el_clear el)"
    "el_verified el = kNoVerifiedEntry \<or> el_verified el \<in> S"
    and cover: "\<And>o'. o' \<in> S \<Longrightarrow> names_key s disk key o' \<Longrightarrow> o' = el_verified el \<or> o' \<in> set (el_clear el)"
    using inv unfolding elect_inv_def S_def[symmetric] by blast+
  have nk: "kNoVerifiedEntry \<notin> S" by (auto simp: S_def image_iff case_prod_beta dest: sym)
  have off: "offsets (es @ [(e, cls)]) = insert ?o S" by (simp add: S_def)
  have seen: "set (el_seen ?el) = insert ?o S" "distinct (el_seen ?el)"
    using add_offset_room[of "el_seen el" es ?o] i[unfolded S_def] len by (simp_all add: elect_step_fields(1) S_def)
  have cl: "set (add_offset o' (el_clear el)) = insert o' (set (el_clear el))" "distinct (add_offset o' (el_clear el))" for o'
    using add_offset_room[of "el_clear el" es o'] i[unfolded S_def] len by simp_all
  consider (keep) "el_verified ?el = el_verified el" "el_clear ?el = el_clear el" "names_key s disk key ?o \<longrightarrow> ?o = el_verified el"
    | (clear) "el_verified ?el = el_verified el" "el_clear ?el = add_offset ?o (el_clear el)"
    | (elected) "el_verified ?el = ?o" "el_clear ?el = el_clear el" "el_verified el = kNoVerifiedEntry"
    | (moved) "el_verified ?el = ?o" "el_clear ?el = add_offset (el_verified el) (el_clear el)" "el_verified el \<in> S"
    using elect_step_fields(2)[of s disk snap key e cls el] i(5) by blast
  then show ?thesis
  proof cases
    case keep
    then show ?thesis unfolding elect_inv_def off keep using seen i cover by blast
  next
    case clear
    show ?thesis unfolding elect_inv_def off clear cl(1)
      by (intro conjI ballI impI) (use seen i(3,5) cover cl(2) in auto)
  next
    case elected
    show ?thesis unfolding elect_inv_def off elected(1,2)
      by (intro conjI ballI impI) (use seen i(3,4) cover nk elected(3) in auto)
  next
    case moved
    show ?thesis unfolding elect_inv_def off moved(1,2) cl(1)
      by (intro conjI ballI impI) (use seen i(3) cover moved(3) cl(2) in auto)
  qed
qed

lemma elect_inv_fold:
  "length es \<le> 4 \<Longrightarrow> elect_inv (names_key s disk key) es (fold (elect_step s disk snap key) es election_start)"
proof (induction es rule: rev_induct)
  case Nil
  then show ?case by (simp add: elect_inv_def election_start_def)
next
  case (snoc x es)
  then show ?case using elect_step_inv[of s disk key es _ "fst x" "snd x" snap] by simp
qed

lemma elect_inv_elect:
  assumes "dir_wf (dir_of i v)"
  shows "elect_inv (names_key (core i v) (vol_disk v) key) (writer_probe key (snapshot (core i v)) i v) (elect key i v)"
proof -
  have "length (writer_probe key (snapshot (core i v)) i v) \<le> length (probe_all_phases key (dir_of i v))"
    using length_filter_le by (fastforce simp: writer_probe_def)
  also have "\<dots> \<le> length (bucket_at (bucket_idx key (dir_of i v)) (dir_of i v))"
    by (simp add: probe_all_phases_def scan_entries_def)
  also have "\<dots> = 4" using assms bucket_idx_less[OF assms] by simp
  finally show ?thesis unfolding elect_def Let_def by (rule elect_inv_fold)
qed

section \<open>One entry per offset, one entry per key\<close>

text \<open>No two occupied entries of a bucket have the same tag and offset.\<close>

definition bucket_unique :: "DirEntry list \<Rightarrow> bool" where
  "bucket_unique b \<longleftrightarrow>
     (\<forall>i < length b. \<forall>j < length b. \<not> is_empty (b ! i) \<and> \<not> is_empty (b ! j) \<and> e_tag (b ! i) = e_tag (b ! j) \<and>
        e_offset (b ! i) = e_offset (b ! j) \<longrightarrow> i = j)"

lemma view_scan_known:
  "view_scan tag voff cls seen off b found \<Longrightarrow> e \<in> set b \<Longrightarrow> \<not> is_empty e \<Longrightarrow> e_tag e = tag \<Longrightarrow>
   e_offset e = voff \<or> e_offset e = off \<or> cls (e_offset e) (e_phase e) = kReject \<or> e_offset e \<in> set seen"
  by (induction tag voff cls seen off b found rule: view_scan.induct) (auto split: if_splits simp: list_ex_iff)

text \<open>
  The publish leaves no second entry that resolves the key: N holds of the offsets whose document
  carries it, and the caller's election has named each of those it saw.
\<close>

lemma insert_leaves_one:
  assumes wf: "dir_wf d" and u: "bucket_unique (bucket_at (bucket_idx key d) d)" and off: "off \<noteq> 0" "off < 2 ^ 40"
    and voff: "voff \<noteq> kMatchAnyTag"
    and r: "insert_admitted key off sz voff cls clr (Some seen) serial d = (res, d')" and ins: "inserted res"
    and named: "\<And>o'. o' \<in> set seen \<Longrightarrow> N o' \<Longrightarrow> o' = voff \<or> o' \<in> set clr"
  obtains s e where "s < 4" "bucket_at (bucket_idx key d) d' ! s = e" "new_entry_ok key off serial (dir_phase d) e"
    "\<exists>e0. e = updated_entry off sz serial (dir_phase d) e0 \<or> e = retagged_entry off sz serial (key_tag key) (dir_phase d) e0"
    "dir_wf d'" "\<And>j. j < num_buckets d \<Longrightarrow> bucket_unique (bucket_at j d) \<Longrightarrow> bucket_unique (bucket_at j d')" "num_buckets d' = num_buckets d"
    "\<And>x i. i < 4 \<Longrightarrow> i \<noteq> s \<Longrightarrow> x = bucket_at (bucket_idx key d) d' ! i \<Longrightarrow> \<not> is_empty x \<Longrightarrow> e_tag x = key_tag key \<Longrightarrow>
       cls (e_offset x) (e_phase x) \<noteq> kReject \<Longrightarrow> \<not> N (e_offset x)"
proof -
  let ?i = "bucket_idx key d" and ?tag = "key_tag key"
  let ?b = "bucket_at ?i d"
  have idx: "?i < num_buckets d" using bucket_idx_less[OF wf] .
  have len: "length ?b = 4" using wf idx by simp
  have t: "take_bit 40 off = off" using off(2) by (simp add: take_bit_eq_mod mod_word_less)
  have nz: "take_bit 40 off \<noteq> 0" using t off(1) by simp
  show thesis
  proof (rule insert_admitted_cases[OF wf nz r refl], goal_cases)
    case 1
    then show thesis using ins by simp
  next
    case (2 s e b')
    note ok = 2
    have b': "bucket_at ?i d' = b'"
      using bracket_bucket[OF wf idx ok(5) idx] ok(8) by (simp add: bucket_at_def)
    have e: "e_offset e = off" "e_tag e = ?tag" using ok(4) t by (simp_all add: new_entry_ok_def)
    have other: "b' ! j = ?b ! j \<and> (e_tag (?b ! j) = ?tag \<longrightarrow> e_offset (?b ! j) \<noteq> off \<and> e_offset (?b ! j) \<notin> set clr)"
      if "j < 4" "j \<noteq> s" "\<not> is_empty (b' ! j)" for j
      using ok(7)[OF that(1,2)] that(2,3) by (auto simp: is_duplicate_def list_ex_iff split: if_splits)
    have uniq: "bucket_unique b'"
    proof -
      have "j = k" if jk: "j < 4" "k < 4" "\<not> is_empty (b' ! j)" "\<not> is_empty (b' ! k)" "e_tag (b' ! j) = e_tag (b' ! k)"
        "e_offset (b' ! j) = e_offset (b' ! k)" for j k
        using other[OF jk(1) _ jk(3)] other[OF jk(2) _ jk(4)] jk u ok(6) e len unfolding bucket_unique_def by metis
      then show ?thesis unfolding bucket_unique_def ok(5) by (intro allI impI, elim conjE)
    qed
    have one: "\<not> N (e_offset (b' ! j))" if j: "j < 4" "j \<noteq> s" "\<not> is_empty (b' ! j)" "e_tag (b' ! j) = ?tag"
        "cls (e_offset (b' ! j)) (e_phase (b' ! j)) \<noteq> kReject" for j
    proof
      assume N: "N (e_offset (b' ! j))"
      note o = other[OF j(1-3)]
      have "e_offset (?b ! j) = voff \<or> e_offset (?b ! j) \<in> set seen"
        using view_scan_known[of ?tag voff cls seen off ?b _ "?b ! j"] ok(10) o j len
        by (auto simp: publish_view_is_current_def)
      then have v: "e_offset (?b ! j) = voff" using named N o j(4) by metis
      have kj: "kind cls ?tag voff off (?b ! j) = KVerified"
        using v voff o j by (simp add: kind_def is_verified_def)
      then have "rank (kind cls ?tag voff off (?b ! s)) = 0"
        using ok(9) j(1) unfolding best_slot_def by (metis le_zero_eq rank.simps(1))
      then have "kind cls ?tag voff off (?b ! s) = KVerified" by (cases "kind cls ?tag voff off (?b ! s)") simp_all
      then have "\<not> is_empty (?b ! s)" "e_tag (?b ! s) = ?tag" "e_offset (?b ! s) = voff"
        using voff by (auto simp: kind_def is_verified_def split: if_splits)
      then show False using u ok(3) j o v len unfolding bucket_unique_def by metis
    qed
    have "dir_wf d'" using insert_admitted_wf[OF wf, of off key sz voff cls clr "Some seen" serial] r off t by simp
    moreover have "num_buckets d' = num_buckets d" using ok(8) by (simp add: bracket_def begin_bucket_write_def end_bucket_write_def store_bucket_def)
    moreover have "bucket_unique (bucket_at j d')" if "j < num_buckets d" "bucket_unique (bucket_at j d)" for j
      using bracket_bucket[OF wf idx ok(5) that(1)] ok(8) uniq b' that(2) by (cases "j = ?i") (auto simp: bucket_at_def)
    ultimately show thesis
      using ok(3,4,6) ok(11) one by (intro that[of s e]) (auto simp: b')
  qed
qed

end
