(* ===== verification/Ram_Lru.thy ===== *)
theory Ram_Lru
  imports Ram_Cache
begin

text \<open>
  The LRU cache: class \<^verbatim>\<open>RamCacheLRU\<close> of \<^verbatim>\<open>src/src/ram_cache/lru.cpp\<close>.  Every method body but get
  runs under the exclusive lock, so it is one step.  A get has two windows: the lookup under the
  shared lock, and the recency refresh, which runs only if the lock happens to be free and uses
  the iterator saved in the first window as long as the generation shows that no node died.
  \<open>lru_sys\<close> interleaves the windows of any number of gets with all other operations.
\<close>

section \<open>Model\<close>

record lru_entry =
  le_key :: RamCacheKey
  le_data :: bytes
  le_stamp :: u32

record RamCacheLRU =
  lru_max_bytes :: nat
  lru_bytes_used :: nat
  lru_list :: "addr list"
  lru_node :: "addr \<rightharpoonup> lru_entry"
  lru_entries :: "(RamCacheKey \<times> addr) list"
  lru_hits :: nat
  lru_misses :: nat
  lru_evictions :: nat
  lru_generation :: u64

definition make_lru :: "nat \<Rightarrow> RamCacheLRU" where
  "make_lru n = \<lparr>lru_max_bytes = n, lru_bytes_used = 0, lru_list = [], lru_node = Map.empty,
     lru_entries = [], lru_hits = 0, lru_misses = 0, lru_evictions = 0, lru_generation = 0\<rparr>"

text \<open>The shared window of get: the answer, and the saved iterator and generation if the entry is not at the front.\<close>

definition lru_get_shared ::
  "RamCacheKey \<Rightarrow> RamCacheLRU \<Rightarrow> ((bytes \<times> u32) option \<times> (addr \<times> u64) option \<times> RamCacheLRU) option" where
  "lru_get_shared rk s =
     (case map_of (lru_entries s) rk of
        None \<Rightarrow> Some (None, None, s\<lparr>lru_misses := lru_misses s + 1\<rparr>)
      | Some it \<Rightarrow>
          do { e \<leftarrow> lru_node s it;
               let s = s\<lparr>lru_hits := lru_hits s + 1\<rparr>;
               Some (Some (le_data e, le_stamp e),
                     (if is_front it (lru_list s) then None else Some (it, lru_generation s)), s) })"

definition lru_get_refresh :: "RamCacheKey \<Rightarrow> bool \<Rightarrow> addr \<times> u64 \<Rightarrow> RamCacheLRU \<Rightarrow> RamCacheLRU option" where
  "lru_get_refresh rk try_lock saved s =
     (if \<not> try_lock then Some s
      else if lru_generation s = snd saved
      then do { l \<leftarrow> splice_front (fst saved) (lru_list s); Some (s\<lparr>lru_list := l\<rparr>) }
      else (case map_of (lru_entries s) rk of
              None \<Rightarrow> Some s
            | Some it \<Rightarrow>
                if is_front it (lru_list s) then Some s
                else do { l \<leftarrow> splice_front it (lru_list s); Some (s\<lparr>lru_list := l\<rparr>) }))"

definition lru_get :: "RamCacheKey \<Rightarrow> bool \<Rightarrow> RamCacheLRU \<Rightarrow> ((bytes \<times> u32) option \<times> RamCacheLRU) option" where
  "lru_get rk try_lock s =
     do { (r, saved, s) \<leftarrow> lru_get_shared rk s;
          s \<leftarrow> (case saved of None \<Rightarrow> Some s | Some it \<Rightarrow> lru_get_refresh rk try_lock it s);
          Some (r, s) }"

text \<open>One turn of the eviction loop, and the loop.\<close>

definition lru_evict_one :: "RamCacheLRU \<Rightarrow> RamCacheLRU option" where
  "lru_evict_one s =
     do { let victim = last (lru_list s);
          e \<leftarrow> lru_node s victim;
          Some (s\<lparr>lru_bytes_used := lru_bytes_used s - length (le_data e),
                  lru_entries := AList.delete (le_key e) (lru_entries s),
                  lru_list := butlast (lru_list s),
                  lru_node := (lru_node s)(victim := None),
                  lru_generation := lru_generation s + 1,
                  lru_evictions := lru_evictions s + 1\<rparr>) }"

lemma lru_evict_one_shrinks: "lru_evict_one s = Some s' \<Longrightarrow> lru_list s' = butlast (lru_list s)"
  by (auto simp: lru_evict_one_def Let_def split: bind_splits)

function lru_evict_if_needed :: "nat \<Rightarrow> RamCacheLRU \<Rightarrow> RamCacheLRU option" where
  "lru_evict_if_needed required_space s =
     (if lru_bytes_used s + required_space > lru_max_bytes s \<and> lru_list s \<noteq> []
      then (case lru_evict_one s of None \<Rightarrow> None | Some s' \<Rightarrow> lru_evict_if_needed required_space s')
      else Some s)"
  by pat_completeness auto
termination
  by (relation "measure (\<lambda>(_, s). length (lru_list s))") (auto simp: lru_evict_one_shrinks)

definition lru_put_if :: "RamCacheKey \<Rightarrow> bytes \<Rightarrow> bool \<Rightarrow> u32 \<Rightarrow> addr \<Rightarrow> RamCacheLRU \<Rightarrow> (bool \<times> RamCacheLRU) option" where
  "lru_put_if rk data predicate stamp new s =
     (if length data > lru_max_bytes s then Some (False, s)
      else if \<not> predicate then Some (False, s)
      else (case map_of (lru_entries s) rk of
          Some it \<Rightarrow>
            do { e \<leftarrow> lru_node s it;
                 let s = s\<lparr>lru_bytes_used := lru_bytes_used s - length (le_data e)\<rparr>;
                 let s = s\<lparr>lru_node := (lru_node s)(it \<mapsto> e\<lparr>le_data := data, le_stamp := stamp\<rparr>)\<rparr>;
                 let s = s\<lparr>lru_bytes_used := lru_bytes_used s + length data\<rparr>;
                 l \<leftarrow> (if is_front it (lru_list s) then Some (lru_list s) else splice_front it (lru_list s));
                 s \<leftarrow> lru_evict_if_needed 0 (s\<lparr>lru_list := l\<rparr>);
                 Some (True, s) }
        | None \<Rightarrow>
            do { s \<leftarrow> lru_evict_if_needed (length data) s;
                 Some (True, s\<lparr>lru_node := (lru_node s)(new \<mapsto> \<lparr>le_key = rk, le_data = data, le_stamp = stamp\<rparr>),
                               lru_list := new # lru_list s,
                               lru_entries := AList.update rk new (lru_entries s),
                               lru_bytes_used := lru_bytes_used s + length data\<rparr>) }))"

text \<open>Destroying the node of one map slot, as remove and remove_all do.\<close>

definition lru_erase :: "RamCacheKey \<Rightarrow> addr \<Rightarrow> RamCacheLRU \<Rightarrow> RamCacheLRU option" where
  "lru_erase rk it s =
     do { e \<leftarrow> lru_node s it;
          l \<leftarrow> unlink it (lru_list s);
          Some (s\<lparr>lru_bytes_used := lru_bytes_used s - length (le_data e),
                  lru_list := l, lru_node := (lru_node s)(it := None),
                  lru_generation := lru_generation s + 1,
                  lru_entries := AList.delete rk (lru_entries s)\<rparr>) }"

definition lru_remove :: "RamCacheKey \<Rightarrow> RamCacheLRU \<Rightarrow> (bool \<times> RamCacheLRU) option" where
  "lru_remove rk s =
     (case map_of (lru_entries s) rk of
        None \<Rightarrow> Some (False, s)
      | Some it \<Rightarrow> do { s \<leftarrow> lru_erase rk it s; Some (True, s) })"

fun lru_remove_scan :: "CacheKey \<Rightarrow> (RamCacheKey \<times> addr) list \<Rightarrow> RamCacheLRU \<Rightarrow> RamCacheLRU option" where
  "lru_remove_scan key [] s = Some s"
| "lru_remove_scan key ((rk, it) # rest) s =
     (if cache_key rk = key then do { s \<leftarrow> lru_erase rk it s; lru_remove_scan key rest s }
      else lru_remove_scan key rest s)"

definition lru_remove_all :: "CacheKey \<Rightarrow> RamCacheLRU \<Rightarrow> RamCacheLRU option" where
  "lru_remove_all key s = lru_remove_scan key (lru_entries s) s"

definition lru_clear :: "RamCacheLRU \<Rightarrow> RamCacheLRU" where
  "lru_clear s = s\<lparr>lru_list := [], lru_node := Map.empty, lru_generation := lru_generation s + 1,
     lru_entries := [], lru_bytes_used := 0\<rparr>"

definition lru_stats :: "RamCacheLRU \<Rightarrow> RamCacheStats" where
  "lru_stats s = \<lparr>st_bytes_used = lru_bytes_used s, st_max_bytes = lru_max_bytes s,
     st_entry_count = length (lru_entries s), st_hits = lru_hits s, st_misses = lru_misses s,
     st_evictions = lru_evictions s\<rparr>"

fun lru_exec :: "ram_op \<Rightarrow> RamCacheLRU \<Rightarrow> (ram_result \<times> RamCacheLRU) option" where
  "lru_exec (OpGet k t) s = map_option (apfst Got) (lru_get k t s)"
| "lru_exec (OpPut k d b st a) s = map_option (apfst Answer) (lru_put_if k d b st a s)"
| "lru_exec (OpRemove k) s = map_option (apfst Answer) (lru_remove k s)"
| "lru_exec (OpRemoveAll c) s = map_option (Pair Done) (lru_remove_all c s)"
| "lru_exec OpClear s = Some (Done, lru_clear s)"

section \<open>Invariant\<close>

definition lru_ok :: "RamCacheLRU \<Rightarrow> bool" where
  "lru_ok s \<longleftrightarrow> linked (lru_list s) (lru_node s) le_key (lru_entries s) \<and>
     lru_bytes_used s = bytes_of (lru_node s) le_data (lru_list s)"

definition lru_inv :: "RamCacheLRU \<Rightarrow> bool" where
  "lru_inv s \<longleftrightarrow> lru_ok s \<and> lru_bytes_used s \<le> lru_max_bytes s"

definition lru_held :: "RamCacheLRU \<Rightarrow> RamCacheKey \<Rightarrow> (bytes \<times> u32) option" where
  "lru_held s = held_of (lru_node s) (lru_entries s) (\<lambda>e. Some (le_data e, le_stamp e))"

definition lru_free :: "RamCacheLRU \<Rightarrow> addr \<Rightarrow> bool" where
  "lru_free s a \<longleftrightarrow> lru_node s a = None"

lemma lru_okD:
  assumes "lru_ok s"
  shows "linked (lru_list s) (lru_node s) le_key (lru_entries s)"
    "lru_bytes_used s = bytes_of (lru_node s) le_data (lru_list s)"
  using assms by (auto simp: lru_ok_def)

lemma lru_entry_node:
  assumes "lru_ok s" "map_of (lru_entries s) k = Some a"
  obtains e where "lru_node s a = Some e" "le_key e = k" "a \<in> set (lru_list s)"
  using linkedD(2,4) [OF lru_okD(1) [OF assms(1)]] assms(2) by blast

lemma lru_make [simp]: "lru_inv (make_lru n)" "lru_held (make_lru n) = Map.empty"
  "lru_max_bytes (make_lru n) = n" "lru_generation (make_lru n) = 0"
  by (simp_all add: lru_inv_def lru_ok_def lru_held_def make_lru_def)

text \<open>Erasing a live node keeps the structure.\<close>

lemma lru_erase_ok:
  assumes ok: "lru_ok s" and a: "lru_node s a = Some e"
  obtains s' where "lru_erase (le_key e) a s = Some s'" "lru_ok s'"
    "lru_held s' = (lru_held s)(le_key e := None)" "lru_max_bytes s' = lru_max_bytes s"
    "lru_bytes_used s' \<le> lru_bytes_used s" "lru_entries s' = AList.delete (le_key e) (lru_entries s)"
    "lru_generation s' = lru_generation s + 1" "lru_node s' = (lru_node s)(a := None)"
    "lru_evictions s' = lru_evictions s"
proof -
  note l = lru_okD [OF ok]
  have in_list: "a \<in> set (lru_list s)" using linkedD(2) [OF l(1)] a by auto
  have "a \<notin> set (remove1 a (lru_list s))" using linkedD(1) [OF l(1)] by simp
  then show ?thesis
    using a in_list l linked_erase [OF l(1) a] held_of_erase [OF l(1) a]
      bytes_of_remove1 [where node = "lru_node s" and data_of = le_data, OF in_list a]
    by (intro that [of "the (lru_erase (le_key e) a s)"]) (simp_all add: lru_erase_def lru_ok_def lru_held_def)
qed

lemma lru_evict_one_ok:
  assumes ok: "lru_ok s" and ne: "lru_list s \<noteq> []"
  obtains e s' where "lru_node s (last (lru_list s)) = Some e" "lru_evict_one s = Some s'" "lru_ok s'"
    "lru_held s' = (lru_held s)(le_key e := None)" "lru_max_bytes s' = lru_max_bytes s"
    "lru_list s' = butlast (lru_list s)" "lru_node s' = (lru_node s)(last (lru_list s) := None)"
    "lru_generation s' = lru_generation s + 1" "lru_evictions s' = lru_evictions s + 1"
    "lru_entries s' = AList.delete (le_key e) (lru_entries s)"
proof -
  note l = lru_okD [OF ok]
  let ?a = "last (lru_list s)"
  obtain e where a: "lru_node s ?a = Some e" using linkedD(6) [OF l(1)] ne by force
  have rem: "remove1 ?a (lru_list s) = butlast (lru_list s)"
    using last_remove1 [OF linkedD(1) [OF l(1)] ne] .
  have "?a \<notin> set (butlast (lru_list s))"
    using linkedD(1) [OF l(1)] by (metis rem distinct_remove1_removeAll set_removeAll Diff_iff insertI1 list.simps(15))
  then show ?thesis
    using a l linked_erase [OF l(1) a] held_of_erase [OF l(1) a] rem
      bytes_of_remove1 [where node = "lru_node s" and data_of = le_data, OF last_in_set [OF ne] a]
    by (intro that [of e "the (lru_evict_one s)"]) (simp_all add: lru_evict_one_def lru_ok_def lru_held_def Let_def)
qed

text \<open>What the eviction loop keeps.\<close>

definition lru_shrunk :: "RamCacheLRU \<Rightarrow> RamCacheLRU \<Rightarrow> bool" where
  "lru_shrunk s s' \<longleftrightarrow>
     lru_ok s' \<and> lru_max_bytes s' = lru_max_bytes s \<and> lru_node s' \<subseteq>\<^sub>m lru_node s \<and>
     lru_held s' \<subseteq>\<^sub>m lru_held s \<and> map_of (lru_entries s') \<subseteq>\<^sub>m map_of (lru_entries s) \<and>
     lru_evictions s \<le> lru_evictions s' \<and>
     lru_generation s' = lru_generation s + of_nat (lru_evictions s' - lru_evictions s) \<and>
     (lru_evictions s' = lru_evictions s \<longrightarrow> s' = s)"

lemma lru_shrunk_refl: "lru_ok s \<Longrightarrow> lru_shrunk s s"
  by (simp add: lru_shrunk_def)

lemma map_le_delete: "m' \<subseteq>\<^sub>m m(k := None) \<Longrightarrow> m' \<subseteq>\<^sub>m m"
  by (metis map_le_imp_upd_le map_le_trans upd_None_map_le)

lemma lru_shrunk_step:
  assumes "lru_evict_one s = Some s1" "lru_ok s" "lru_list s \<noteq> []" "lru_shrunk s1 s'"
  shows "lru_shrunk s s'"
proof -
  obtain e :: lru_entry and s2 where 2: "lru_evict_one s = Some s2" "lru_held s2 = (lru_held s)(le_key e := None)"
    "lru_max_bytes s2 = lru_max_bytes s" "lru_node s2 = (lru_node s)(last (lru_list s) := None)"
    "lru_generation s2 = lru_generation s + 1" "lru_evictions s2 = lru_evictions s + 1"
    "lru_entries s2 = AList.delete (le_key e) (lru_entries s)"
    using lru_evict_one_ok [OF assms(2,3)] by blast
  have [simp]: "s2 = s1" using 2(1) assms(1) by simp
  have "of_nat (lru_evictions s' - lru_evictions s) = (1 :: u64) + of_nat (lru_evictions s' - Suc (lru_evictions s))"
    if "Suc (lru_evictions s) \<le> lru_evictions s'"
    using that by (metis Suc_diff_Suc Suc_le_lessD of_nat_Suc)
  then show ?thesis
    using assms(4) 2 by (auto simp: lru_shrunk_def AList.delete_conv' ac_simps dest: map_le_delete)
qed

lemma lru_evict_ok:
  assumes "lru_ok s"
  shows "\<exists>s'. lru_evict_if_needed req s = Some s' \<and> lru_shrunk s s' \<and>
      (req \<le> lru_max_bytes s \<longrightarrow> lru_bytes_used s' + req \<le> lru_max_bytes s) \<and>
      (\<forall>a e xs. lru_list s = a # xs \<and> lru_node s a = Some e \<and> length (le_data e) + req \<le> lru_max_bytes s
         \<longrightarrow> a \<in> set (lru_list s'))"
  using assms
proof (induction req s rule: lru_evict_if_needed.induct)
  case (1 req s)
  show ?case
  proof (cases "lru_bytes_used s + req > lru_max_bytes s \<and> lru_list s \<noteq> []")
    case False
    then have "lru_list s = [] \<longrightarrow> lru_bytes_used s = 0" using lru_okD [OF 1(2)] by auto
    then show ?thesis using False lru_shrunk_refl [OF 1(2)]
      by (subst lru_evict_if_needed.simps) auto
  next
    case True
    then obtain s1 where s1: "lru_evict_one s = Some s1" "lru_ok s1" "lru_max_bytes s1 = lru_max_bytes s"
      "lru_list s1 = butlast (lru_list s)" "lru_node s1 = (lru_node s)(last (lru_list s) := None)"
      by (auto elim: lru_evict_one_ok [OF 1(2)])
    from 1(1) [OF True s1(1,2)] obtain s' where s': "lru_evict_if_needed req s1 = Some s'" "lru_shrunk s1 s'"
      "req \<le> lru_max_bytes s1 \<longrightarrow> lru_bytes_used s' + req \<le> lru_max_bytes s1"
      "\<forall>a e xs. lru_list s1 = a # xs \<and> lru_node s1 a = Some e \<and> length (le_data e) + req \<le> lru_max_bytes s1
         \<longrightarrow> a \<in> set (lru_list s')"
      by blast
    have keep: "a \<in> set (lru_list s')"
      if "lru_list s = a # xs" "lru_node s a = Some e" "length (le_data e) + req \<le> lru_max_bytes s" for a e xs
    proof -
      have "xs \<noteq> []" using that lru_okD(2) [OF 1(2)] True by auto
      moreover have "a \<notin> set xs" using linkedD(1) [OF lru_okD(1) [OF 1(2)]] that by simp
      ultimately have "last xs \<noteq> a" using last_in_set by metis
      then show ?thesis using that s1 s'(4) \<open>xs \<noteq> []\<close> by auto
    qed
    have "lru_evict_if_needed req s = Some s'"
      using True s1(1) s'(1) by (subst lru_evict_if_needed.simps) simp
    then show ?thesis
      using s' s1(3) keep lru_shrunk_step [OF s1(1) 1(2)] True by auto
  qed
qed

declare lru_evict_if_needed.simps [simp del]

section \<open>The operations\<close>

lemma lru_list_same [simp]: "s\<lparr>lru_list := lru_list s\<rparr> = (s :: RamCacheLRU)"
  by (cases s) simp

lemma is_front_cons: "is_front a xs \<Longrightarrow> a # remove1 a xs = xs"
  by (cases xs) (auto simp: is_front_def)

lemma lru_ok_reorder:
  assumes "lru_ok s" "a \<in> set (lru_list s)"
  shows "lru_ok (s\<lparr>lru_list := a # remove1 a (lru_list s)\<rparr>)"
proof -
  note l = lru_okD [OF assms(1)]
  obtain e where "lru_node s a = Some e" using linkedD(6) [OF l(1) assms(2)] by blast
  then show ?thesis
    using l assms(2) linkedD(1) [OF l(1)] bytes_of_remove1 [where node = "lru_node s" and data_of = le_data, OF assms(2)]
    by (auto simp: lru_ok_def intro!: linked_reorder [OF l(1)])
qed

lemma lru_get_shared_ok:
  assumes ok: "lru_ok s"
  obtains saved s' where "lru_get_shared rk s = Some (lru_held s rk, saved, s')"
    "s' = s\<lparr>lru_hits := lru_hits s'\<rparr>\<lparr>lru_misses := lru_misses s'\<rparr>"
    "\<And>a g. saved = Some (a, g) \<Longrightarrow> g = lru_generation s \<and> map_of (lru_entries s) rk = Some a"
proof (cases "map_of (lru_entries s) rk")
  case None
  then show ?thesis
    by (intro that [of None "s\<lparr>lru_misses := lru_misses s + 1\<rparr>"])
      (simp_all add: lru_get_shared_def lru_held_def held_of_def)
next
  case (Some a)
  then obtain e where "lru_node s a = Some e" using lru_entry_node [OF ok] by metis
  with Some show ?thesis
    by (intro that [of "if is_front a (lru_list s) then None else Some (a, lru_generation s)"
          "s\<lparr>lru_hits := lru_hits s + 1\<rparr>"])
      (auto simp: lru_get_shared_def lru_held_def held_of_def split: if_splits)
qed

lemma lru_get_refresh_ok:
  assumes ok: "lru_ok s"
    and live: "lru_generation s = g \<Longrightarrow> map_of (lru_entries s) rk = Some a"
  obtains l where "lru_get_refresh rk t (a, g) s = Some (s\<lparr>lru_list := l\<rparr>)" "lru_ok (s\<lparr>lru_list := l\<rparr>)"
    "\<And>b. t \<Longrightarrow> map_of (lru_entries s) rk = Some b \<Longrightarrow> is_front b l"
proof (cases "map_of (lru_entries s) rk")
  case None
  then show ?thesis using ok live by (intro that [of "lru_list s"]) (auto simp: lru_get_refresh_def)
next
  case (Some b)
  then have b: "b \<in> set (lru_list s)" by (rule lru_entry_node [OF ok])
  show ?thesis
  proof (cases "\<not> t \<or> lru_generation s \<noteq> g \<and> is_front b (lru_list s)")
    case True
    then show ?thesis using ok Some by (intro that [of "lru_list s"]) (auto simp: lru_get_refresh_def)
  next
    case False
    then show ?thesis
      using Some b live lru_ok_reorder [OF ok b]
      by (intro that [of "b # remove1 b (lru_list s)"]) (auto simp: lru_get_refresh_def is_front_def)
  qed
qed

lemma lru_held_list [simp]: "lru_held (s\<lparr>lru_list := l\<rparr>) = lru_held s"
  "lru_held (s\<lparr>lru_hits := h\<rparr>) = lru_held s" "lru_held (s\<lparr>lru_misses := h\<rparr>) = lru_held s"
  "lru_ok (s\<lparr>lru_hits := h\<rparr>) = lru_ok s" "lru_ok (s\<lparr>lru_misses := h\<rparr>) = lru_ok s"
  by (simp_all add: lru_held_def lru_ok_def)

lemma lru_get_ok:
  assumes "lru_inv s"
  obtains s' where "lru_get rk t s = Some (lru_held s rk, s')" "lru_inv s'" "lru_held s' = lru_held s"
    "lru_max_bytes s' = lru_max_bytes s" "lru_entries s' = lru_entries s" "lru_generation s' = lru_generation s"
proof -
  have ok: "lru_ok s" and le: "lru_bytes_used s \<le> lru_max_bytes s" using assms by (auto simp: lru_inv_def)
  obtain saved s1 where s1: "lru_get_shared rk s = Some (lru_held s rk, saved, s1)"
    "s1 = s\<lparr>lru_hits := lru_hits s1\<rparr>\<lparr>lru_misses := lru_misses s1\<rparr>"
    "\<And>a g. saved = Some (a, g) \<Longrightarrow> g = lru_generation s \<and> map_of (lru_entries s) rk = Some a"
    using lru_get_shared_ok [OF ok] by metis
  have eq: "lru_ok s1" "lru_held s1 = lru_held s" "lru_max_bytes s1 = lru_max_bytes s" "lru_entries s1 = lru_entries s"
    "lru_generation s1 = lru_generation s" "lru_bytes_used s1 = lru_bytes_used s"
    using ok by (subst s1(2), simp)+
  show ?thesis
  proof (cases saved)
    case None
    then show ?thesis using that [of s1] s1(1) eq le by (simp add: lru_get_def lru_inv_def)
  next
    case (Some p)
    obtain a g where p: "p = (a, g)" by force
    obtain l where "lru_get_refresh rk t (a, g) s1 = Some (s1\<lparr>lru_list := l\<rparr>)" "lru_ok (s1\<lparr>lru_list := l\<rparr>)"
      using lru_get_refresh_ok [OF eq(1), of g rk a t] s1(3) Some p eq by metis
    then show ?thesis using that [of "s1\<lparr>lru_list := l\<rparr>"] s1(1) eq le Some p by (simp add: lru_get_def lru_inv_def)
  qed
qed

lemma lru_put_existing:
  assumes inv: "lru_inv s" and k: "map_of (lru_entries s) rk = Some a" and d: "length data \<le> lru_max_bytes s"
  obtains s1 s' where "lru_put_if rk data True stamp new s = Some (True, s')" "lru_shrunk s1 s'"
    "lru_bytes_used s' \<le> lru_max_bytes s" "lru_held s' rk = Some (data, stamp)"
    "lru_held s1 = (lru_held s)(rk \<mapsto> (data, stamp))" "lru_max_bytes s1 = lru_max_bytes s"
    "lru_entries s1 = lru_entries s" "lru_generation s1 = lru_generation s" "lru_evictions s1 = lru_evictions s"
proof -
  have ok: "lru_ok s" using inv by (simp add: lru_inv_def)
  note l = lru_okD [OF ok]
  obtain e where e: "lru_node s a = Some e" "le_key e = rk" and a: "a \<in> set (lru_list s)"
    by (rule lru_entry_node [OF ok k])
  define e' where "e' = e\<lparr>le_data := data, le_stamp := stamp\<rparr>"
  define s1 where "s1 = s\<lparr>lru_node := (lru_node s)(a \<mapsto> e'),
      lru_bytes_used := lru_bytes_used s - length (le_data e) + length data, lru_list := a # remove1 a (lru_list s)\<rparr>"
  have link: "linked (lru_list s1) (lru_node s1) le_key (lru_entries s1)"
    using linked_update [OF l(1) e(1), of e'] linkedD(1) [OF l(1)] a
    by (auto simp: s1_def e'_def intro: linked_reorder)
  have ok1: "lru_ok s1"
    using link l(2) bytes_of_remove1 [where node = "lru_node s" and data_of = le_data, OF a e(1)] linkedD(1) [OF l(1)]
    by (simp add: lru_ok_def s1_def e'_def)
  have held1: "lru_held s1 = (lru_held s)(rk \<mapsto> (data, stamp))"
    using held_of_update [OF l(1) e(1), of e' "\<lambda>e. Some (le_data e, le_stamp e)"] e(2)
    by (simp add: lru_held_def s1_def e'_def)
  obtain s' where s': "lru_evict_if_needed 0 s1 = Some s'" "lru_shrunk s1 s'" "lru_bytes_used s' + 0 \<le> lru_max_bytes s1"
    "a \<in> set (lru_list s')"
    using lru_evict_ok [OF ok1, of 0] d by (auto simp: s1_def e'_def)
  have "lru_node s' a = Some e'"
    using s'(2,4) linkedD(6) [OF lru_okD(1), of s' a] by (auto simp: lru_shrunk_def map_le_def s1_def dom_def)
  then have "lru_held s' rk = Some (data, stamp)"
    using held_of_node [OF lru_okD(1), of s' a e' "\<lambda>e. Some (le_data e, le_stamp e)"] s'(2) e(2)
    by (simp add: lru_held_def lru_shrunk_def e'_def)
  moreover have front: "s\<lparr>lru_node := (lru_node s)(a \<mapsto> e'), lru_bytes_used := lru_bytes_used s - length (le_data e) + length data\<rparr> = s1"
    if "is_front a (lru_list s)"
    using that by (cases s) (simp add: s1_def is_front_cons)
  have "lru_put_if rk data True stamp new s = Some (True, s')"
    using k e d s'(1) a front by (auto simp: lru_put_if_def Let_def s1_def [symmetric] e'_def [symmetric])
  ultimately show ?thesis
    using that [of s' s1] s' held1 by (simp add: s1_def)
qed

lemma lru_put_new:
  assumes inv: "lru_inv s" and k: "map_of (lru_entries s) rk = None" and d: "length data \<le> lru_max_bytes s"
    and new: "lru_node s new = None"
  obtains s1 s' where "lru_put_if rk data True stamp new s = Some (True, s')" "lru_shrunk s s1" "lru_inv s'"
    "lru_held s' = (lru_held s1)(rk \<mapsto> (data, stamp))" "lru_max_bytes s' = lru_max_bytes s"
    "lru_entries s' = AList.update rk new (lru_entries s1)" "lru_generation s' = lru_generation s1"
    "lru_evictions s' = lru_evictions s1"
proof -
  have ok: "lru_ok s" using inv by (simp add: lru_inv_def)
  obtain s1 where s1: "lru_evict_if_needed (length data) s = Some s1" "lru_shrunk s s1"
    "lru_bytes_used s1 + length data \<le> lru_max_bytes s"
    using lru_evict_ok [OF ok, of "length data"] d by blast
  define e where "e = \<lparr>le_key = rk, le_data = data, le_stamp = stamp\<rparr>"
  have ok1: "lru_ok s1" "lru_max_bytes s1 = lru_max_bytes s" using s1(2) by (auto simp: lru_shrunk_def)
  note l = lru_okD [OF ok1(1)]
  have none: "lru_node s1 new = None" "map_of (lru_entries s1) (le_key e) = None"
    using s1(2) new k by (auto simp: lru_shrunk_def map_le_def dom_def e_def)
  have notin: "new \<notin> set (lru_list s1)" using linkedD(2) [OF l(1)] none(1) by auto
  define s' where "s' = s1\<lparr>lru_node := (lru_node s1)(new \<mapsto> e), lru_list := new # lru_list s1,
      lru_entries := AList.update rk new (lru_entries s1), lru_bytes_used := lru_bytes_used s1 + length data\<rparr>"
  have "lru_inv s'"
    using linked_insert [OF l(1) none] l(2) notin s1(3) ok1(2)
    by (simp add: lru_inv_def lru_ok_def s'_def e_def)
  moreover have "lru_held s' = (lru_held s1)(rk \<mapsto> (data, stamp))"
    using held_of_insert [OF l(1) none, of "\<lambda>e. Some (le_data e, le_stamp e)"]
    by (simp add: lru_held_def s'_def e_def)
  moreover have "lru_put_if rk data True stamp new s = Some (True, s')"
    using k d s1(1) by (simp add: lru_put_if_def s'_def e_def)
  ultimately show ?thesis using that [of s' s1] s1(2) ok1(2) by (simp add: s'_def)
qed

text \<open>
  One operation: it never follows a dead iterator, keeps the invariant and the budget, and bumps the
  generation once for each node it destroys (once for a clear).
\<close>

fun lru_bumps :: "ram_op \<Rightarrow> RamCacheLRU \<Rightarrow> RamCacheLRU \<Rightarrow> nat" where
  "lru_bumps (OpGet k t) s s' = 0"
| "lru_bumps (OpPut k d b st a) s s' = lru_evictions s' - lru_evictions s"
| "lru_bumps (OpRemove k) s s' = (if map_of (lru_entries s) k = None then 0 else 1)"
| "lru_bumps (OpRemoveAll c) s s' = length (filter (\<lambda>(k, a). cache_key k = c) (lru_entries s))"
| "lru_bumps OpClear s s' = 1"

definition lru_kept :: "ram_op \<Rightarrow> RamCacheLRU \<Rightarrow> RamCacheLRU \<Rightarrow> bool" where
  "lru_kept p s s' \<longleftrightarrow>
     lru_inv s' \<and> lru_max_bytes s' = lru_max_bytes s \<and>
     lru_generation s' = lru_generation s + of_nat (lru_bumps p s s') \<and>
     (lru_bumps p s s' = 0 \<longrightarrow> map_of (lru_entries s) \<subseteq>\<^sub>m map_of (lru_entries s'))"

lemma lru_put_ok:
  assumes inv: "lru_inv s" and new: "lru_node s new = None"
  obtains r s' where "lru_put_if rk data b stamp new s = Some (r, s')" "lru_kept (OpPut rk data b stamp new) s s'"
    "r \<and> lru_held s' rk = Some (data, stamp) \<and> lru_held s' \<subseteq>\<^sub>m (lru_held s)(rk \<mapsto> (data, stamp)) \<or> \<not> r \<and> s' = s"
proof (cases "length data > lru_max_bytes s \<or> \<not> b")
  case True
  then show ?thesis using that [of False s] inv by (auto simp: lru_put_if_def lru_kept_def)
next
  case False
  then have d: "length data \<le> lru_max_bytes s" "b" by auto
  show ?thesis
  proof (cases "map_of (lru_entries s) rk")
    case None
    obtain s1 s' where s': "lru_put_if rk data True stamp new s = Some (True, s')" "lru_shrunk s s1" "lru_inv s'"
      "lru_held s' = (lru_held s1)(rk \<mapsto> (data, stamp))" "lru_max_bytes s' = lru_max_bytes s"
      "lru_entries s' = AList.update rk new (lru_entries s1)" "lru_generation s' = lru_generation s1"
      "lru_evictions s' = lru_evictions s1"
      by (rule lru_put_new [OF inv None d(1) new])
    moreover have "lru_kept (OpPut rk data b stamp new) s s'"
      using s' None by (auto simp: lru_kept_def lru_shrunk_def AList.update_conv' map_le_def)
    moreover have "lru_held s' \<subseteq>\<^sub>m (lru_held s)(rk \<mapsto> (data, stamp))"
      using s'(2,4) by (auto simp: lru_shrunk_def intro: map_le_upd)
    ultimately show ?thesis using that [of True s'] d(2) by simp
  next
    case (Some a)
    obtain s1 s' where s': "lru_put_if rk data True stamp new s = Some (True, s')" "lru_shrunk s1 s'"
      "lru_bytes_used s' \<le> lru_max_bytes s" "lru_held s' rk = Some (data, stamp)"
      "lru_held s1 = (lru_held s)(rk \<mapsto> (data, stamp))" "lru_max_bytes s1 = lru_max_bytes s"
      "lru_entries s1 = lru_entries s" "lru_generation s1 = lru_generation s" "lru_evictions s1 = lru_evictions s"
      by (rule lru_put_existing [OF inv Some d(1)])
    then show ?thesis using that [of True s'] d(2)
      by (auto simp: lru_kept_def lru_shrunk_def lru_inv_def)
  qed
qed

lemma lru_remove_ok:
  assumes inv: "lru_inv s"
  obtains r s' where "lru_remove rk s = Some (r, s')" "lru_kept (OpRemove rk) s s'" "lru_held s' = (lru_held s)(rk := None)"
proof (cases "map_of (lru_entries s) rk")
  case None
  then show ?thesis
    using inv by (intro that [of False s]) (auto simp: lru_remove_def lru_kept_def lru_held_def held_of_def)
next
  case (Some a)
  have ok: "lru_ok s" using inv by (simp add: lru_inv_def)
  obtain e where e: "lru_node s a = Some e" "le_key e = rk" by (rule lru_entry_node [OF ok Some])
  obtain s' where "lru_erase (le_key e) a s = Some s'" "lru_ok s'"
    "lru_held s' = (lru_held s)(le_key e := None)" "lru_max_bytes s' = lru_max_bytes s"
    "lru_bytes_used s' \<le> lru_bytes_used s" "lru_generation s' = lru_generation s + 1"
    by (rule lru_erase_ok [OF ok e(1)])
  then show ?thesis
    using inv e(2) Some by (intro that [of True s']) (auto simp: lru_remove_def lru_kept_def lru_inv_def)
qed

lemma lru_remove_scan_ok:
  assumes "lru_ok s" "distinct (map fst rest)" "\<And>k a. (k, a) \<in> set rest \<Longrightarrow> map_of (lru_entries s) k = Some a"
  shows "\<exists>s'. lru_remove_scan c rest s = Some s' \<and> lru_ok s' \<and> lru_max_bytes s' = lru_max_bytes s \<and>
    lru_bytes_used s' \<le> lru_bytes_used s \<and>
    lru_generation s' = lru_generation s + of_nat (length (filter (\<lambda>(k, a). cache_key k = c) rest)) \<and>
    lru_held s' = (\<lambda>k. if cache_key k = c \<and> k \<in> fst ` set rest then None else lru_held s k) \<and>
    (filter (\<lambda>(k, a). cache_key k = c) rest = [] \<longrightarrow> s' = s)"
  using assms
proof (induction rest arbitrary: s)
  case (Cons p rest)
  obtain k a where p: "p = (k, a)" by force
  show ?case
  proof (cases "cache_key k = c")
    case False
    have "(\<lambda>k'. if cache_key k' = c \<and> k' \<in> fst ` set (p # rest) then None else lru_held s k')
        = (\<lambda>k'. if cache_key k' = c \<and> k' \<in> fst ` set rest then None else lru_held s k')"
      using False by (auto simp: p)
    then show ?thesis using Cons.IH [OF Cons.prems(1)] Cons.prems(2,3) False by (simp add: p)
  next
    case True
    have "map_of (lru_entries s) k = Some a" using Cons.prems(3) by (simp add: p)
    then obtain e where e: "lru_node s a = Some e" "le_key e = k" by (rule lru_entry_node [OF Cons.prems(1)])
    obtain s1 where s1: "lru_erase (le_key e) a s = Some s1" "lru_ok s1"
      "lru_held s1 = (lru_held s)(le_key e := None)" "lru_max_bytes s1 = lru_max_bytes s"
      "lru_bytes_used s1 \<le> lru_bytes_used s" "lru_entries s1 = AList.delete (le_key e) (lru_entries s)"
      "lru_generation s1 = lru_generation s + 1"
      by (rule lru_erase_ok [OF Cons.prems(1) e(1)])
    have "map_of (lru_entries s1) k' = Some a'" if "(k', a') \<in> set rest" for k' a'
    proof -
      have "k' \<noteq> k" using Cons.prems(2) that by (auto simp: p image_iff)
      then show ?thesis using Cons.prems(3) [of k' a'] that s1(6) e(2) by (simp add: AList.delete_conv')
    qed
    from Cons.IH [OF s1(2) _ this] Cons.prems(2) obtain s' where s': "lru_remove_scan c rest s1 = Some s'"
      "lru_ok s'" "lru_max_bytes s' = lru_max_bytes s1" "lru_bytes_used s' \<le> lru_bytes_used s1"
      "lru_generation s' = lru_generation s1 + of_nat (length (filter (\<lambda>(k, a). cache_key k = c) rest))"
      "lru_held s' = (\<lambda>k. if cache_key k = c \<and> k \<in> fst ` set rest then None else lru_held s1 k)"
      by (auto simp: p)
    have "lru_held s' = (\<lambda>k'. if cache_key k' = c \<and> k' \<in> fst ` set (p # rest) then None else lru_held s k')"
      using s'(6) s1(3) e(2) True by (auto simp: p)
    then show ?thesis using s' s1 e(2) True by (auto simp: p)
  qed
qed simp

lemma lru_remove_all_ok:
  assumes inv: "lru_inv s"
  obtains s' where "lru_remove_all c s = Some s'" "lru_kept (OpRemoveAll c) s s'"
    "lru_held s' = (\<lambda>k. if cache_key k = c then None else lru_held s k)"
proof -
  have ok: "lru_ok s" using inv by (simp add: lru_inv_def)
  note l = lru_okD [OF ok]
  have "map_of (lru_entries s) k = Some a" if "(k, a) \<in> set (lru_entries s)" for k a
    using that linkedD(3) [OF l(1)] by simp
  from lru_remove_scan_ok [OF ok linkedD(3) [OF l(1)] this, of c]
  obtain s' where s': "lru_remove_scan c (lru_entries s) s = Some s'" "lru_ok s'" "lru_max_bytes s' = lru_max_bytes s"
    "lru_bytes_used s' \<le> lru_bytes_used s"
    "lru_generation s' = lru_generation s + of_nat (length (filter (\<lambda>(k, a). cache_key k = c) (lru_entries s)))"
    "lru_held s' = (\<lambda>k. if cache_key k = c \<and> k \<in> fst ` set (lru_entries s) then None else lru_held s k)"
    "filter (\<lambda>(k, a). cache_key k = c) (lru_entries s) = [] \<longrightarrow> s' = s"
    by blast
  have absent: "lru_held s k = None" if "k \<notin> fst ` set (lru_entries s)" for k
    using that by (simp add: lru_held_def held_of_def map_of_eq_None_iff [THEN iffD2])
  show ?thesis
    using s' inv absent by (intro that [of s']) (auto simp: lru_remove_all_def lru_kept_def lru_inv_def)
qed

lemma lru_clear_ok:
  assumes "lru_inv s"
  shows "lru_kept OpClear s (lru_clear s)" "lru_held (lru_clear s) = Map.empty"
  using assms by (auto simp: lru_kept_def lru_inv_def lru_ok_def lru_clear_def lru_held_def)

lemma lru_exec_ok:
  assumes inv: "lru_inv s" and fresh: "op_fresh lru_free s p"
  obtains r s' where "lru_exec p s = Some (r, s')" "lru_kept p s s'"
proof (cases p)
  case (OpGet k t)
  obtain s' where "lru_get k t s = Some (lru_held s k, s')" "lru_inv s'"
    "lru_max_bytes s' = lru_max_bytes s" "lru_entries s' = lru_entries s" "lru_generation s' = lru_generation s"
    by (rule lru_get_ok [OF inv])
  then show ?thesis using that OpGet by (simp add: lru_kept_def)
next
  case (OpPut k d b st a)
  have "lru_node s a = None" using fresh OpPut by (simp add: lru_free_def)
  then obtain r s' where "lru_put_if k d b st a s = Some (r, s')" "lru_kept (OpPut k d b st a) s s'"
    by (rule lru_put_ok [OF inv])
  then show ?thesis using that OpPut by simp
next
  case (OpRemove k)
  obtain r s' where "lru_remove k s = Some (r, s')" "lru_kept (OpRemove k) s s'"
    by (rule lru_remove_ok [OF inv])
  then show ?thesis using that OpRemove by simp
next
  case (OpRemoveAll c)
  obtain s' where "lru_remove_all c s = Some s'" "lru_kept (OpRemoveAll c) s s'"
    by (rule lru_remove_all_ok [OF inv])
  then show ?thesis using that OpRemoveAll by simp
next
  case OpClear
  then show ?thesis using that lru_clear_ok(1) [OF inv] by simp
qed

interpretation lru: ram_cache "\<lambda>s. lru_inv s \<and> lru_max_bytes s = n" lru_held lru_exec lru_free for n
proof
  fix s p
  assume "lru_inv s \<and> lru_max_bytes s = n" "op_fresh lru_free s p"
  then show "\<exists>r s'. lru_exec p s = Some (r, s') \<and> lru_inv s' \<and> lru_max_bytes s' = n"
    using lru_exec_ok [of s p] by (metis lru_kept_def)
next
  fix s k t r s'
  assume a: "lru_inv s \<and> lru_max_bytes s = n" "lru_exec (OpGet k t) s = Some (r, s')"
  obtain s1 where "lru_get k t s = Some (lru_held s k, s1)" "lru_held s1 = lru_held s"
    by (rule lru_get_ok [OF conjunct1 [OF a(1)]])
  then show "r = Got (lru_held s k) \<and> lru_held s' = lru_held s" using a(2) by simp
next
  fix s a k d b st r s'
  assume a: "lru_inv s \<and> lru_max_bytes s = n" "lru_free s a" "lru_exec (OpPut k d b st a) s = Some (r, s')"
  obtain r1 s1 where "lru_put_if k d b st a s = Some (r1, s1)"
    "r1 \<and> lru_held s1 k = Some (d, st) \<and> lru_held s1 \<subseteq>\<^sub>m (lru_held s)(k \<mapsto> (d, st)) \<or> \<not> r1 \<and> s1 = s"
    by (rule lru_put_ok [OF conjunct1 [OF a(1)] a(2) [unfolded lru_free_def]])
  then show "(r = Answer True \<and> lru_held s' k = Some (d, st) \<and> lru_held s' \<subseteq>\<^sub>m (lru_held s)(k \<mapsto> (d, st)))
      \<or> (r = Answer False \<and> lru_held s' = lru_held s)"
    using a(3) by auto
next
  fix s k r s'
  assume a: "lru_inv s \<and> lru_max_bytes s = n" "lru_exec (OpRemove k) s = Some (r, s')"
  obtain r1 s1 where "lru_remove k s = Some (r1, s1)" "lru_held s1 = (lru_held s)(k := None)"
    by (rule lru_remove_ok [OF conjunct1 [OF a(1)]])
  then show "lru_held s' = (lru_held s)(k := None)" using a(2) by simp
next
  fix s c r s'
  assume a: "lru_inv s \<and> lru_max_bytes s = n" "lru_exec (OpRemoveAll c) s = Some (r, s')"
  obtain s1 where "lru_remove_all c s = Some s1" "lru_held s1 = (\<lambda>k. if cache_key k = c then None else lru_held s k)"
    by (rule lru_remove_all_ok [OF conjunct1 [OF a(1)]])
  then show "lru_held s' = (\<lambda>k. if cache_key k = c then None else lru_held s k)" using a(2) by simp
next
  fix s r s'
  assume "lru_inv s \<and> lru_max_bytes s = n" "lru_exec OpClear s = Some (r, s')"
  then show "lru_held s' = Map.empty"
    using lru_clear_ok [of s] by auto
qed

section \<open>Properties\<close>

text \<open>
  C35. The LRU cache implements the abstract cache: no sequence of operations, whatever addresses the
  allocator returns, follows a dead iterator; the bytes accounted for are exactly those of the
  entries on the list and never exceed the budget; and a get returns nothing or exactly the body
  and the stamp of the last successful put of its key, unless it was removed since.
\<close>

theorem lru_serves_last_put:
  assumes "run_fresh lru_exec lru_free (make_lru n) ps"
  shows "\<exists>rs s. run_ops lru_exec (make_lru n) ps = Some (rs, s) \<and>
    lru_bytes_used s = bytes_of (lru_node s) le_data (lru_list s) \<and> lru_bytes_used s \<le> n \<and>
    (\<forall>k t. \<exists>v s'. lru_get k t s = Some (v, s') \<and> (v = None \<or> v = last_put ps rs k))"
proof -
  have "lru_inv (make_lru n) \<and> lru_max_bytes (make_lru n) = n" by simp
  then obtain rs s where s: "run_ops lru_exec (make_lru n) ps = Some (rs, s)"
      "lru_inv s \<and> lru_max_bytes s = n" "lru_held s \<subseteq>\<^sub>m last_put ps rs"
    using lru.serves_last_put [OF _ lru_make(2) assms] by metis
  have "\<exists>v s'. lru_get k t s = Some (v, s') \<and> (v = None \<or> v = last_put ps rs k)" for k t
  proof -
    obtain s' where "lru_get k t s = Some (lru_held s k, s')" using lru_get_ok s(2) by metis
    moreover have "lru_held s k = None \<or> lru_held s k = last_put ps rs k"
      using s(3) by (metis domIff map_le_def)
    ultimately show ?thesis by blast
  qed
  then show ?thesis using s by (auto simp: lru_inv_def lru_ok_def)
qed

definition sample_key :: "u8 \<Rightarrow> RamCacheKey" where
  "sample_key i = \<lparr>cache_key = CacheKey (replicate 32 i), alternate_id = Original\<rparr>"

definition sample_puts :: "ram_op list" where
  "sample_puts = [OpPut (sample_key 1) [1, 2, 3] True 7 0, OpPut (sample_key 2) [4, 5, 6] True 8 1,
     OpGet (sample_key 1) True, OpPut (sample_key 1) [9, 9, 9, 9] True 9 2]"

theorem lru_serves_last_put_witness:
  "run_fresh lru_exec lru_free (make_lru 7) sample_puts \<and>
   (\<exists>rs s. run_ops lru_exec (make_lru 7) sample_puts = Some (rs, s) \<and> lru_bytes_used s \<le> 7)"
proof -
  have "run_fresh lru_exec lru_free (make_lru 7) sample_puts" by code_simp
  with lru_serves_last_put [OF this] show ?thesis by blast
qed

section \<open>The two windows of a get\<close>

text \<open>
  All interleavings of complete operations with the windows of pending gets.  A pending get is its
  key, the saved iterator and generation, and (ghost) the number of bumps so far; the third
  component of the system is the number of bumps now.
\<close>

inductive lru_sys :: "nat \<Rightarrow> RamCacheLRU \<Rightarrow> nat \<Rightarrow> (RamCacheKey \<times> addr \<times> u64 \<times> nat) list \<Rightarrow> bool" for n where
  start: "lru_sys n (make_lru n) 0 []"
| operation: "lru_sys n s b pend \<Longrightarrow> op_fresh lru_free s p \<Longrightarrow> lru_exec p s = Some (r, s')
    \<Longrightarrow> lru_sys n s' (b + lru_bumps p s s') pend"
| window: "lru_sys n s b pend \<Longrightarrow> lru_get_shared rk s = Some (r, saved, s')
    \<Longrightarrow> lru_sys n s' b (case saved of None \<Rightarrow> pend | Some (a, g) \<Rightarrow> (rk, a, g, b) # pend)"
| refresh: "lru_sys n s b pend \<Longrightarrow> (rk, a, g, m) \<in> set pend \<Longrightarrow> lru_get_refresh rk t (a, g) s = Some s'
    \<Longrightarrow> lru_sys n s' b (remove1 (rk, a, g, m) pend)"

definition pending_ok :: "RamCacheLRU \<Rightarrow> nat \<Rightarrow> RamCacheKey \<times> addr \<times> u64 \<times> nat \<Rightarrow> bool" where
  "pending_ok s b = (\<lambda>(rk, a, g, m). g = of_nat m \<and> m \<le> b \<and> (m = b \<longrightarrow> map_of (lru_entries s) rk = Some a))"

lemma lru_refresh_result:
  assumes "lru_get_refresh rk t (a, g) s = Some s'" "lru_inv s"
  shows "\<exists>l. s' = s\<lparr>lru_list := l\<rparr> \<and> lru_inv s'"
proof -
  have "s' = s \<or> (\<exists>b \<in> set (lru_list s). s' = s\<lparr>lru_list := b # remove1 b (lru_list s)\<rparr>)"
    using assms(1) by (auto simp: lru_get_refresh_def splice_front_def unlink_def split: if_splits option.splits)
  then show ?thesis
    using assms(2) lru_ok_reorder by (auto simp: lru_inv_def) (metis lru_list_same)
qed

lemma lru_sys_inv:
  assumes "lru_sys n s b pend"
  shows "lru_inv s \<and> lru_generation s = of_nat b \<and> list_all (pending_ok s b) pend"
  using assms
proof induction
  case start
  then show ?case by simp
next
  case (operation s b pend p r s')
  then obtain r1 s1 where "lru_exec p s = Some (r1, s1)" "lru_kept p s s1" using lru_exec_ok by blast
  then have "lru_kept p s s'" using operation by simp
  with operation show ?case
    by (fastforce simp: lru_kept_def pending_ok_def list_all_iff map_le_def dom_def)
next
  case (window s b pend rk r saved s')
  have ok: "lru_ok s" using window by (simp add: lru_inv_def)
  obtain saved1 s1 where 1: "lru_get_shared rk s = Some (lru_held s rk, saved1, s1)"
    "s1 = s\<lparr>lru_hits := lru_hits s1\<rparr>\<lparr>lru_misses := lru_misses s1\<rparr>"
    "\<And>a g. saved1 = Some (a, g) \<Longrightarrow> g = lru_generation s \<and> map_of (lru_entries s) rk = Some a"
    using lru_get_shared_ok [OF ok] by metis
  have s1: "s' = s1" "s1 = s\<lparr>lru_hits := lru_hits s1\<rparr>\<lparr>lru_misses := lru_misses s1\<rparr>"
    "\<And>a g. saved = Some (a, g) \<Longrightarrow> g = lru_generation s \<and> map_of (lru_entries s) rk = Some a"
    using 1 window by auto
  have same: "lru_generation s1 = lru_generation s" "lru_entries s1 = lru_entries s" "lru_ok s1"
    "lru_bytes_used s1 = lru_bytes_used s" "lru_max_bytes s1 = lru_max_bytes s"
    using ok by (subst s1(2), simp)+
  then have eq: "lru_inv s'" "lru_generation s' = lru_generation s" "lru_entries s' = lru_entries s"
    using window s1(1) by (simp_all add: lru_inv_def)
  then have "pending_ok s' b = pending_ok s b" by (simp add: pending_ok_def)
  then show ?case using eq window s1(3) by (auto simp: pending_ok_def split: option.splits)
next
  case (refresh s b pend rk a g m t s')
  then obtain l where "s' = s\<lparr>lru_list := l\<rparr>" "lru_inv s'" using lru_refresh_result by blast
  then have "lru_inv s'" "lru_generation s' = lru_generation s" "pending_ok s' b = pending_ok s b"
    by (simp_all add: pending_ok_def)
  then show ?case
    using refresh set_remove1_subset [of "(rk, a, g, m)" pend] unfolding list_all_iff by auto
qed

text \<open>
  C36. The recency refresh of a get never splices a dead node: whatever other threads did since its
  shared window, and however the allocator reuses addresses, as long as fewer than 2^64 nodes were
  destroyed in between, the refresh is defined, leaves every entry and the accounting as they
  are, and when it gets the lock and the key is still cached, puts the key's entry at the front.
\<close>

theorem lru_refresh_never_dangles:
  assumes "lru_sys n s b pend" and "(rk, a, g, m) \<in> set pend" and "b < m + 2 ^ 64"
  shows "\<exists>s'. lru_get_refresh rk t (a, g) s = Some s' \<and> lru_held s' = lru_held s \<and>
    lru_bytes_used s' = lru_bytes_used s \<and>
    (t \<and> lru_held s rk \<noteq> None \<longrightarrow>
       lru_list s' \<noteq> [] \<and> map_option le_key (lru_node s' (hd (lru_list s'))) = Some rk)"
proof -
  have inv: "lru_ok s" "lru_generation s = of_nat b" and p: "g = of_nat m" "m \<le> b" "m = b \<longrightarrow> map_of (lru_entries s) rk = Some a"
    using lru_sys_inv [OF assms(1)] assms(2) by (auto simp: list_all_iff pending_ok_def lru_inv_def)
  have "m = b" if "lru_generation s = g"
  proof -
    have "(of_nat b :: u64) = of_nat m" using that inv(2) p(1) by simp
    then have "b mod 2 ^ 64 = m mod 2 ^ 64" by (simp add: word_of_nat_eq_iff take_bit_eq_mod)
    then have "2 ^ 64 dvd b - m" using mod_eq_dvd_iff_nat [OF p(2)] by simp
    moreover have "b - m < 2 ^ 64" using assms(3) p(2) by simp
    ultimately show ?thesis using p(2) nat_dvd_not_less [of "b - m" "2 ^ 64"] by force
  qed
  then obtain l where l: "lru_get_refresh rk t (a, g) s = Some (s\<lparr>lru_list := l\<rparr>)"
    "\<And>b. t \<Longrightarrow> map_of (lru_entries s) rk = Some b \<Longrightarrow> is_front b l"
    using lru_get_refresh_ok [OF inv(1), of g rk a t] p(3) by metis
  show ?thesis
  proof (intro exI conjI impI)
    show "lru_get_refresh rk t (a, g) s = Some (s\<lparr>lru_list := l\<rparr>)" by (rule l(1))
    assume h: "t \<and> lru_held s rk \<noteq> None"
    then obtain x where x: "map_of (lru_entries s) rk = Some x"
      by (auto simp: lru_held_def held_of_def split: bind_splits)
    then obtain e where "lru_node s x = Some e" "le_key e = rk" by (rule lru_entry_node [OF inv(1)])
    then show "lru_list (s\<lparr>lru_list := l\<rparr>) \<noteq> []"
      "map_option le_key (lru_node (s\<lparr>lru_list := l\<rparr>) (hd (lru_list (s\<lparr>lru_list := l\<rparr>)))) = Some rk"
      using l(2) [OF _ x] h by (auto simp: is_front_def)
  qed simp_all
qed

theorem lru_refresh_never_dangles_witness:
  "\<exists>s s'. lru_get_refresh (sample_key 1) True (0, 0) s = Some s' \<and>
     map_option le_key (lru_node s' (hd (lru_list s'))) = Some (sample_key 1)"
proof -
  let ?p = "OpPut (sample_key 1) [1, 2, 3] True 7 0" and ?q = "OpPut (sample_key 2) [4] True 8 1"
  define s1 where "s1 = snd (the (lru_exec ?p (make_lru 9)))"
  define s2 where "s2 = snd (the (lru_exec ?q s1))"
  define s3 where "s3 = snd (snd (the (lru_get_shared (sample_key 1) s2)))"
  have e1: "lru_exec ?p (make_lru 9) = Some (Answer True, s1)"
    by (simp add: s1_def lru_put_if_def make_lru_def lru_evict_if_needed.simps)
  have e2: "lru_exec ?q s1 = Some (Answer True, s2)"
    by (simp add: s2_def s1_def lru_put_if_def make_lru_def lru_evict_if_needed.simps sample_key_def)
  have e3: "lru_get_shared (sample_key 1) s2 = Some (Some ([1, 2, 3], 7), Some (0, 0), s3)"
    by (simp add: s3_def s2_def s1_def lru_put_if_def make_lru_def lru_evict_if_needed.simps sample_key_def
        lru_get_shared_def is_front_def)
  have b: "lru_bumps ?p (make_lru 9) s1 = 0" "lru_bumps ?q s1 s2 = 0"
    by (simp_all add: s2_def s1_def lru_put_if_def make_lru_def lru_evict_if_needed.simps sample_key_def)
  have "lru_sys 9 s1 (0 + lru_bumps ?p (make_lru 9) s1) []"
    by (rule lru_sys.operation [OF lru_sys.start _ e1]) (simp add: lru_free_def make_lru_def)
  then have "lru_sys 9 s2 (0 + lru_bumps ?q s1 s2) []"
    using b(1) by (intro lru_sys.operation [OF _ _ e2])
      (simp_all add: lru_free_def s1_def lru_put_if_def make_lru_def lru_evict_if_needed.simps)
  then have "lru_sys 9 s3 0 [(sample_key 1, 0, 0, 0)]"
    using lru_sys.window [OF _ e3, of 9 0 "[]"] b(2) by simp
  from lru_refresh_never_dangles [OF this, of "sample_key 1" 0 0 0 True]
  have "\<exists>s'. lru_get_refresh (sample_key 1) True (0, 0) s3 = Some s' \<and>
      (lru_held s3 (sample_key 1) \<noteq> None \<longrightarrow> map_option le_key (lru_node s' (hd (lru_list s'))) = Some (sample_key 1))"
    by auto
  moreover have "lru_held s3 (sample_key 1) \<noteq> None"
    by (simp add: lru_held_def held_of_def s3_def s2_def s1_def lru_put_if_def make_lru_def
        lru_evict_if_needed.simps sample_key_def lru_get_shared_def is_front_def)
  ultimately show ?thesis by blast
qed

end
