(* ===== verification/Ram_Clfus.thy ===== *)
theory Ram_Clfus
  imports Complex_Main Ram_Cache
begin

text \<open>
  One segment of the CLFUS cache: \<^verbatim>\<open>RamCacheCLFUS::Segment\<close> of \<^verbatim>\<open>src/src/ram_cache/clfus.cpp\<close>, with
  its active and history lists, seen filter, eviction with requeueing, and promotion from history.
  A method body runs under the segment's lock (get under the shared one, where it only bumps
  atomic counters), so it is one step.  The running average of evicted values is a rational
  number: the rounding of \<open>double\<close> is not modelled, and no property below depends on it beyond
  the comparison in put.
\<close>

unbundle bit_operations_syntax

section \<open>Model\<close>

definition ENTRY_OVERHEAD :: nat where "ENTRY_OVERHEAD = 256"
definition REQUEUE_LIMIT :: nat where "REQUEUE_LIMIT = 100"
definition MAX_HISTORY :: nat where "MAX_HISTORY = 1024"

record clfus_entry =
  ce_key :: RamCacheKey
  ce_data :: bytes
  ce_hits :: u32
  ce_in_cache :: bool
  ce_stamp :: u32

definition entry_value :: "clfus_entry \<Rightarrow> rat" where
  "entry_value e = of_nat (unat (ce_hits e + 1)) / of_nat (length (ce_data e) + ENTRY_OVERHEAD)"

record Segment =
  seg_max_bytes :: nat
  seg_bytes_used :: nat
  active_lru :: "addr list"
  history_lru :: "addr list"
  seg_node :: "addr \<rightharpoonup> clfus_entry"
  entry_map :: "(RamCacheKey \<times> addr) list"
  seen_filter :: "u16 list"
  average_value :: rat
  seg_hits :: nat
  seg_misses :: nat
  seg_evictions :: nat

definition make_segment :: "nat \<Rightarrow> nat \<Rightarrow> Segment" where
  "make_segment max_bytes seen_filter_size =
     \<lparr>seg_max_bytes = max_bytes, seg_bytes_used = 0, active_lru = [], history_lru = [],
      seg_node = Map.empty, entry_map = [], seen_filter = replicate seen_filter_size 0,
      average_value = 0, seg_hits = 0, seg_misses = 0, seg_evictions = 0\<rparr>"

definition compute_seen_tag :: "RamCacheKey \<Rightarrow> u16" where
  "compute_seen_tag k = from_le (subspan 16 2 (digest (cache_key k))) XOR ucast (alternate_id k)"

definition seen_index :: "RamCacheKey \<Rightarrow> Segment \<Rightarrow> nat" where
  "seen_index k s = unat (bucket_hash (cache_key k)) mod length (seen_filter s)"

definition check_seen :: "RamCacheKey \<Rightarrow> Segment \<Rightarrow> bool" where
  "check_seen k s \<longleftrightarrow> seen_filter s ! seen_index k s = compute_seen_tag k"

definition mark_seen :: "RamCacheKey \<Rightarrow> Segment \<Rightarrow> Segment" where
  "mark_seen k s = s\<lparr>seen_filter := (seen_filter s)[seen_index k s := compute_seen_tag k]\<rparr>"

definition seg_get :: "RamCacheKey \<Rightarrow> Segment \<Rightarrow> ((bytes \<times> u32) option \<times> Segment) option" where
  "seg_get rk s =
     (case map_of (entry_map s) rk of
        None \<Rightarrow> Some (None, s\<lparr>seg_misses := seg_misses s + 1\<rparr>)
      | Some it \<Rightarrow>
          do { e \<leftarrow> seg_node s it;
               if \<not> ce_in_cache e then Some (None, s\<lparr>seg_misses := seg_misses s + 1\<rparr>)
               else Some (Some (ce_data e, ce_stamp e),
                      s\<lparr>seg_node := (seg_node s)(it \<mapsto> e\<lparr>ce_hits := saturating_increment (ce_hits e)\<rparr>),
                        seg_hits := seg_hits s + 1\<rparr>) })"

definition update_average :: "rat \<Rightarrow> rat \<Rightarrow> rat" where
  "update_average new_value average = 1 / 10 * new_value + (1 - 1 / 10) * average"

text \<open>The loop that trims the history, and the three pieces of the eviction loop.\<close>

definition forget_oldest :: "Segment \<Rightarrow> Segment option" where
  "forget_oldest s =
     do { e \<leftarrow> seg_node s (last (history_lru s));
          Some (s\<lparr>entry_map := AList.delete (ce_key e) (entry_map s),
                  seg_node := (seg_node s)(last (history_lru s) := None),
                  history_lru := butlast (history_lru s)\<rparr>) }"

lemma forget_oldest_history: "forget_oldest s = Some s' \<Longrightarrow> history_lru s' = butlast (history_lru s)"
  by (auto simp: forget_oldest_def split: bind_splits)

lemma forget_oldest_active: "forget_oldest s = Some s' \<Longrightarrow> active_lru s' = active_lru s"
  by (auto simp: forget_oldest_def split: bind_splits)

function trim_history :: "Segment \<Rightarrow> Segment option" where
  "trim_history s =
     (if length (history_lru s) > MAX_HISTORY
      then (case forget_oldest s of None \<Rightarrow> None | Some s' \<Rightarrow> trim_history s') else Some s)"
  by pat_completeness auto
termination
  by (relation "measure (\<lambda>s. length (history_lru s))") (auto simp: forget_oldest_history)

declare trim_history.simps [simp del]

definition requeue_victim :: "addr \<Rightarrow> clfus_entry \<Rightarrow> Segment \<Rightarrow> Segment" where
  "requeue_victim a v s =
     s\<lparr>seg_node := (seg_node s)(a \<mapsto> v\<lparr>ce_hits := ce_hits v div 2\<rparr>), active_lru := a # butlast (active_lru s)\<rparr>"

definition retire_victim :: "addr \<Rightarrow> clfus_entry \<Rightarrow> Segment \<Rightarrow> Segment" where
  "retire_victim a v s =
     s\<lparr>average_value := update_average (entry_value v) (average_value s),
       seg_bytes_used := seg_bytes_used s - length (ce_data v),
       seg_node := (seg_node s)(a \<mapsto> v\<lparr>ce_data := [], ce_in_cache := False\<rparr>),
       active_lru := butlast (active_lru s), history_lru := a # history_lru s,
       entry_map := AList.update (ce_key v) a (entry_map s),
       seg_evictions := seg_evictions s + 1\<rparr>"

lemma trim_history_active: "trim_history s = Some s' \<Longrightarrow> active_lru s' = active_lru s"
  by (induction s rule: trim_history.induct)
    (subst (asm) (2) trim_history.simps, auto simp: forget_oldest_active split: if_splits option.splits)

function seg_evict_loop :: "nat \<Rightarrow> nat \<Rightarrow> Segment \<Rightarrow> Segment option" where
  "seg_evict_loop required_space requeues s =
     (if seg_bytes_used s + required_space > seg_max_bytes s \<and> active_lru s \<noteq> []
      then
        (case seg_node s (last (active_lru s)) of
           None \<Rightarrow> None
         | Some v \<Rightarrow>
             if ce_hits v > 0 \<and> requeues < REQUEUE_LIMIT
             then seg_evict_loop required_space (requeues + 1) (requeue_victim (last (active_lru s)) v s)
             else (case trim_history (retire_victim (last (active_lru s)) v s) of
                     None \<Rightarrow> None
                   | Some s' \<Rightarrow> seg_evict_loop required_space requeues s'))
      else Some s)"
  by pat_completeness auto
termination
proof (relation "measures [\<lambda>(_, _, s). length (active_lru s), \<lambda>(_, q, _). REQUEUE_LIMIT - q]", goal_cases)
  case 1
  show ?case by simp
next
  case (2 req q s v)
  then show ?case
    by (cases "active_lru s" rule: rev_cases) (auto simp: requeue_victim_def)
next
  case (3 req q s v s')
  then show ?case using trim_history_active [of _ s'] by (auto simp: retire_victim_def)
qed

definition seg_evict_if_needed :: "nat \<Rightarrow> Segment \<Rightarrow> Segment option" where
  "seg_evict_if_needed required_space s = seg_evict_loop required_space 0 s"

text \<open>Putting a rescued node back on the active list with a new body.\<close>

definition readmit :: "addr \<Rightarrow> bytes \<Rightarrow> u32 \<Rightarrow> Segment \<Rightarrow> Segment option" where
  "readmit it data stamp s =
     do { e \<leftarrow> seg_node s it;
          Some (s\<lparr>active_lru := it # active_lru s,
                  entry_map := AList.update (ce_key e) it (entry_map s),
                  seg_node := (seg_node s)(it \<mapsto> e\<lparr>ce_data := data, ce_stamp := stamp, ce_in_cache := True,
                    ce_hits := saturating_increment (ce_hits e)\<rparr>),
                  seg_bytes_used := seg_bytes_used s + length data\<rparr>) }"

definition promote_from_history :: "addr \<Rightarrow> bytes \<Rightarrow> u32 \<Rightarrow> Segment \<Rightarrow> Segment option" where
  "promote_from_history it data stamp s =
     do { h \<leftarrow> unlink it (history_lru s);
          s \<leftarrow> seg_evict_if_needed (length data) (s\<lparr>history_lru := h\<rparr>);
          readmit it data stamp s }"

definition overwrite_active :: "addr \<Rightarrow> clfus_entry \<Rightarrow> bytes \<Rightarrow> u32 \<Rightarrow> Segment \<Rightarrow> Segment option" where
  "overwrite_active it e data stamp s =
     do { l \<leftarrow> unlink it (active_lru s);
          s \<leftarrow> seg_evict_if_needed (length data)
                 (s\<lparr>seg_bytes_used := seg_bytes_used s - length (ce_data e), active_lru := l\<rparr>);
          readmit it data stamp s }"

definition seg_put :: "RamCacheKey \<Rightarrow> bytes \<Rightarrow> bool \<Rightarrow> u32 \<Rightarrow> addr \<Rightarrow> Segment \<Rightarrow> (bool \<times> Segment) option" where
  "seg_put rk data predicate stamp new s =
     (if length data > seg_max_bytes s then Some (False, s)
      else if \<not> predicate then Some (False, s)
      else (case map_of (entry_map s) rk of
          Some it \<Rightarrow>
            do { e \<leftarrow> seg_node s it;
                 if ce_in_cache e
                 then do { s \<leftarrow> overwrite_active it e data stamp s; Some (True, s) }
                 else if entry_value e > average_value s \<or> ce_hits e > 0
                 then do { s \<leftarrow> promote_from_history it data stamp s; Some (True, s) }
                 else Some (False, s\<lparr>seg_node := (seg_node s)(it \<mapsto> e\<lparr>ce_hits := saturating_increment (ce_hits e)\<rparr>)\<rparr>) }
        | None \<Rightarrow>
            if \<not> check_seen rk s then Some (False, mark_seen rk s)
            else do { s \<leftarrow> seg_evict_if_needed (length data) s;
                      Some (True, s\<lparr>seg_node := (seg_node s)(new \<mapsto>
                                      \<lparr>ce_key = rk, ce_data = data, ce_hits = 0, ce_in_cache = True, ce_stamp = stamp\<rparr>),
                                    active_lru := new # active_lru s,
                                    entry_map := AList.update rk new (entry_map s),
                                    seg_bytes_used := seg_bytes_used s + length data\<rparr>) }))"

definition seg_erase :: "RamCacheKey \<Rightarrow> addr \<Rightarrow> Segment \<Rightarrow> Segment option" where
  "seg_erase rk it s =
     do { e \<leftarrow> seg_node s it;
          s \<leftarrow> (if ce_in_cache e
                then do { l \<leftarrow> unlink it (active_lru s);
                          Some (s\<lparr>seg_bytes_used := seg_bytes_used s - length (ce_data e), active_lru := l\<rparr>) }
                else do { l \<leftarrow> unlink it (history_lru s); Some (s\<lparr>history_lru := l\<rparr>) });
          Some (s\<lparr>seg_node := (seg_node s)(it := None), entry_map := AList.delete rk (entry_map s)\<rparr>) }"

definition seg_remove :: "RamCacheKey \<Rightarrow> Segment \<Rightarrow> (bool \<times> Segment) option" where
  "seg_remove rk s =
     (case map_of (entry_map s) rk of
        None \<Rightarrow> Some (False, s)
      | Some it \<Rightarrow> do { s \<leftarrow> seg_erase rk it s; Some (True, s) })"

fun seg_remove_scan :: "CacheKey \<Rightarrow> (RamCacheKey \<times> addr) list \<Rightarrow> Segment \<Rightarrow> Segment option" where
  "seg_remove_scan key [] s = Some s"
| "seg_remove_scan key ((rk, it) # rest) s =
     (if cache_key rk = key then do { s \<leftarrow> seg_erase rk it s; seg_remove_scan key rest s }
      else seg_remove_scan key rest s)"

definition seg_remove_all :: "CacheKey \<Rightarrow> Segment \<Rightarrow> Segment option" where
  "seg_remove_all key s = seg_remove_scan key (entry_map s) s"

definition seg_clear :: "Segment \<Rightarrow> Segment" where
  "seg_clear s = s\<lparr>active_lru := [], history_lru := [], seg_node := Map.empty, entry_map := [],
     seen_filter := map (\<lambda>_. 0) (seen_filter s), seg_bytes_used := 0, average_value := 0\<rparr>"

fun seg_exec :: "ram_op \<Rightarrow> Segment \<Rightarrow> (ram_result \<times> Segment) option" where
  "seg_exec (OpGet k t) s = map_option (apfst Got) (seg_get k s)"
| "seg_exec (OpPut k d b st a) s = map_option (apfst Answer) (seg_put k d b st a s)"
| "seg_exec (OpRemove k) s = map_option (apfst Answer) (seg_remove k s)"
| "seg_exec (OpRemoveAll c) s = map_option (Pair Done) (seg_remove_all c s)"
| "seg_exec OpClear s = Some (Done, seg_clear s)"

declare seg_evict_loop.simps [simp del]

end
