(* ===== verification/Ram_Clfus_Inv.thy ===== *)
theory Ram_Clfus_Inv
  imports Ram_Clfus
begin

text \<open>
  The invariant of a CLFUS segment and its preservation by every operation.  While a put makes
  room, the node it works on is on neither list (the code splices it into a local list); the
  invariant carries those rescued nodes as a parameter.
\<close>

section \<open>Invariant\<close>

definition seg_ok :: "addr list \<Rightarrow> Segment \<Rightarrow> bool" where
  "seg_ok rescued s \<longleftrightarrow>
     linked (active_lru s @ history_lru s @ rescued) (seg_node s) ce_key (entry_map s) \<and>
     (\<forall>a \<in> set (active_lru s). \<exists>e. seg_node s a = Some e \<and> ce_in_cache e) \<and>
     (\<forall>a \<in> set (history_lru s). \<exists>e. seg_node s a = Some e \<and> \<not> ce_in_cache e \<and> ce_data e = []) \<and>
     seg_bytes_used s = bytes_of (seg_node s) ce_data (active_lru s) \<and>
     seen_filter s \<noteq> []"

definition seg_inv :: "Segment \<Rightarrow> bool" where
  "seg_inv s \<longleftrightarrow> seg_ok [] s \<and> seg_bytes_used s \<le> seg_max_bytes s \<and> length (history_lru s) \<le> MAX_HISTORY"

definition in_cache_body :: "clfus_entry \<Rightarrow> (bytes \<times> u32) option" where
  "in_cache_body e = (if ce_in_cache e then Some (ce_data e, ce_stamp e) else None)"

definition seg_held :: "Segment \<Rightarrow> RamCacheKey \<Rightarrow> (bytes \<times> u32) option" where
  "seg_held s = held_of (seg_node s) (entry_map s) in_cache_body"

definition seg_free :: "Segment \<Rightarrow> addr \<Rightarrow> bool" where
  "seg_free s a \<longleftrightarrow> seg_node s a = None"

lemma seg_okD:
  assumes "seg_ok R s"
  shows "linked (active_lru s @ history_lru s @ R) (seg_node s) ce_key (entry_map s)"
    "a \<in> set (active_lru s) \<Longrightarrow> \<exists>e. seg_node s a = Some e \<and> ce_in_cache e"
    "a \<in> set (history_lru s) \<Longrightarrow> \<exists>e. seg_node s a = Some e \<and> \<not> ce_in_cache e \<and> ce_data e = []"
    "seg_bytes_used s = bytes_of (seg_node s) ce_data (active_lru s)" "seen_filter s \<noteq> []"
    "distinct (active_lru s)" "distinct (history_lru s)" "set (active_lru s) \<inter> set (history_lru s) = {}"
    "set (active_lru s) \<inter> set R = {}" "set (history_lru s) \<inter> set R = {}"
  using assms by (auto simp: seg_ok_def linked_def)

lemma seg_make [simp]:
  "n > 0 \<Longrightarrow> seg_inv (make_segment m n)" "seg_held (make_segment m n) = Map.empty"
  "seg_max_bytes (make_segment m n) = m"
  by (simp_all add: seg_inv_def seg_ok_def seg_held_def make_segment_def)

lemma seg_entry_node:
  assumes "seg_ok [] s" "map_of (entry_map s) k = Some a"
  obtains e where "seg_node s a = Some e" "ce_key e = k"
    "ce_in_cache e \<Longrightarrow> a \<in> set (active_lru s)" "\<not> ce_in_cache e \<Longrightarrow> a \<in> set (history_lru s) \<and> ce_data e = []"
proof -
  note l = seg_okD [OF assms(1)]
  obtain e where e: "seg_node s a = Some e" "ce_key e = k" using linkedD(4) [OF l(1) assms(2)] by blast
  have "a \<in> set (active_lru s) \<or> a \<in> set (history_lru s)" using linkedD(2) [OF l(1)] e(1) by auto
  then show ?thesis using that [OF e] l(2) [of a] l(3) [of a] e(1) by auto
qed

section \<open>Making room\<close>

text \<open>What eviction keeps: the rescued nodes, the budget, and every body it does not drop.\<close>

definition seg_shrunk :: "addr list \<Rightarrow> Segment \<Rightarrow> Segment \<Rightarrow> bool" where
  "seg_shrunk R s s' \<longleftrightarrow>
     seg_ok R s' \<and> seg_max_bytes s' = seg_max_bytes s \<and> seen_filter s' = seen_filter s \<and>
     (\<forall>a \<in> set R. seg_node s' a = seg_node s a) \<and> (\<forall>a. seg_node s a = None \<longrightarrow> seg_node s' a = None) \<and>
     seg_held s' \<subseteq>\<^sub>m seg_held s \<and> map_of (entry_map s') \<subseteq>\<^sub>m map_of (entry_map s)"

lemma seg_shrunk_trans: "seg_shrunk R s s1 \<Longrightarrow> seg_shrunk R s1 s' \<Longrightarrow> seg_shrunk R s s'"
  unfolding seg_shrunk_def by (metis map_le_trans)

lemma seg_shrunk_refl: "seg_ok R s \<Longrightarrow> seg_shrunk R s s"
  by (simp add: seg_shrunk_def)

lemma butlast_last_facts:
  assumes "distinct xs" "xs \<noteq> []"
  shows "last xs \<in> set xs" "last xs \<notin> set (butlast xs)" "set xs = insert (last xs) (set (butlast xs))"
    "distinct (butlast xs)"
  using assms by (cases xs rule: rev_cases; simp)+

lemma requeue_ok:
  assumes ok: "seg_ok R s" and ne: "active_lru s \<noteq> []" and v: "seg_node s (last (active_lru s)) = Some v"
  shows "seg_shrunk R s (requeue_victim (last (active_lru s)) v s)"
    "history_lru (requeue_victim (last (active_lru s)) v s) = history_lru s"
proof -
  let ?a = "last (active_lru s)" and ?v = "v\<lparr>ce_hits := ce_hits v div 2\<rparr>"
  note l = seg_okD [OF ok] and b = butlast_last_facts [OF seg_okD(6) [OF ok] ne]
  have inc: "ce_in_cache v" using l(2) [OF b(1)] v by auto
  have link: "linked ((?a # butlast (active_lru s)) @ history_lru s @ R) ((seg_node s)(?a \<mapsto> ?v)) ce_key (entry_map s)"
    by (rule linked_reorder [OF linked_update [OF l(1) v, of ?v]]) (use b linkedD(1) [OF l(1)] in auto)
  have bytes: "bytes_of (seg_node s) ce_data (active_lru s) = length (ce_data v) + bytes_of (seg_node s) ce_data (butlast (active_lru s))"
    using bytes_of_remove1 [where node = "seg_node s" and data_of = ce_data, OF b(1) v] last_remove1 [OF l(6) ne] by simp
  have held: "held_of ((seg_node s)(?a \<mapsto> ?v)) (entry_map s) in_cache_body = held_of (seg_node s) (entry_map s) in_cache_body"
    using held_of_update [OF l(1) v, of ?v in_cache_body] held_of_node [OF l(1) v, of in_cache_body]
    by (simp add: in_cache_body_def fun_upd_idem)
  have "?a \<notin> set (history_lru s)" "?a \<notin> set R" using l(8,9) b(1) by auto
  then show "seg_shrunk R s (requeue_victim ?a v s)"
    using link bytes held b inc v l(2,3,4,5)
    by (auto simp: seg_shrunk_def seg_ok_def requeue_victim_def seg_held_def)
qed (simp add: requeue_victim_def)

lemma retire_ok:
  assumes ok: "seg_ok R s" and ne: "active_lru s \<noteq> []" and v: "seg_node s (last (active_lru s)) = Some v"
  shows "seg_shrunk R s (retire_victim (last (active_lru s)) v s)"
    "history_lru (retire_victim (last (active_lru s)) v s) = last (active_lru s) # history_lru s"
proof -
  let ?a = "last (active_lru s)" and ?v = "v\<lparr>ce_data := [], ce_in_cache := False\<rparr>"
  note l = seg_okD [OF ok] and b = butlast_last_facts [OF seg_okD(6) [OF ok] ne]
  have map: "AList.update (ce_key v) ?a (entry_map s) = entry_map s"
    by (rule update_same [OF linkedD(5) [OF l(1) v]])
  have "?a \<notin> set (history_lru s)" "?a \<notin> set R" using l(8,9) b(1) by auto
  note a = this
  have link: "linked (butlast (active_lru s) @ (?a # history_lru s) @ R) ((seg_node s)(?a \<mapsto> ?v)) ce_key (entry_map s)"
    by (rule linked_reorder [OF linked_update [OF l(1) v, of ?v]]) (use a b linkedD(1) [OF l(1)] in auto)
  have bytes: "bytes_of (seg_node s) ce_data (active_lru s) = length (ce_data v) + bytes_of (seg_node s) ce_data (butlast (active_lru s))"
    using bytes_of_remove1 [where node = "seg_node s" and data_of = ce_data, OF b(1) v] last_remove1 [OF l(6) ne] by simp
  have held: "held_of ((seg_node s)(?a \<mapsto> ?v)) (entry_map s) in_cache_body \<subseteq>\<^sub>m held_of (seg_node s) (entry_map s) in_cache_body"
    using held_of_update [OF l(1) v, of ?v in_cache_body] by (simp add: in_cache_body_def)
  show "seg_shrunk R s (retire_victim ?a v s)"
    using link bytes held map a b v l(2,3,4,5)
    by (auto simp: seg_shrunk_def seg_ok_def retire_victim_def seg_held_def)
qed (simp add: retire_victim_def)

lemma forget_ok:
  assumes ok: "seg_ok R s" and ne: "history_lru s \<noteq> []"
  obtains s' where "forget_oldest s = Some s'" "seg_shrunk R s s'" "history_lru s' = butlast (history_lru s)"
proof -
  let ?a = "last (history_lru s)"
  note l = seg_okD [OF ok] and b = butlast_last_facts [OF seg_okD(7) [OF ok] ne]
  obtain e where e: "seg_node s ?a = Some e" "\<not> ce_in_cache e" "ce_data e = []" using l(3) [OF b(1)] by blast
  have notin: "?a \<notin> set (active_lru s)" "?a \<notin> set R" using l(8,10) b(1) by auto
  have rem: "remove1 ?a (active_lru s @ history_lru s @ R) = active_lru s @ butlast (history_lru s) @ R"
    using notin b last_remove1 [OF l(7) ne] by (simp add: remove1_append)
  have link: "linked (active_lru s @ butlast (history_lru s) @ R) ((seg_node s)(?a := None)) ce_key (AList.delete (ce_key e) (entry_map s))"
    using linked_erase [OF l(1) e(1)] rem by simp
  have held: "held_of ((seg_node s)(?a := None)) (AList.delete (ce_key e) (entry_map s)) in_cache_body
      \<subseteq>\<^sub>m held_of (seg_node s) (entry_map s) in_cache_body"
    using held_of_erase [OF l(1) e(1), of in_cache_body] by simp
  show ?thesis
    using link held notin b l(2,3,4,5) e(1)
    by (intro that [of "the (forget_oldest s)"])
      (auto simp: seg_shrunk_def seg_ok_def forget_oldest_def seg_held_def AList.delete_conv')
qed

lemma trim_ok:
  assumes "seg_ok R s"
  shows "\<exists>s'. trim_history s = Some s' \<and> seg_shrunk R s s' \<and> length (history_lru s') \<le> MAX_HISTORY"
  using assms
proof (induction s rule: trim_history.induct)
  case (1 s)
  show ?case
  proof (cases "length (history_lru s) > MAX_HISTORY")
    case False
    then show ?thesis using seg_shrunk_refl [OF 1(2)] by (subst trim_history.simps) simp
  next
    case True
    then have "history_lru s \<noteq> []" by auto
    then obtain s1 where s1: "forget_oldest s = Some s1" "seg_shrunk R s s1" by (rule forget_ok [OF 1(2)])
    then have "seg_ok R s1" by (simp add: seg_shrunk_def)
    from 1(1) [OF True s1(1) this] show ?thesis
      using True s1 seg_shrunk_trans by (subst trim_history.simps) fastforce
  qed
qed

lemma evict_loop_ok:
  assumes "seg_ok R s" "length (history_lru s) \<le> MAX_HISTORY"
  shows "\<exists>s'. seg_evict_loop req q s = Some s' \<and> seg_shrunk R s s' \<and> length (history_lru s') \<le> MAX_HISTORY \<and>
      (req \<le> seg_max_bytes s \<longrightarrow> seg_bytes_used s' + req \<le> seg_max_bytes s)"
  using assms
proof (induction req q s rule: seg_evict_loop.induct)
  case (1 req q s)
  show ?case
  proof (cases "seg_bytes_used s + req > seg_max_bytes s \<and> active_lru s \<noteq> []")
    case False
    then have "active_lru s = [] \<longrightarrow> seg_bytes_used s = 0" using seg_okD(4) [OF 1(3)] by auto
    then show ?thesis using False 1(4) seg_shrunk_refl [OF 1(3)] by (subst seg_evict_loop.simps) auto
  next
    case True
    let ?a = "last (active_lru s)"
    obtain v where v: "seg_node s ?a = Some v" using seg_okD(2) [OF 1(3)] True by (metis last_in_set)
    show ?thesis
    proof (cases "ce_hits v > 0 \<and> q < REQUEUE_LIMIT")
      case q: True
      note r = requeue_ok [OF 1(3) _ v]
      have sh: "seg_shrunk R s (requeue_victim ?a v s)" using r True by simp
      from 1(1) [OF True v q] sh r(2) True 1(4) show ?thesis
        using True v q seg_shrunk_trans [OF sh]
        by (subst seg_evict_loop.simps) (auto simp: seg_shrunk_def [of R s])
    next
      case q: False
      have sh: "seg_shrunk R s (retire_victim ?a v s)" using retire_ok [OF 1(3) _ v] True by simp
      then have "seg_ok R (retire_victim ?a v s)" by (simp add: seg_shrunk_def)
      then obtain s1 where s1: "trim_history (retire_victim ?a v s) = Some s1" "seg_shrunk R (retire_victim ?a v s) s1"
        "length (history_lru s1) \<le> MAX_HISTORY"
        using trim_ok by blast
      have sh1: "seg_shrunk R s s1" by (rule seg_shrunk_trans [OF sh s1(2)])
      then have "seg_ok R s1" "seg_max_bytes s1 = seg_max_bytes s" by (simp_all add: seg_shrunk_def)
      with 1(2) [OF True v q s1(1)] s1(3) show ?thesis
        using True v q s1(1) seg_shrunk_trans [OF sh1]
        by (subst seg_evict_loop.simps) auto
    qed
  qed
qed

section \<open>The operations\<close>

lemma readmit_ok:
  assumes ok: "seg_ok [it] s" and h: "length (history_lru s) \<le> MAX_HISTORY"
    and room: "seg_bytes_used s + length data \<le> seg_max_bytes s" and e: "seg_node s it = Some e"
  obtains s' where "readmit it data stamp s = Some s'" "seg_inv s'" "seg_max_bytes s' = seg_max_bytes s"
    "seg_held s' = (seg_held s)(ce_key e \<mapsto> (data, stamp))"
proof -
  let ?e = "e\<lparr>ce_data := data, ce_stamp := stamp, ce_in_cache := True, ce_hits := saturating_increment (ce_hits e)\<rparr>"
  note l = seg_okD [OF ok]
  have map: "AList.update (ce_key e) it (entry_map s) = entry_map s"
    by (rule update_same [OF linkedD(5) [OF l(1) e]])
  have notin: "it \<notin> set (active_lru s)" "it \<notin> set (history_lru s)" using l(9,10) by auto
  have link: "linked ((it # active_lru s) @ history_lru s) ((seg_node s)(it \<mapsto> ?e)) ce_key (entry_map s)"
    by (rule linked_reorder [OF linked_update [OF l(1) e, of ?e]]) (use notin linkedD(1) [OF l(1)] in auto)
  have held: "held_of ((seg_node s)(it \<mapsto> ?e)) (entry_map s) in_cache_body
      = (held_of (seg_node s) (entry_map s) in_cache_body)(ce_key e \<mapsto> (data, stamp))"
    using held_of_update [OF l(1) e, of ?e in_cache_body] by (simp add: in_cache_body_def)
  show ?thesis
    using link held notin map h room e l(2,3,4,5)
    by (intro that [of "the (readmit it data stamp s)"])
      (auto simp: readmit_def seg_inv_def seg_ok_def seg_held_def)
qed

text \<open>The common course of an overwrite and of a promotion, from the state with the node spliced out.\<close>

lemma rescue_ok:
  assumes ok: "seg_ok [it] s" and h: "length (history_lru s) \<le> MAX_HISTORY"
    and d: "length data \<le> seg_max_bytes s" and e: "seg_node s it = Some e"
  obtains s' where "do { s \<leftarrow> seg_evict_if_needed (length data) s; readmit it data stamp s } = Some s'"
    "seg_inv s'" "seg_max_bytes s' = seg_max_bytes s" "seg_held s' (ce_key e) = Some (data, stamp)"
    "seg_held s' \<subseteq>\<^sub>m (seg_held s)(ce_key e \<mapsto> (data, stamp))"
proof -
  obtain s1 where s1: "seg_evict_if_needed (length data) s = Some s1" "seg_shrunk [it] s s1"
    "length (history_lru s1) \<le> MAX_HISTORY" "seg_bytes_used s1 + length data \<le> seg_max_bytes s"
    using evict_loop_ok [OF ok h, of "length data" 0] d by (auto simp: seg_evict_if_needed_def)
  then have sh: "seg_ok [it] s1" "seg_max_bytes s1 = seg_max_bytes s" "seg_node s1 it = Some e"
    "seg_held s1 \<subseteq>\<^sub>m seg_held s"
    using e by (auto simp: seg_shrunk_def)
  obtain s' where "readmit it data stamp s1 = Some s'" "seg_inv s'" "seg_max_bytes s' = seg_max_bytes s1"
    "seg_held s' = (seg_held s1)(ce_key e \<mapsto> (data, stamp))"
    by (rule readmit_ok [OF sh(1) s1(3) s1(4) [folded sh(2)] sh(3)])
  then show ?thesis using s1(1) sh by (intro that [of s']) (auto intro: map_le_upd)
qed

lemma splice_out_active:
  assumes inv: "seg_inv s" and e: "seg_node s it = Some e" and it: "it \<in> set (active_lru s)"
  shows "seg_ok [it] (s\<lparr>seg_bytes_used := seg_bytes_used s - length (ce_data e), active_lru := remove1 it (active_lru s)\<rparr>)"
proof -
  have ok: "seg_ok [] s" using inv by (simp add: seg_inv_def)
  note l = seg_okD [OF ok]
  have "linked (remove1 it (active_lru s) @ history_lru s @ [it]) (seg_node s) ce_key (entry_map s)"
    by (rule linked_reorder [OF l(1)]) (use it l(6,7,8) in \<open>auto simp: set_remove1_eq\<close>)
  then show ?thesis
    using l(2-5,6) bytes_of_remove1 [where node = "seg_node s" and data_of = ce_data, OF it e]
    by (auto simp: seg_ok_def set_remove1_eq)
qed

lemma splice_out_history:
  assumes inv: "seg_inv s" and it: "it \<in> set (history_lru s)"
  shows "seg_ok [it] (s\<lparr>history_lru := remove1 it (history_lru s)\<rparr>)"
proof -
  have ok: "seg_ok [] s" using inv by (simp add: seg_inv_def)
  note l = seg_okD [OF ok]
  have "linked (active_lru s @ remove1 it (history_lru s) @ [it]) (seg_node s) ce_key (entry_map s)"
    by (rule linked_reorder [OF l(1)]) (use it l(6,7,8) in \<open>auto simp: set_remove1_eq\<close>)
  then show ?thesis using l(2-5,7) by (auto simp: seg_ok_def set_remove1_eq)
qed

lemma length_remove1_le: "length (remove1 a xs) \<le> length xs"
  by (simp add: length_remove1)

lemma overwrite_ok:
  assumes inv: "seg_inv s" and e: "seg_node s it = Some e" and it: "it \<in> set (active_lru s)"
    and d: "length data \<le> seg_max_bytes s"
  obtains s' where "overwrite_active it e data stamp s = Some s'"
    "seg_inv s'" "seg_max_bytes s' = seg_max_bytes s" "seg_held s' (ce_key e) = Some (data, stamp)"
    "seg_held s' \<subseteq>\<^sub>m (seg_held s)(ce_key e \<mapsto> (data, stamp))"
proof -
  let ?s = "s\<lparr>seg_bytes_used := seg_bytes_used s - length (ce_data e), active_lru := remove1 it (active_lru s)\<rparr>"
  have "length (history_lru ?s) \<le> MAX_HISTORY" using inv by (simp add: seg_inv_def)
  moreover have "length data \<le> seg_max_bytes ?s" "seg_node ?s it = Some e" using d e by simp_all
  ultimately obtain s' where s': "do { s \<leftarrow> seg_evict_if_needed (length data) ?s; readmit it data stamp s } = Some s'"
    "seg_inv s'" "seg_max_bytes s' = seg_max_bytes ?s" "seg_held s' (ce_key e) = Some (data, stamp)"
    "seg_held s' \<subseteq>\<^sub>m (seg_held ?s)(ce_key e \<mapsto> (data, stamp))"
    by (rule rescue_ok [OF splice_out_active [OF inv e it]])
  then show ?thesis using it by (intro that [of s']) (simp_all add: overwrite_active_def seg_held_def)
qed

lemma promote_ok:
  assumes inv: "seg_inv s" and e: "seg_node s it = Some e" and it: "it \<in> set (history_lru s)"
    and d: "length data \<le> seg_max_bytes s"
  obtains s' where "promote_from_history it data stamp s = Some s'"
    "seg_inv s'" "seg_max_bytes s' = seg_max_bytes s" "seg_held s' (ce_key e) = Some (data, stamp)"
    "seg_held s' \<subseteq>\<^sub>m (seg_held s)(ce_key e \<mapsto> (data, stamp))"
proof -
  let ?s = "s\<lparr>history_lru := remove1 it (history_lru s)\<rparr>"
  have "length (history_lru ?s) \<le> MAX_HISTORY"
    using inv length_remove1_le [of it "history_lru s"] by (simp add: seg_inv_def)
  moreover have "length data \<le> seg_max_bytes ?s" "seg_node ?s it = Some e" using d e by simp_all
  ultimately obtain s' where s': "do { s \<leftarrow> seg_evict_if_needed (length data) ?s; readmit it data stamp s } = Some s'"
    "seg_inv s'" "seg_max_bytes s' = seg_max_bytes ?s" "seg_held s' (ce_key e) = Some (data, stamp)"
    "seg_held s' \<subseteq>\<^sub>m (seg_held ?s)(ce_key e \<mapsto> (data, stamp))"
    by (rule rescue_ok [OF splice_out_history [OF inv it]])
  then show ?thesis using it by (intro that [of s']) (simp_all add: promote_from_history_def seg_held_def)
qed

lemma insert_ok:
  assumes inv: "seg_inv s" and k: "map_of (entry_map s) rk = None" and d: "length data \<le> seg_max_bytes s"
    and new: "seg_node s new = None" and seen: "check_seen rk s"
  obtains s' where "seg_put rk data True stamp new s = Some (True, s')"
    "seg_inv s'" "seg_max_bytes s' = seg_max_bytes s" "seg_held s' rk = Some (data, stamp)"
    "seg_held s' \<subseteq>\<^sub>m (seg_held s)(rk \<mapsto> (data, stamp))"
proof -
  have ok: "seg_ok [] s" "length (history_lru s) \<le> MAX_HISTORY" using inv by (auto simp: seg_inv_def)
  obtain s1 where s1: "seg_evict_if_needed (length data) s = Some s1" "seg_shrunk [] s s1"
    "length (history_lru s1) \<le> MAX_HISTORY" "seg_bytes_used s1 + length data \<le> seg_max_bytes s"
    using evict_loop_ok [OF ok, of "length data" 0] d by (auto simp: seg_evict_if_needed_def)
  define e where "e = \<lparr>ce_key = rk, ce_data = data, ce_hits = 0, ce_in_cache = True, ce_stamp = stamp\<rparr>"
  have sh: "seg_ok [] s1" "seg_max_bytes s1 = seg_max_bytes s" "seg_held s1 \<subseteq>\<^sub>m seg_held s"
    and none: "seg_node s1 new = None" "map_of (entry_map s1) (ce_key e) = None"
    using s1(2) new k by (auto simp: seg_shrunk_def map_le_def dom_def e_def)
  note l = seg_okD [OF sh(1)]
  have notin: "new \<notin> set (active_lru s1)" "new \<notin> set (history_lru s1)" using l(2,3) none(1) by force+
  define s' where "s' = s1\<lparr>seg_node := (seg_node s1)(new \<mapsto> e), active_lru := new # active_lru s1,
      entry_map := AList.update rk new (entry_map s1), seg_bytes_used := seg_bytes_used s1 + length data\<rparr>"
  have "seg_inv s'"
    using linked_insert [OF l(1) none] l(2-5) notin s1(3,4) sh(2)
    by (auto simp: seg_inv_def seg_ok_def s'_def e_def)
  moreover have "seg_held s' = (seg_held s1)(rk \<mapsto> (data, stamp))"
    using held_of_insert [OF l(1) none, of in_cache_body] by (simp add: seg_held_def s'_def e_def in_cache_body_def)
  moreover have "seg_put rk data True stamp new s = Some (True, s')"
    using k d s1(1) seen by (simp add: seg_put_def s'_def e_def)
  ultimately show ?thesis using that [of s'] sh by (auto simp: s'_def intro: map_le_upd)
qed

lemma seg_held_hit:
  assumes "seg_ok R s" "seg_node s a = Some e"
  shows "seg_ok R (s\<lparr>seg_node := (seg_node s)(a \<mapsto> e\<lparr>ce_hits := h\<rparr>)\<rparr>)"
    "seg_held (s\<lparr>seg_node := (seg_node s)(a \<mapsto> e\<lparr>ce_hits := h\<rparr>)\<rparr>) = seg_held s"
proof -
  note l = seg_okD [OF assms(1)]
  have "bytes_of ((seg_node s)(a \<mapsto> e\<lparr>ce_hits := h\<rparr>)) ce_data xs = bytes_of (seg_node s) ce_data xs" for xs
    using assms(2) by (induction xs) (simp_all add: bytes_of_def)
  then show "seg_ok R (s\<lparr>seg_node := (seg_node s)(a \<mapsto> e\<lparr>ce_hits := h\<rparr>)\<rparr>)"
    using linked_update [OF l(1) assms(2), of "e\<lparr>ce_hits := h\<rparr>"] l(2-5) l(2) [of a] l(3) [of a] assms(2)
    by (auto simp: seg_ok_def)
  show "seg_held (s\<lparr>seg_node := (seg_node s)(a \<mapsto> e\<lparr>ce_hits := h\<rparr>)\<rparr>) = seg_held s"
    using held_of_update [OF l(1) assms(2), of "e\<lparr>ce_hits := h\<rparr>" in_cache_body] held_of_node [OF l(1) assms(2), of in_cache_body]
    by (simp add: seg_held_def in_cache_body_def fun_upd_idem)
qed

lemma seg_get_ok:
  assumes inv: "seg_inv s"
  obtains s' where "seg_get rk s = Some (seg_held s rk, s')" "seg_inv s'" "seg_held s' = seg_held s"
    "seg_max_bytes s' = seg_max_bytes s"
proof (cases "map_of (entry_map s) rk")
  case None
  then show ?thesis using inv
    by (intro that [of "s\<lparr>seg_misses := seg_misses s + 1\<rparr>"])
      (simp_all add: seg_get_def seg_held_def held_of_def seg_inv_def seg_ok_def)
next
  case (Some a)
  have ok: "seg_ok [] s" using inv by (simp add: seg_inv_def)
  obtain e where e: "seg_node s a = Some e" "ce_key e = rk" by (rule seg_entry_node [OF ok Some])
  have held: "seg_held s rk = in_cache_body e" using Some e(1) by (simp add: seg_held_def held_of_def)
  let ?s = "\<lambda>h. s\<lparr>seg_node := (seg_node s)(a \<mapsto> e\<lparr>ce_hits := h\<rparr>)\<rparr>"
  show ?thesis
  proof (cases "ce_in_cache e")
    case True
    let ?s' = "?s (saturating_increment (ce_hits e))\<lparr>seg_hits := seg_hits s + 1\<rparr>"
    have "seg_inv ?s'" "seg_held ?s' = seg_held s"
      using seg_held_hit [OF ok e(1)] inv by (simp_all add: seg_inv_def seg_ok_def seg_held_def)
    then show ?thesis
      using that [of ?s'] Some e(1) held True by (simp add: seg_get_def in_cache_body_def)
  next
    case False
    then show ?thesis using inv Some e(1) held
      by (intro that [of "s\<lparr>seg_misses := seg_misses s + 1\<rparr>"])
        (simp_all add: seg_get_def in_cache_body_def seg_held_def seg_inv_def seg_ok_def)
  qed
qed

lemma seg_put_ok:
  assumes inv: "seg_inv s" and new: "seg_node s new = None"
  obtains r s' where "seg_put rk data b stamp new s = Some (r, s')" "seg_inv s'" "seg_max_bytes s' = seg_max_bytes s"
    "r \<and> seg_held s' rk = Some (data, stamp) \<and> seg_held s' \<subseteq>\<^sub>m (seg_held s)(rk \<mapsto> (data, stamp))
     \<or> \<not> r \<and> seg_held s' = seg_held s"
proof (cases "length data > seg_max_bytes s \<or> \<not> b")
  case True
  then show ?thesis using that [of False s] inv by (auto simp: seg_put_def)
next
  case False
  then have d: "length data \<le> seg_max_bytes s" "b" by auto
  have ok: "seg_ok [] s" using inv by (simp add: seg_inv_def)
  show ?thesis
  proof (cases "map_of (entry_map s) rk")
    case None
    show ?thesis
    proof (cases "check_seen rk s")
      case True
      show ?thesis
        by (rule insert_ok [OF inv None d(1) new True, of stamp]) (rule that [of True], use d(2) in auto)
    next
      case False
      have "seg_inv (mark_seen rk s)" "seg_held (mark_seen rk s) = seg_held s"
        using inv by (simp_all add: mark_seen_def seg_inv_def seg_ok_def seg_held_def)
      then show ?thesis using that [of False "mark_seen rk s"] None False d
        by (simp add: seg_put_def mark_seen_def)
    qed
  next
    case (Some a)
    obtain e where e: "seg_node s a = Some e" "ce_key e = rk" "ce_in_cache e \<Longrightarrow> a \<in> set (active_lru s)"
      "\<not> ce_in_cache e \<Longrightarrow> a \<in> set (history_lru s) \<and> ce_data e = []"
      using seg_entry_node [OF ok Some] by metis
    consider (over) "ce_in_cache e" | (promote) "\<not> ce_in_cache e" "entry_value e > average_value s \<or> ce_hits e > 0"
      | (skip) "\<not> ce_in_cache e" "\<not> (entry_value e > average_value s \<or> ce_hits e > 0)" by blast
    then show ?thesis
    proof cases
      case over
      show ?thesis
        by (rule overwrite_ok [OF inv e(1) e(3) [OF over] d(1), of stamp])
          (rule that [of True], use Some d e(1,2) over in \<open>auto simp: seg_put_def\<close>)
    next
      case promote
      show ?thesis
        by (rule promote_ok [OF inv e(1) conjunct1 [OF e(4) [OF promote(1)]] d(1), of stamp])
          (rule that [of True], use Some d e(1,2) promote in \<open>auto simp: seg_put_def\<close>)
    next
      case skip
      have "seg_inv (s\<lparr>seg_node := (seg_node s)(a \<mapsto> e\<lparr>ce_hits := h\<rparr>)\<rparr>)" for h
        using seg_held_hit(1) [OF ok e(1), of h] inv by (simp add: seg_inv_def)
      then show ?thesis
        using Some d e(1) skip seg_held_hit(2) [OF ok e(1)]
        by (intro that [of False "s\<lparr>seg_node := (seg_node s)(a \<mapsto> e\<lparr>ce_hits := saturating_increment (ce_hits e)\<rparr>)\<rparr>"])
          (auto simp: seg_put_def)
    qed
  qed
qed

lemma seg_erase_ok:
  assumes inv: "seg_inv s" and k: "map_of (entry_map s) rk = Some a"
  obtains s' where "seg_erase rk a s = Some s'" "seg_inv s'" "seg_max_bytes s' = seg_max_bytes s"
    "seg_held s' = (seg_held s)(rk := None)" "entry_map s' = AList.delete rk (entry_map s)"
proof -
  have ok: "seg_ok [] s" using inv by (simp add: seg_inv_def)
  note l = seg_okD [OF ok]
  obtain e where e: "seg_node s a = Some e" "ce_key e = rk" "ce_in_cache e \<Longrightarrow> a \<in> set (active_lru s)"
    "\<not> ce_in_cache e \<Longrightarrow> a \<in> set (history_lru s) \<and> ce_data e = []"
    using seg_entry_node [OF ok k] by metis
  have link: "linked (remove1 a (active_lru s @ history_lru s)) ((seg_node s)(a := None)) ce_key (AList.delete rk (entry_map s))"
    using linked_erase [OF l(1) e(1)] e(2) by simp
  have held: "held_of ((seg_node s)(a := None)) (AList.delete rk (entry_map s)) in_cache_body
      = (held_of (seg_node s) (entry_map s) in_cache_body)(rk := None)"
    using held_of_erase [OF l(1) e(1), of in_cache_body] e(2) by simp
  show ?thesis
  proof (cases "ce_in_cache e")
    case True
    then have a: "a \<in> set (active_lru s)" "a \<notin> set (history_lru s)" using e(3) l(8) by auto
    have "a \<notin> set (remove1 a (active_lru s))" using l(6) by simp
    then show ?thesis
      using link held True a e(1) l(2-6) inv bytes_of_remove1 [where node = "seg_node s" and data_of = ce_data, OF a(1) e(1)]
      by (intro that [of "the (seg_erase rk a s)"])
        (auto simp: seg_erase_def seg_inv_def seg_ok_def seg_held_def remove1_append set_remove1_eq)
  next
    case False
    then have a: "a \<notin> set (active_lru s)" "a \<in> set (history_lru s)" using e(4) l(8) by auto
    have "a \<notin> set (remove1 a (history_lru s))" using l(7) by simp
    then show ?thesis
      using link held False a e(1) l(2-5,7) inv length_remove1_le [of a "history_lru s"]
      by (intro that [of "the (seg_erase rk a s)"])
        (auto simp: seg_erase_def seg_inv_def seg_ok_def seg_held_def remove1_append set_remove1_eq)
  qed
qed

lemma seg_remove_ok:
  assumes inv: "seg_inv s"
  obtains r s' where "seg_remove rk s = Some (r, s')" "seg_inv s'" "seg_max_bytes s' = seg_max_bytes s"
    "seg_held s' = (seg_held s)(rk := None)"
proof (cases "map_of (entry_map s) rk")
  case None
  then show ?thesis
    using inv by (intro that [of False s]) (auto simp: seg_remove_def seg_held_def held_of_def)
next
  case (Some a)
  show ?thesis
    by (rule seg_erase_ok [OF inv Some]) (rule that [of True], use Some in \<open>auto simp: seg_remove_def\<close>)
qed

lemma seg_remove_scan_ok:
  assumes "seg_inv s" "distinct (map fst rest)" "\<And>k a. (k, a) \<in> set rest \<Longrightarrow> map_of (entry_map s) k = Some a"
  shows "\<exists>s'. seg_remove_scan c rest s = Some s' \<and> seg_inv s' \<and> seg_max_bytes s' = seg_max_bytes s \<and>
    seg_held s' = (\<lambda>k. if cache_key k = c \<and> k \<in> fst ` set rest then None else seg_held s k)"
  using assms
proof (induction rest arbitrary: s)
  case (Cons p rest)
  obtain k a where p: "p = (k, a)" by force
  show ?case
  proof (cases "cache_key k = c")
    case False
    have "(\<lambda>k'. if cache_key k' = c \<and> k' \<in> fst ` set (p # rest) then None else seg_held s k')
        = (\<lambda>k'. if cache_key k' = c \<and> k' \<in> fst ` set rest then None else seg_held s k')"
      using False by (auto simp: p)
    then show ?thesis using Cons.IH [OF Cons.prems(1)] Cons.prems(2,3) False by (simp add: p)
  next
    case True
    have k: "map_of (entry_map s) k = Some a" using Cons.prems(3) by (simp add: p)
    obtain s1 where s1: "seg_erase k a s = Some s1" "seg_inv s1" "seg_max_bytes s1 = seg_max_bytes s"
      "seg_held s1 = (seg_held s)(k := None)" "entry_map s1 = AList.delete k (entry_map s)"
      by (rule seg_erase_ok [OF Cons.prems(1) k])
    have "map_of (entry_map s1) k' = Some a'" if "(k', a') \<in> set rest" for k' a'
    proof -
      have "k' \<noteq> k" using Cons.prems(2) that by (auto simp: p image_iff)
      then show ?thesis using Cons.prems(3) [of k' a'] that s1(5) by (simp add: AList.delete_conv')
    qed
    from Cons.IH [OF s1(2) _ this] Cons.prems(2) obtain s' where s': "seg_remove_scan c rest s1 = Some s'"
      "seg_inv s'" "seg_max_bytes s' = seg_max_bytes s1"
      "seg_held s' = (\<lambda>k. if cache_key k = c \<and> k \<in> fst ` set rest then None else seg_held s1 k)"
      by (auto simp: p)
    have "seg_held s' = (\<lambda>k'. if cache_key k' = c \<and> k' \<in> fst ` set (p # rest) then None else seg_held s k')"
      using s'(4) s1(4) True by (auto simp: p)
    then show ?thesis using s' s1 True by (auto simp: p)
  qed
qed simp

lemma seg_remove_all_ok:
  assumes inv: "seg_inv s"
  obtains s' where "seg_remove_all c s = Some s'" "seg_inv s'" "seg_max_bytes s' = seg_max_bytes s"
    "seg_held s' = (\<lambda>k. if cache_key k = c then None else seg_held s k)"
proof -
  have d: "distinct (map fst (entry_map s))" using inv by (auto simp: seg_inv_def seg_ok_def linked_def)
  have "map_of (entry_map s) k = Some a" if "(k, a) \<in> set (entry_map s)" for k a
    using that d by simp
  from seg_remove_scan_ok [OF inv d this, of c]
  obtain s' where s': "seg_remove_scan c (entry_map s) s = Some s'" "seg_inv s'" "seg_max_bytes s' = seg_max_bytes s"
    "seg_held s' = (\<lambda>k. if cache_key k = c \<and> k \<in> fst ` set (entry_map s) then None else seg_held s k)"
    by blast
  have absent: "seg_held s k = None" if "k \<notin> fst ` set (entry_map s)" for k
    using that by (simp add: seg_held_def held_of_def map_of_eq_None_iff [THEN iffD2])
  show ?thesis using s' absent by (intro that [of s']) (auto simp: seg_remove_all_def)
qed

lemma seg_clear_ok:
  assumes "seg_inv s"
  shows "seg_inv (seg_clear s)" "seg_held (seg_clear s) = Map.empty" "seg_max_bytes (seg_clear s) = seg_max_bytes s"
  using assms by (auto simp: seg_inv_def seg_ok_def seg_clear_def seg_held_def)

end
