(* ===== verification/Ram_Clfus_Cache.thy ===== *)
theory Ram_Clfus_Cache
  imports Ram_Clfus_Inv
begin

text \<open>
  The segmented CLFUS cache: class \<^verbatim>\<open>RamCacheCLFUS\<close> of \<^verbatim>\<open>src/src/ram_cache/clfus.cpp\<close>.  A key is routed
  by its hash to one of a power-of-two number of segments, each with its own share of the byte
  budget.  The number of hardware threads is an argument.  Indexing past the segment vector is
  undefined behaviour, \<open>None\<close> here.
\<close>

unbundle bit_operations_syntax

section \<open>Model\<close>

definition SEEN_FILTER_SIZE :: nat where "SEEN_FILTER_SIZE = 65536"
definition MIN_SEEN_FILTER_PER_SEGMENT :: nat where "MIN_SEEN_FILTER_PER_SEGMENT = 1024"
definition MIN_SEGMENT_BYTES :: nat where "MIN_SEGMENT_BYTES = 4 * 1024 * 1024"

text \<open>\<^verbatim>\<open>std::bit_floor\<close> and \<^verbatim>\<open>std::bit_ceil\<close>.\<close>

fun bit_floor :: "nat \<Rightarrow> nat" where
  "bit_floor n = (if n < 2 then n else 2 * bit_floor (n div 2))"

definition bit_ceil :: "nat \<Rightarrow> nat" where
  "bit_ceil n = (if n \<le> 1 then 1 else 2 * bit_floor (n - 1))"

definition pick_segment_count :: "nat \<Rightarrow> nat \<Rightarrow> nat" where
  "pick_segment_count hardware_concurrency max_bytes =
     (let hw = (if hardware_concurrency = 0 then 8 else hardware_concurrency);
          by_cores = bit_ceil (min (max (2 * hw) 8) 64);
          by_budget = bit_floor (max (max_bytes div MIN_SEGMENT_BYTES) 1)
      in min by_cores by_budget)"

record RamCacheCLFUS =
  cl_max_bytes :: nat
  segments :: "Segment list"
  shard_mask :: u64

definition make_clfus :: "nat \<Rightarrow> nat \<Rightarrow> RamCacheCLFUS" where
  "make_clfus hardware_concurrency max_bytes =
     (let num_segments = pick_segment_count hardware_concurrency max_bytes;
          per_segment_bytes = max (max_bytes div num_segments) 1;
          per_segment_filter = max (SEEN_FILTER_SIZE div num_segments) MIN_SEEN_FILTER_PER_SEGMENT
      in \<lparr>cl_max_bytes = max_bytes,
          segments = map (\<lambda>i. make_segment per_segment_bytes per_segment_filter) [0 ..< num_segments],
          shard_mask = of_nat (num_segments - 1)\<rparr>)"

definition segment_index :: "CacheKey \<Rightarrow> RamCacheCLFUS \<Rightarrow> nat" where
  "segment_index key c = unat (drop_bit 33 (hash_value key * 0x9E3779B97F4A7C15) AND shard_mask c)"

definition on_segment :: "CacheKey \<Rightarrow> (Segment \<Rightarrow> ('r \<times> Segment) option) \<Rightarrow> RamCacheCLFUS \<Rightarrow> ('r \<times> RamCacheCLFUS) option" where
  "on_segment key f c =
     (let i = segment_index key c in
      if i < length (segments c)
      then do { (r, s) \<leftarrow> f (segments c ! i); Some (r, c\<lparr>segments := (segments c)[i := s]\<rparr>) }
      else None)"

definition clfus_get :: "RamCacheKey \<Rightarrow> RamCacheCLFUS \<Rightarrow> ((bytes \<times> u32) option \<times> RamCacheCLFUS) option" where
  "clfus_get rk c = on_segment (cache_key rk) (seg_get rk) c"

definition clfus_put_if :: "RamCacheKey \<Rightarrow> bytes \<Rightarrow> bool \<Rightarrow> u32 \<Rightarrow> addr \<Rightarrow> RamCacheCLFUS \<Rightarrow> (bool \<times> RamCacheCLFUS) option" where
  "clfus_put_if rk data predicate stamp new c = on_segment (cache_key rk) (seg_put rk data predicate stamp new) c"

definition clfus_remove :: "RamCacheKey \<Rightarrow> RamCacheCLFUS \<Rightarrow> (bool \<times> RamCacheCLFUS) option" where
  "clfus_remove rk c = on_segment (cache_key rk) (seg_remove rk) c"

definition clfus_remove_all :: "CacheKey \<Rightarrow> RamCacheCLFUS \<Rightarrow> (unit \<times> RamCacheCLFUS) option" where
  "clfus_remove_all key c = on_segment key (\<lambda>s. map_option (Pair ()) (seg_remove_all key s)) c"

definition clfus_clear :: "RamCacheCLFUS \<Rightarrow> RamCacheCLFUS" where
  "clfus_clear c = c\<lparr>segments := map seg_clear (segments c)\<rparr>"

definition clfus_bytes_used :: "RamCacheCLFUS \<Rightarrow> nat" where
  "clfus_bytes_used c = sum_list (map seg_bytes_used (segments c))"

definition clfus_entry_count :: "RamCacheCLFUS \<Rightarrow> nat" where
  "clfus_entry_count c = sum_list (map (\<lambda>s. length (entry_map s)) (segments c))"

definition clfus_stats :: "RamCacheCLFUS \<Rightarrow> RamCacheStats" where
  "clfus_stats c = \<lparr>st_bytes_used = clfus_bytes_used c, st_max_bytes = cl_max_bytes c,
     st_entry_count = clfus_entry_count c,
     st_hits = sum_list (map seg_hits (segments c)), st_misses = sum_list (map seg_misses (segments c)),
     st_evictions = sum_list (map seg_evictions (segments c))\<rparr>"

fun clfus_exec :: "ram_op \<Rightarrow> RamCacheCLFUS \<Rightarrow> (ram_result \<times> RamCacheCLFUS) option" where
  "clfus_exec (OpGet k t) c = map_option (apfst Got) (clfus_get k c)"
| "clfus_exec (OpPut k d b st a) c = map_option (apfst Answer) (clfus_put_if k d b st a c)"
| "clfus_exec (OpRemove k) c = map_option (apfst Answer) (clfus_remove k c)"
| "clfus_exec (OpRemoveAll key) c = map_option (apfst (\<lambda>_. Done)) (clfus_remove_all key c)"
| "clfus_exec OpClear c = Some (Done, clfus_clear c)"

section \<open>Sizes\<close>

declare bit_floor.simps [simp del]

lemma bit_floor_le: "bit_floor n \<le> n"
  by (induction n rule: bit_floor.induct) (subst bit_floor.simps, auto)

lemma bit_floor_power: "n > 0 \<Longrightarrow> \<exists>k. bit_floor n = 2 ^ k"
proof (induction n rule: bit_floor.induct)
  case (1 n)
  show ?case
  proof (cases "n < 2")
    case True
    then show ?thesis using 1(2) by (subst bit_floor.simps) (auto intro: exI [of _ 0])
  next
    case False
    then obtain k where "bit_floor (n div 2) = 2 ^ k" using 1(1) by auto
    then show ?thesis using False by (subst bit_floor.simps) (auto intro: exI [of _ "Suc k"])
  qed
qed

lemma bit_floor_bound: "n < 2 ^ Suc k \<Longrightarrow> bit_floor n \<le> 2 ^ k"
proof (induction n arbitrary: k rule: bit_floor.induct)
  case (1 n)
  show ?case
  proof (cases "n < 2")
    case True
    then have "n \<le> 1" by simp
    also have "1 \<le> (2 :: nat) ^ k" by simp
    finally show ?thesis using True by (subst bit_floor.simps) simp
  next
    case False
    with 1(2) obtain j where k: "k = Suc j" by (cases k) auto
    then have "bit_floor (n div 2) \<le> 2 ^ j" using 1 False by auto
    then show ?thesis using False k by (subst bit_floor.simps) simp
  qed
qed

lemma segment_count:
  shows "\<exists>k. pick_segment_count hw n = 2 ^ k" "pick_segment_count hw n \<le> 64"
    "pick_segment_count hw n \<le> max (n div MIN_SEGMENT_BYTES) 1" "pick_segment_count hw n > 0"
proof -
  let ?c = "min (max (2 * (if hw = 0 then 8 else hw)) 8) 64 :: nat"
  let ?b = "max (n div MIN_SEGMENT_BYTES) 1"
  have c: "8 \<le> ?c" "?c \<le> 64" by auto
  define m where "m = ?c"
  have m: "m - 1 > 0" "m - 1 < 2 ^ Suc 5" "\<not> m \<le> 1" using c by (auto simp: m_def)
  obtain i where i: "bit_floor (m - 1) = 2 ^ i" using bit_floor_power [OF m(1)] by blast
  have ceil: "bit_ceil m = 2 ^ Suc i" using m(3) i by (simp add: bit_ceil_def)
  have le: "bit_floor (m - 1) \<le> 2 ^ 5" by (rule bit_floor_bound [OF m(2)])
  have "?b > 0" by simp
  from bit_floor_power [OF this] obtain j where j: "bit_floor ?b = 2 ^ j" by blast
  have p: "pick_segment_count hw n = min (2 ^ Suc i) (2 ^ j)"
    using ceil j unfolding m_def pick_segment_count_def Let_def by metis
  then show "\<exists>k. pick_segment_count hw n = 2 ^ k" by (metis min_def)
  show "pick_segment_count hw n > 0" using p by simp
  show "pick_segment_count hw n \<le> 64" using p le i by (simp add: min_def)
  show "pick_segment_count hw n \<le> ?b" using p j bit_floor_le [of ?b] by simp
qed

lemma segment_budget: "pick_segment_count hw n * max (n div pick_segment_count hw n) 1 \<le> max n 1"
proof (cases "n div MIN_SEGMENT_BYTES = 0")
  case True
  then have "pick_segment_count hw n = 1" using segment_count(3,4) [of hw n] by simp
  then show ?thesis by simp
next
  case False
  let ?k = "pick_segment_count hw n"
  have "?k \<le> n" using segment_count(3) [of hw n] False by (metis max.absorb1 div_le_dividend le_trans less_one linorder_not_le)
  then have "1 \<le> n div ?k" using segment_count(4) [of hw n] by (simp add: div_greater_zero_iff Suc_le_eq)
  then show ?thesis by (simp add: max.absorb1 mult.commute le_max_iff_disj)
qed

section \<open>Invariant\<close>

definition clfus_inv :: "nat \<Rightarrow> RamCacheCLFUS \<Rightarrow> bool" where
  "clfus_inv budget c \<longleftrightarrow>
     segments c \<noteq> [] \<and> length (segments c) \<le> 64 \<and> shard_mask c = of_nat (length (segments c) - 1) \<and>
     (\<forall>s \<in> set (segments c). seg_inv s \<and> seg_max_bytes s = budget)"

definition clfus_held :: "RamCacheCLFUS \<Rightarrow> RamCacheKey \<Rightarrow> (bytes \<times> u32) option" where
  "clfus_held c k = seg_held (segments c ! segment_index (cache_key k) c) k"

definition clfus_free :: "RamCacheCLFUS \<Rightarrow> addr \<Rightarrow> bool" where
  "clfus_free c a \<longleftrightarrow> list_all (\<lambda>s. seg_free s a) (segments c)"

lemma segment_index_less:
  assumes "clfus_inv b c"
  shows "segment_index key c < length (segments c)"
proof -
  have "unat (shard_mask c) = length (segments c) - 1"
  proof -
    have "length (segments c) - 1 < 2 ^ 64"
      using assms unfolding clfus_inv_def by (auto intro: le_less_trans [of _ 64])
    then have "unat (of_nat (length (segments c) - 1) :: u64) = length (segments c) - 1"
      by (simp add: unat_of_nat)
    then show ?thesis using assms by (simp add: clfus_inv_def)
  qed
  moreover have "segment_index key c \<le> unat (shard_mask c)"
    unfolding segment_index_def by (rule word_le_nat_alt [THEN iffD1]) (rule word_and_le1)
  moreover have "length (segments c) > 0" using assms by (simp add: clfus_inv_def)
  ultimately show ?thesis by linarith
qed

lemma segment_index_update [simp]: "segment_index key (c\<lparr>segments := ss\<rparr>) = segment_index key c"
  by (simp add: segment_index_def)

lemma clfus_inv_update:
  assumes "clfus_inv b c" "seg_inv s" "seg_max_bytes s = b"
  shows "clfus_inv b (c\<lparr>segments := (segments c)[i := s]\<rparr>)"
  using assms set_update_subset_insert [of "segments c" i s] by (auto simp: clfus_inv_def)

text \<open>An operation on one segment, lifted: the segment's effect at the keys routed to it, none elsewhere.\<close>

lemma on_segment_ok:
  assumes inv: "clfus_inv b c"
    and f: "f (segments c ! segment_index key c) = Some (r, s')" "seg_inv s'" "seg_max_bytes s' = b"
  obtains c' where "on_segment key f c = Some (r, c')" "clfus_inv b c'"
    "\<And>k. clfus_held c' k = (if segment_index (cache_key k) c = segment_index key c then seg_held s' k else clfus_held c k)"
  using segment_index_less [OF inv, of key] f clfus_inv_update [OF inv f(2,3)]
  by (intro that [of "c\<lparr>segments := (segments c)[segment_index key c := s']\<rparr>"])
    (auto simp: on_segment_def Let_def clfus_held_def)

lemma clfus_segment:
  assumes "clfus_inv b c"
  shows "seg_inv (segments c ! segment_index key c)" "seg_max_bytes (segments c ! segment_index key c) = b"
    "clfus_free c a \<Longrightarrow> seg_node (segments c ! segment_index key c) a = None"
  using assms segment_index_less [OF assms, of key]
  by (auto simp: clfus_inv_def clfus_free_def list_all_iff seg_free_def)

lemma clfus_get_ok:
  assumes inv: "clfus_inv b c"
  obtains c' where "clfus_get k c = Some (clfus_held c k, c')" "clfus_inv b c'" "clfus_held c' = clfus_held c"
proof -
  let ?s = "segments c ! segment_index (cache_key k) c"
  obtain s' where s': "seg_get k ?s = Some (seg_held ?s k, s')" "seg_inv s'" "seg_held s' = seg_held ?s" "seg_max_bytes s' = seg_max_bytes ?s"
    by (rule seg_get_ok [OF clfus_segment(1) [OF inv]])
  obtain c' where "on_segment (cache_key k) (seg_get k) c = Some (seg_held ?s k, c')" "clfus_inv b c'"
    and h: "\<And>k'. clfus_held c' k' = (if segment_index (cache_key k') c = segment_index (cache_key k) c then seg_held s' k' else clfus_held c k')"
    using on_segment_ok [where f = "seg_get k", OF inv s'(1,2)] s'(4) clfus_segment(2) [OF inv] by metis
  moreover have "clfus_held c' = clfus_held c" using h s'(3) by (auto simp: clfus_held_def)
  ultimately show ?thesis using that by (simp add: clfus_get_def clfus_held_def)
qed

lemma clfus_put_ok:
  assumes inv: "clfus_inv b c" and new: "clfus_free c a"
  obtains r c' where "clfus_put_if k d p st a c = Some (r, c')" "clfus_inv b c'"
    "r \<and> clfus_held c' k = Some (d, st) \<and> clfus_held c' \<subseteq>\<^sub>m (clfus_held c)(k \<mapsto> (d, st)) \<or> \<not> r \<and> clfus_held c' = clfus_held c"
proof -
  let ?s = "segments c ! segment_index (cache_key k) c"
  obtain r s' where s': "seg_put k d p st a ?s = Some (r, s')" "seg_inv s'" "seg_max_bytes s' = seg_max_bytes ?s"
    "r \<and> seg_held s' k = Some (d, st) \<and> seg_held s' \<subseteq>\<^sub>m (seg_held ?s)(k \<mapsto> (d, st)) \<or> \<not> r \<and> seg_held s' = seg_held ?s"
    by (rule seg_put_ok [OF clfus_segment(1,3) [OF inv] , OF new])
  obtain c' where c': "on_segment (cache_key k) (seg_put k d p st a) c = Some (r, c')" "clfus_inv b c'"
    and h: "\<And>k'. clfus_held c' k' = (if segment_index (cache_key k') c = segment_index (cache_key k) c then seg_held s' k' else clfus_held c k')"
    using on_segment_ok [where f = "seg_put k d p st a", OF inv s'(1,2)] s'(3) clfus_segment(2) [OF inv] by metis
  have "r \<and> clfus_held c' k = Some (d, st) \<and> clfus_held c' \<subseteq>\<^sub>m (clfus_held c)(k \<mapsto> (d, st)) \<or> \<not> r \<and> clfus_held c' = clfus_held c"
    using s'(4)
  proof (elim disjE conjE)
    assume r: "r" "seg_held s' k = Some (d, st)" "seg_held s' \<subseteq>\<^sub>m (seg_held ?s)(k \<mapsto> (d, st))"
    then show ?thesis using h by (auto simp: map_le_def clfus_held_def dom_def split: if_splits)
  next
    assume "\<not> r" "seg_held s' = seg_held ?s"
    then show ?thesis using h by (auto simp: clfus_held_def)
  qed
  then show ?thesis using that c' by (simp add: clfus_put_if_def)
qed

lemma clfus_remove_ok:
  assumes inv: "clfus_inv b c"
  obtains r c' where "clfus_remove k c = Some (r, c')" "clfus_inv b c'" "clfus_held c' = (clfus_held c)(k := None)"
proof -
  let ?s = "segments c ! segment_index (cache_key k) c"
  obtain r s' where s': "seg_remove k ?s = Some (r, s')" "seg_inv s'" "seg_max_bytes s' = seg_max_bytes ?s"
    "seg_held s' = (seg_held ?s)(k := None)"
    by (rule seg_remove_ok [OF clfus_segment(1) [OF inv]])
  obtain c' where c': "on_segment (cache_key k) (seg_remove k) c = Some (r, c')" "clfus_inv b c'"
    and h: "\<And>k'. clfus_held c' k' = (if segment_index (cache_key k') c = segment_index (cache_key k) c then seg_held s' k' else clfus_held c k')"
    using on_segment_ok [where f = "seg_remove k", OF inv s'(1,2)] s'(3) clfus_segment(2) [OF inv] by metis
  have "clfus_held c' = (clfus_held c)(k := None)" using h s'(4) by (auto simp: clfus_held_def)
  then show ?thesis using that c' by (simp add: clfus_remove_def)
qed

lemma clfus_remove_all_ok:
  assumes inv: "clfus_inv b c"
  obtains c' where "clfus_remove_all key c = Some ((), c')" "clfus_inv b c'"
    "clfus_held c' = (\<lambda>k. if cache_key k = key then None else clfus_held c k)"
proof -
  let ?s = "segments c ! segment_index key c"
  obtain s' where s': "seg_remove_all key ?s = Some s'" "seg_inv s'" "seg_max_bytes s' = seg_max_bytes ?s"
    "seg_held s' = (\<lambda>k. if cache_key k = key then None else seg_held ?s k)"
    by (rule seg_remove_all_ok [OF clfus_segment(1) [OF inv]])
  let ?f = "\<lambda>s. map_option (Pair ()) (seg_remove_all key s)"
  have "?f ?s = Some ((), s')" using s'(1) by simp
  then obtain c' where c': "on_segment key ?f c = Some ((), c')" "clfus_inv b c'"
    and h: "\<And>k'. clfus_held c' k' = (if segment_index (cache_key k') c = segment_index key c then seg_held s' k' else clfus_held c k')"
    using on_segment_ok [where f = ?f, OF inv _ s'(2)] s'(3) clfus_segment(2) [OF inv] by metis
  have "clfus_held c' = (\<lambda>k. if cache_key k = key then None else clfus_held c k)"
    using h s'(4) by (auto simp: clfus_held_def)
  then show ?thesis using that c' by (simp add: clfus_remove_all_def)
qed

lemma clfus_clear_ok:
  assumes inv: "clfus_inv b c"
  shows "clfus_inv b (clfus_clear c)" "clfus_held (clfus_clear c) = Map.empty"
proof -
  show "clfus_inv b (clfus_clear c)"
    using inv seg_clear_ok by (auto simp: clfus_inv_def clfus_clear_def)
  show "clfus_held (clfus_clear c) = Map.empty"
    using segment_index_less [OF inv] clfus_segment(1) [OF inv] seg_clear_ok(2)
    by (auto simp: clfus_held_def clfus_clear_def)
qed

interpretation clfus: ram_cache "clfus_inv b" clfus_held clfus_exec clfus_free for b
proof
  fix c p
  assume inv: "clfus_inv b c" and fresh: "op_fresh clfus_free c p"
  show "\<exists>r c'. clfus_exec p c = Some (r, c') \<and> clfus_inv b c'"
  proof (cases p)
    case (OpGet k t)
    show ?thesis by (rule clfus_get_ok [OF inv, of k]) (simp add: OpGet)
  next
    case (OpPut k d pr st a)
    then have "clfus_free c a" using fresh by simp
    then show ?thesis by (rule clfus_put_ok [OF inv, of a k d pr st]) (simp add: OpPut)
  next
    case (OpRemove k)
    show ?thesis by (rule clfus_remove_ok [OF inv, of k]) (simp add: OpRemove)
  next
    case (OpRemoveAll key)
    show ?thesis by (rule clfus_remove_all_ok [OF inv, of key]) (simp add: OpRemoveAll)
  next
    case OpClear
    then show ?thesis using clfus_clear_ok(1) [OF inv] by simp
  qed
next
  fix c k t r c'
  assume inv: "clfus_inv b c" and x: "clfus_exec (OpGet k t) c = Some (r, c')"
  show "r = Got (clfus_held c k) \<and> clfus_held c' = clfus_held c"
    by (rule clfus_get_ok [OF inv, of k]) (use x in simp)
next
  fix c a k d p st r c'
  assume inv: "clfus_inv b c" and f: "clfus_free c a" and x: "clfus_exec (OpPut k d p st a) c = Some (r, c')"
  show "(r = Answer True \<and> clfus_held c' k = Some (d, st) \<and> clfus_held c' \<subseteq>\<^sub>m (clfus_held c)(k \<mapsto> (d, st)))
      \<or> (r = Answer False \<and> clfus_held c' = clfus_held c)"
    by (rule clfus_put_ok [OF inv f, of k d p st]) (use x in auto)
next
  fix c k r c'
  assume inv: "clfus_inv b c" and x: "clfus_exec (OpRemove k) c = Some (r, c')"
  show "clfus_held c' = (clfus_held c)(k := None)"
    by (rule clfus_remove_ok [OF inv, of k]) (use x in simp)
next
  fix c key r c'
  assume inv: "clfus_inv b c" and x: "clfus_exec (OpRemoveAll key) c = Some (r, c')"
  show "clfus_held c' = (\<lambda>k. if cache_key k = key then None else clfus_held c k)"
    by (rule clfus_remove_all_ok [OF inv, of key]) (use x in simp)
next
  fix c r c'
  assume "clfus_inv b c" "clfus_exec OpClear c = Some (r, c')"
  then show "clfus_held c' = Map.empty" using clfus_clear_ok(2) by auto
qed

section \<open>Properties\<close>

lemma make_clfus_inv:
  "clfus_inv (max (n div pick_segment_count hw n) 1) (make_clfus hw n)"
  "clfus_held (make_clfus hw n) = Map.empty"
proof -
  let ?k = "pick_segment_count hw n"
  have filter: "max (SEEN_FILTER_SIZE div ?k) MIN_SEEN_FILTER_PER_SEGMENT > 0"
    by (simp add: MIN_SEEN_FILTER_PER_SEGMENT_def)
  show inv: "clfus_inv (max (n div ?k) 1) (make_clfus hw n)"
    using segment_count(2,4) [of hw n] filter
    by (auto simp: clfus_inv_def make_clfus_def Let_def)
  show "clfus_held (make_clfus hw n) = Map.empty"
    using segment_index_less [OF inv] by (auto simp: clfus_held_def make_clfus_def Let_def)
qed

lemma clfus_total:
  assumes "clfus_inv b c"
  shows "clfus_bytes_used c \<le> length (segments c) * b"
proof -
  have "seg_bytes_used s \<le> b" if "s \<in> set (segments c)" for s
    using assms that by (auto simp: clfus_inv_def seg_inv_def)
  then have "sum_list (map seg_bytes_used (segments c)) \<le> sum_list (map (\<lambda>_. b) (segments c))"
    by (intro sum_list_mono) simp
  then show ?thesis by (simp add: clfus_bytes_used_def sum_list_triv)
qed

lemma on_segment_length: "on_segment key f c = Some (r, c') \<Longrightarrow> length (segments c') = length (segments c)"
  by (auto simp: on_segment_def Let_def split: if_splits bind_splits)

lemma clfus_exec_length:
  assumes "clfus_exec p c = Some (r, c')"
  shows "length (segments c') = length (segments c)"
  using assms
  by (cases p) (auto simp: clfus_get_def clfus_put_if_def clfus_remove_def clfus_remove_all_def clfus_clear_def
      dest!: on_segment_length)

lemma run_clfus_length:
  "run_ops clfus_exec c ps = Some (rs, c') \<Longrightarrow> length (segments c') = length (segments c)"
  by (induction ps arbitrary: c rs) (auto simp: clfus_exec_length split: bind_splits)



definition clfus_sample_key :: "u8 \<Rightarrow> RamCacheKey" where
  "clfus_sample_key i = \<lparr>cache_key = CacheKey (replicate 32 i), alternate_id = Original\<rparr>"

definition clfus_sample_run :: "ram_op list" where
  "clfus_sample_run = [OpPut (clfus_sample_key 1) [1, 2, 3] True 7 0, OpGet (clfus_sample_key 1) True,
     OpRemove (clfus_sample_key 1), OpClear]"



section \<open>Two corners of the scoring\<close>

text \<open>
  A counter that reached its maximum gives value zero, because the increment in \<^verbatim>\<open>value()\<close> wraps in
  32 bits: the hottest entry scores like none.
\<close>

lemma saturated_hits_score_zero: "ce_hits e = 0xFFFFFFFF \<Longrightarrow> entry_value e = 0"
  by (simp add: entry_value_def)

text \<open>
  The filter starts out as zeros, so a key whose seen tag is zero counts as seen before its first
  put, and that put is admitted.
\<close>

lemma zero_tag_admitted_at_once:
  assumes "compute_seen_tag rk = 0" and "n > 0" and "length data \<le> m"
  shows "\<exists>s. seg_put rk data True stamp a (make_segment m n) = Some (True, s)"
proof -
  have "check_seen rk (make_segment m n)"
    using assms(1,2) by (simp add: check_seen_def seen_index_def make_segment_def)
  moreover have "map_of (entry_map (make_segment m n)) rk = None" "seg_node (make_segment m n) a = None"
    by (simp_all add: make_segment_def)
  moreover have "length data \<le> seg_max_bytes (make_segment m n)" using assms(3) by simp
  ultimately obtain s where "seg_put rk data True stamp a (make_segment m n) = Some (True, s)"
    using insert_ok [OF seg_make(1) [OF assms(2)]] by metis
  then show ?thesis by blast
qed

end
