(* ===== verification/Volume_Lookup.thy ===== *)
theory Volume_Lookup
  imports Volume_Publish Ram_Lru Ram_Clfus_Cache
begin

text \<open>
  What a lookup finds when no other thread interferes: the entries of other documents are passed
  over, the first entry of the key is opened, admitted, checked and lent.
\<close>

section \<open>Access\<close>

lemma stripe_access [simp]:
  assumes "i < length (vol_stripes v)"
  shows "core i (set_core i c v) = c" "core i (set_dir i d v) = core i v" "dir_of i (set_dir i d v) = set_current_phase (s_directory_phase (core i v)) d"
    "stripe_dir (vol_stripes (set_core i c v) ! i) = stripe_dir (vol_stripes v ! i)" "stripe_dir (vol_stripes (set_dir i d v) ! i) = d"
  using assms by (simp_all add: core_def set_core_def set_dir_def dir_of_def)

lemma stripe_frame [simp]:
  "vol_disk (set_core i c v) = vol_disk v" "vol_ram (set_core i c v) = vol_ram v" "vol_disk (set_dir i d v) = vol_disk v"
  "vol_ram (set_dir i d v) = vol_ram v" "length (vol_stripes (set_core i c v)) = length (vol_stripes v)"
  "length (vol_stripes (set_dir i d v)) = length (vol_stripes v)" "vol_generation (set_core i c v) = vol_generation v"
  by (simp_all add: set_core_def set_dir_def)

lemma core_dir_frame [simp]:
  "core i (v\<lparr>vol_disk := x\<rparr>) = core i v" "core i (v\<lparr>vol_ram := r\<rparr>) = core i v" "core i (v\<lparr>vol_checksum_cache := cc\<rparr>) = core i v"
  "core i (v\<lparr>vol_revalidate_state := x64\<rparr>) = core i v" "dir_of i (v\<lparr>vol_disk := x\<rparr>) = dir_of i v" "dir_of i (v\<lparr>vol_ram := r\<rparr>) = dir_of i v"
  by (simp_all add: core_def dir_of_def)

lemma set_current_phase_simps [simp]:
  "num_buckets (set_current_phase p d) = num_buckets d" "entries (set_current_phase p d) = entries d" "bucket_at b (set_current_phase p d) = bucket_at b d"
  "bucket_idx key (set_current_phase p d) = bucket_idx key d" "dir_phase (set_current_phase p d) = p"
  "probe_all_phases key (set_current_phase p d) = probe_all_phases key d" "dir_wf (set_current_phase p d) = dir_wf d"
  "set_current_phase p (set_current_phase q d) = set_current_phase p d"
  by (simp_all add: set_current_phase_def bucket_at_def bucket_idx_def probe_all_phases_def dir_wf_def)

section \<open>The size of an entry\<close>

lemma approx_size_ge: "512 \<le> unat (approx_size e)"
proof -
  have "set_size (e_size e) (set_big (e_big e) e) = e"
  proof -
    have "w1 (set_size (e_size e) (set_big (e_big e) e)) = w1 e"
      by (rule bit_word_eqI) (auto simp: bit_set_words word_bit)
    then show ?thesis by (simp add: set_size_def set_big_def)
  qed
  moreover have "unat (e_size e) < 64" "unat (e_big e) < 4"
  proof -
    have "take_bit 6 (e_size e) = e_size e" "take_bit 2 (e_big e) = e_big e"
      by (rule bit_word_eqI; auto simp: bit_take_bit_iff word_bit)+
    then have "unat (e_size e) = take_bit 6 (unat (e_size e))" "unat (e_big e) = take_bit 2 (unat (e_big e))"
      by (metis unsigned_take_bit_eq)+
    then show "unat (e_size e) < 64" "unat (e_big e) < 4"
      using take_bit_nat_less_exp[of 6 "unat (e_size e)"] take_bit_nat_less_exp[of 2 "unat (e_big e)"] by simp_all
  qed
  ultimately have "unat (approx_size e) = Suc (unat (e_size e)) * 512 * 2 ^ unat (e_big e)"
    using approx_size_code[of "unat (e_big e)" "unat (e_size e)" e] by simp
  moreover have "Suc (unat (e_size e)) * 512 * 2 ^ unat (e_big e) \<ge> 1 * 512 * 1" by (intro mult_mono) simp_all
  ultimately show ?thesis by simp
qed

section \<open>A read on its own\<close>

text \<open>No other thread acts during the attempt, and the scan of the bucket is whole.\<close>

definition undisturbed :: "'r read_env \<Rightarrow> bool" where
  "undisturbed env \<longleftrightarrow> (\<forall>k v. re_others env k v = v) \<and> (\<forall>key d. re_scan env key d = (probe_all_phases key d, True))"

text \<open>The document an entry points at cannot be opened, or belongs to another key.\<close>

definition foreign :: "'z stripe_scheme \<Rightarrow> bytes \<Rightarrow> CacheKey \<Rightarrow> DirEntry \<Rightarrow> bool" where
  "foreign s disk key e \<longleftrightarrow>
     (case open_document (s_size s) (s_offset s + unat (e_offset e)) (unat (approx_size e)) disk of
        None \<Rightarrow> True | Some reader \<Rightarrow> reader_first_key reader \<noteq> digest key)"

lemma not_named_foreign: "\<not> names_key s disk key (e_offset e) \<Longrightarrow> foreign s disk key e"
proof (cases "open_document (s_size s) (s_offset s + unat (e_offset e)) (unat (approx_size e)) disk")
  case None
  then show ?thesis by (simp add: foreign_def)
next
  case (Some r)
  assume n: "\<not> names_key s disk key (e_offset e)"
  have "132 \<le> unat (approx_size e)" using approx_size_ge[of e] by simp
  from open_document_header[OF Some this] obtain h where
    "map_region disk (s_offset s + unat (e_offset e)) 132 = Some h" "r_valid (mapped_document_reader (s_offset s + unat (e_offset e)) h)"
    "r_doc (mapped_document_reader (s_offset s + unat (e_offset e)) h) = r_doc r" by metis
  then have "reader_first_key r \<noteq> digest key"
    using n by (simp add: names_key_def kHeaderSize_def Let_def reader_first_key_def)
  then show ?thesis using Some by (simp add: foreign_def)
qed

lemma foreign_skipped: "foreign (core i v) (vol_disk v) key e \<Longrightarrow> read_candidate cfg env i key snap e cls v = (Skip, v)"
  by (auto simp: foreign_def read_candidate_def Let_def split: option.splits)

text \<open>Entries that are turned away or foreign leave only the rejects behind.\<close>

lemma read_scan_skips:
  assumes "\<forall>e \<in> set es. classify (core i v) snap (e_offset e) (e_phase e) = kReject \<or> foreign (core i v) (vol_disk v) key e"
  obtains rs where "read_scan cfg env i key snap (es @ fs) rejects bad v = read_scan cfg env i key snap fs rs bad v"
    "\<forall>(rel, ph) \<in> set rs - set rejects. admit_position (core i v) rel ph snap = kReject"
  using assms
proof (induction es arbitrary: rejects thesis)
  case Nil
  then show ?case by simp
next
  case (Cons e es)
  show ?case
  proof (cases "classify (core i v) snap (e_offset e) (e_phase e) = kReject")
    case True
    define rj where "rj = rejects_note (unat (e_offset e)) (e_phase e) rejects"
    have new: "set rj \<subseteq> insert (unat (e_offset e), e_phase e) (set rejects)" by (auto simp: rj_def rejects_note_def)
    obtain rs where rs: "read_scan cfg env i key snap (es @ fs) rj bad v = read_scan cfg env i key snap fs rs bad v"
      "\<forall>(rel, ph) \<in> set rs - set rj. admit_position (core i v) rel ph snap = kReject"
      using Cons.IH[of rj] Cons.prems(2) by auto
    show ?thesis
      by (rule Cons.prems(1)[of rs]) (use True rs new in \<open>auto simp: rj_def[symmetric] classify_def\<close>)
  next
    case False
    then have f: "foreign (core i v) (vol_disk v) key e" using Cons.prems(2) by simp
    obtain rs where rs: "read_scan cfg env i key snap (es @ fs) rejects bad v = read_scan cfg env i key snap fs rs bad v"
      "\<forall>(rel, ph) \<in> set rs - set rejects. admit_position (core i v) rel ph snap = kReject"
      using Cons.IH[of rejects] Cons.prems(2) by auto
    show ?thesis
      by (rule Cons.prems(1)[of rs]) (use False rs foreign_skipped[OF f] in auto)
  qed
qed

text \<open>A read that meets only such entries misses.\<close>

lemma read_disk_misses:
  assumes u: "undisturbed env"
    and all: "\<forall>e \<in> set (probe_all_phases key (dir_of i v)).
      classify (core i v) (snapshot (core i v)) (e_offset e) (e_phase e) = kReject \<or> foreign (core i v) (vol_disk v) key e"
  shows "read_disk cfg env i key v = (Return (Inl NotFound), v)"
proof -
  obtain rs where rs: "read_scan cfg env i key (snapshot (core i v)) (probe_all_phases key (dir_of i v) @ []) [] False v = (Skip, rs, False, v)"
    "\<forall>(rel, ph) \<in> set rs. admit_position (core i v) rel ph (snapshot (core i v)) = kReject"
    using read_scan_skips[OF all, of cfg env "[]" "[]" False] by auto
  then have "\<not> probe_raced_publish (core i v) rs" by (auto simp: probe_raced_publish_def list_ex_iff Let_def)
  then show ?thesis using u rs(1) by (simp add: read_disk_def Let_def undisturbed_def)
qed

text \<open>Once a candidate is found behind them, the read returns it.\<close>

lemma read_disk_finds:
  assumes u: "undisturbed env" and es: "probe_all_phases key (dir_of i v) = es @ e # fs"
    and skip: "\<forall>e \<in> set es. classify (core i v) (snapshot (core i v)) (e_offset e) (e_phase e) = kReject \<or> foreign (core i v) (vol_disk v) key e"
    and cls: "cls = classify (core i v) (snapshot (core i v)) (e_offset e) (e_phase e)" "cls \<noteq> kReject"
    and found: "read_candidate cfg env i key (snapshot (core i v)) e cls v = (Found h, v')"
  shows "read_disk cfg env i key v = (Return (Inr h), record_hit cfg i key v')"
proof -
  obtain rs where "read_scan cfg env i key (snapshot (core i v)) (es @ e # fs) [] False v
      = read_scan cfg env i key (snapshot (core i v)) (e # fs) rs False v"
    using read_scan_skips[OF skip] by metis
  then have "read_scan cfg env i key (snapshot (core i v)) (probe_all_phases key (dir_of i v)) [] False v = (Found h, rs, False, v')"
    using cls found es by simp
  then show ?thesis using u by (simp add: read_disk_def Let_def undisturbed_def)
qed

section \<open>Lending\<close>

lemma acquired_still_counted:
  assumes "acquire_borrow cfg th c s = (s', t)"
  shows "borrow_still_counted t (stamp_read_lease cfg now s')"
proof -
  have "borrow_still_counted t s'"
    using assms by (auto simp: acquire_borrow_def Let_def borrow_still_counted_def set_borrow_slot_def borrow_slot_of_def
        acquire_generation no_token_def split: if_splits)
  then show ?thesis by (simp add: borrow_still_counted_def slot_of_stamp)
qed

lemma lend_found:
  assumes u: "undisturbed env" and i: "i < length (vol_stripes v)"
    and s: "intent_value (core i v) = 0" "exposure_gen (core i v) \<le> epoch"
  obtains h v' where "lend cfg env i cls rel epoch reader v = (Found h, v')"
    "rh_header h = reader_header reader" "rh_content h = reader_content reader" "rh_doc h = r_doc reader"
proof -
  obtain c t where a: "acquire_borrow (cf_lease cfg) (re_shard env) (chunk_of (core i v) rel) (core i v) = (c, t)" by force
  let ?c = "stamp_read_lease (cf_lease cfg) (steady_now_ns (re_now env)) c"
  have same: "reader_same (core i v) ?c" using acquire_same[OF a] stamp_same reader_same_trans by blast
  have "borrow_still_valid epoch t ?c"
    using acquired_still_counted[OF a] same s
    by (simp add: borrow_still_valid_def wrap_intent_set_def reader_same_def intent_value_def)
  then show thesis using that u a i by (simp add: lend_def Let_def undisturbed_def)
qed

text \<open>
  A handle lent from the file: its document was opened at some moment of the read, is servable
  and carries the key, and its borrow is still good in the state the read leaves.
\<close>

definition lent_from_disk :: "nat \<Rightarrow> CacheKey \<Rightarrow> ReadHandle \<Rightarrow> 'r vol \<Rightarrow> bool" where
  "lent_from_disk i key h v \<longleftrightarrow>
     \<not> rh_ram_hit h \<and> rh_stripe h = Some i \<and> borrow_still_valid (rh_epoch h) (rh_borrow h) (core i v) \<and>
     (\<exists>sz off n disk r. open_document sz off n disk = Some r \<and> reader_first_key r = digest key \<and> is_servable r \<and>
        rh_doc h = r_doc r \<and> rh_header h = reader_header r \<and> rh_content h = reader_content r)"

lemma lend_lent:
  assumes "lend cfg env i cls rel epoch r v = (Found h, v')"
    and "open_document sz off n disk = Some r" "reader_first_key r = digest key" "is_servable r"
  shows "lent_from_disk i key h v'"
proof -
  have "\<not> rh_ram_hit h \<and> rh_stripe h = Some i \<and> borrow_still_valid (rh_epoch h) (rh_borrow h) (core i v') \<and>
    rh_doc h = r_doc r \<and> rh_header h = reader_header r \<and> rh_content h = reader_content r"
    using assms(1) by (auto simp: lend_def Let_def core_def split: prod.splits if_splits)
  then show ?thesis using assms(2-) unfolding lent_from_disk_def by blast
qed

lemma read_candidate_lent:
  assumes "read_candidate cfg env i key snap e cls v = (Found h, v')"
  shows "lent_from_disk i key h v'"
  using assms unfolding read_candidate_def Let_def
  by (auto split: option.splits prod.splits if_splits intro: lend_lent)

lemma read_scan_lent:
  "read_scan cfg env i key snap es rejects bad v = (Found h, rejects', bad', v') \<Longrightarrow> lent_from_disk i key h v'"
  by (induction cfg env i key snap es rejects bad v rule: read_scan.induct)
    (auto simp: Let_def split: prod.splits if_splits candidate.splits intro: read_candidate_lent)

lemma read_disk_lent:
  assumes "read_disk cfg env i key v = (Return (Inr h), v')"
  shows "lent_from_disk i key h v'"
proof -
  obtain es c where "re_scan env key (dir_of i (re_others env 0 v)) = (es, c)" by force
  moreover obtain r rejects bad w where S: "read_scan cfg env i key (snapshot (core i v)) es [] False (re_others env 0 v) = (r, rejects, bad, w)"
    by (metis prod_cases4)
  ultimately have "r = Found h" "v' = record_hit cfg i key w"
    using assms by (auto simp: read_disk_def Let_def split: candidate.splits if_splits)
  then show ?thesis using read_scan_lent S by (fastforce simp: lent_from_disk_def record_hit_def core_def)
qed

lemma read_ram_hit:
  "read_ram exec cfg env i key v = Some (Some h, v') \<Longrightarrow> rh_ram_hit h"
  by (auto simp: read_ram_def Let_def split: option.splits ram_result.splits if_splits bind_splits)

lemma read_loop_lent:
  "read_loop exec cfg env i key attempt m retries bad v = Some (Inr h, v') \<Longrightarrow> \<not> rh_ram_hit h \<Longrightarrow> lent_from_disk i key h v'"
proof (induction exec cfg env i key attempt m retries bad v rule: read_loop.induct)
  case (1 exec cfg env i key attempt m retries bad v)
  obtain a w where a: "read_attempt exec cfg (env attempt) i key v = Some (a, w)" "\<not> attempt \<ge> m"
    using "1.prems"(1) by (auto simp: read_loop.simps[of exec cfg env i key attempt] split: if_splits option.splits)
  show ?case
  proof (cases a)
    case (Return r)
    then have "r = Inr h" "w = v'" using "1.prems"(1) a by (simp_all add: read_loop.simps[of exec cfg env i key attempt])
    then show ?thesis using a Return "1.prems"(2) read_disk_lent[of cfg "env attempt" i key _ h v']
        read_ram_hit[of exec cfg "env attempt" i key v h v']
      by (auto simp: read_attempt_def split: option.splits bind_splits)
  next
    case RetryPublish
    then show ?thesis using "1.IH"(1) "1.prems" a
      by (auto simp: read_loop.simps[of exec cfg env i key attempt] split: prod.splits)
  next
    case (RetryTorn b)
    then show ?thesis using "1.IH"(2) "1.prems" a by (auto simp: read_loop.simps[of exec cfg env i key attempt])
  qed
qed

section \<open>The object of a key\<close>

text \<open>
  The first entry of the key that is not turned away or foreign is of the current pass, and its
  document, with these header bytes and this content, is whole in the file.
\<close>

definition object_at :: "'z stripe_scheme \<Rightarrow> bytes \<Rightarrow> CacheKey \<Rightarrow> bytes \<Rightarrow> bytes \<Rightarrow> DirEntry \<Rightarrow> Document \<Rightarrow> bool" where
  "object_at s disk key header body e d \<longleftrightarrow>
     (let off = s_offset s + unat (e_offset e); n = 132 + length header + length body in
      classify s (snapshot s) (e_offset e) (e_phase e) = kCurrent \<and>
      volume_document (digest key) header body d \<and> write_serial d = of_nat (pass_now s) \<and> entry_binds e d \<and>
      off mod 8 = 0 \<and> subspan off n disk = serialize_to d @ header @ body \<and>
      off + unat (approx_size e) \<le> length disk \<and> off + n \<le> length disk \<and> n \<le> s_size s)"

definition holds_object :: "nat \<Rightarrow> CacheKey \<Rightarrow> bytes \<Rightarrow> bytes \<Rightarrow> 'r vol \<Rightarrow> bool" where
  "holds_object i key header body v \<longleftrightarrow>
     (\<exists>es e fs d. probe_all_phases key (dir_of i v) = es @ e # fs \<and> object_at (core i v) (vol_disk v) key header body e d \<and>
        (\<forall>x \<in> set es. classify (core i v) (snapshot (core i v)) (e_offset x) (e_phase x) = kReject \<or>
           foreign (core i v) (vol_disk v) key x))"

lemma check_crc_passes:
  assumes "verify_checksum (r_doc r) (reader_payload r)"
  obtains v' where "check_crc cfg off r v = (True, v')" "vol_stripes v' = vol_stripes v"
proof -
  have "fst (check_crc cfg off r v)" "vol_stripes (snd (check_crc cfg off r v)) = vol_stripes v"
    using assms by (simp_all add: check_crc_def Let_def split: prod.splits)
  then show thesis using that[of "snd (check_crc cfg off r v)"] by (simp add: prod_eq_iff)
qed

lemma admit_current:
  assumes "write_serial' = of_nat (pass_now s)"
  obtains epoch where "admit_document s (snapshot s) kCurrent rel write_serial' = Some epoch" "exposure_gen s \<le> epoch"
proof -
  let ?p = "exposure_gen s div (s_chunks s + 1)"
  have "exposure_gen s < (?p + 1) * (s_chunks s + 1)" using dividend_less_times_div[of "s_chunks s + 1" "exposure_gen s"]
    by (simp add: algebra_simps)
  then have "exposure_gen s \<le> exposure_threshold s ?p rel" by (simp add: exposure_threshold_def)
  then show thesis
    using assms by (intro that[of "exposure_threshold s ?p rel"])
      (simp_all add: admit_document_def stamp_admits_def expected_pass_def snapshot_simps pass_now_def Let_def)
qed

lemma object_found:
  assumes u: "undisturbed env" and i: "i < length (vol_stripes v)" and n: "intent_value (core i v) = 0"
    and o: "object_at (core i v) (vol_disk v) key header body e d"
  obtains h v' where "read_candidate cfg env i key (snapshot (core i v)) e kCurrent v = (Found h, v')"
    "rh_header h = header" "rh_content h = body"
proof -
  let ?s = "core i v"
  let ?off = "s_offset ?s + unat (e_offset e)"
  note o = o[unfolded object_at_def Let_def]
  have "132 \<le> unat (approx_size e)" using approx_size_ge[of e] by simp
  then obtain r where r: "open_document (s_size ?s) ?off (unat (approx_size e)) (vol_disk v) = Some r" "r_doc r = d"
    "reader_header r = header" "reader_content r = body" "is_servable r" "reader_first_key r = digest key"
    "verify_checksum (r_doc r) (reader_payload r)"
    using open_document_image[of "digest key" header body d ?off "vol_disk v" "unat (approx_size e)" "s_size ?s"] o by auto
  obtain epoch where a: "admit_document ?s (snapshot ?s) kCurrent (unat (e_offset e)) (write_serial d) = Some epoch"
    "exposure_gen ?s \<le> epoch" using admit_current o by blast
  obtain w where c: "check_crc cfg ?off r v = (True, w)" "vol_stripes w = vol_stripes v"
    using check_crc_passes[OF r(7)] by metis
  then have w: "i < length (vol_stripes w)" "intent_value (core i w) = 0" "exposure_gen (core i w) \<le> epoch"
    using i n a(2) by (simp_all add: core_def)
  obtain h v' where l: "lend cfg env i kCurrent (unat (e_offset e)) epoch r w = (Found h, v')"
    "rh_header h = reader_header r" "rh_content h = reader_content r"
    using lend_found[OF u w] by metis
  have "read_candidate cfg env i key (snapshot ?s) e kCurrent v = (Found h, v')"
    using r a c l(1) o unfolding read_candidate_def Let_def by simp
  then show thesis using that l r by simp
qed

lemma held_object_found:
  assumes u: "undisturbed env" and i: "i < length (vol_stripes v)" and n: "intent_value (core i v) = 0"
    and o: "holds_object i key header body v"
  obtains h v' where "read_disk cfg env i key v = (Return (Inr h), v')" "rh_header h = header" "rh_content h = body"
proof -
  obtain es e fs d where e: "probe_all_phases key (dir_of i v) = es @ e # fs" "object_at (core i v) (vol_disk v) key header body e d"
    "\<forall>x \<in> set es. classify (core i v) (snapshot (core i v)) (e_offset x) (e_phase x) = kReject \<or> foreign (core i v) (vol_disk v) key x"
    using o unfolding holds_object_def by blast
  obtain h v' where "read_candidate cfg env i key (snapshot (core i v)) e kCurrent v = (Found h, v')" "rh_header h = header" "rh_content h = body"
    using object_found[OF u i n e(2)] .
  then show thesis
    using that read_disk_finds[OF u e(1,3) refl, of cfg h v'] e(2) by (simp add: object_at_def Let_def)
qed

section \<open>Behind the RAM tier\<close>

text \<open>A volume whose RAM cache holds no copy of the key, for any RAM cache that keeps its contract.\<close>

definition ram_lacks :: "('s \<Rightarrow> bool) \<Rightarrow> ('s \<Rightarrow> RamCacheKey \<Rightarrow> (bytes \<times> u32) option) \<Rightarrow> CacheKey \<Rightarrow> 's vol \<Rightarrow> bool" where
  "ram_lacks ok held key v \<longleftrightarrow> (\<forall>r. vol_ram v = Some r \<longrightarrow> ok r \<and> held r (ram_key key) = None)"

context ram_cache
begin

lemma ram_misses:
  assumes "ram_lacks inv held key v"
  obtains r where "read_ram exec cfg env i key v = Some (None, v\<lparr>vol_ram := r\<rparr>)"
proof (cases "vol_ram v")
  case None
  then show thesis using that[of None] by (simp add: read_ram_def)
next
  case (Some r)
  then obtain x r' where g: "exec (OpGet (ram_key key) (re_try_lock env)) r = Some (x, r')"
    using safe[of r "OpGet (ram_key key) (re_try_lock env)"] assms by (auto simp: ram_lacks_def)
  then have "x = Got None" using get assms Some by (fastforce simp: ram_lacks_def)
  then show thesis using that[of "Some r'"] Some g by (simp add: read_ram_def)
qed

lemma read_of_object:
  assumes "select_stripe key v = Some i" and "i < length (vol_stripes v)" and "intent_value (core i v) = 0"
    and "ram_lacks inv held key v" and "undisturbed (env 0)" and "holds_object i key header body v"
  obtains h v' where "read_sync exec cfg env key v = Some (Inr h, v')" "rh_header h = header" "rh_content h = body" "\<not> rh_ram_hit h"
proof -
  obtain r where r: "read_ram exec cfg (env 0) i key v = Some (None, v\<lparr>vol_ram := r\<rparr>)" using ram_misses[OF assms(4)] .
  have w: "i < length (vol_stripes (v\<lparr>vol_ram := r\<rparr>))" "intent_value (core i (v\<lparr>vol_ram := r\<rparr>)) = 0"
    "holds_object i key header body (v\<lparr>vol_ram := r\<rparr>)" using assms(2,3,6) by (simp_all add: holds_object_def)
  obtain h v' where "read_disk cfg (env 0) i key (v\<lparr>vol_ram := r\<rparr>) = (Return (Inr h), v')" "rh_header h = header" "rh_content h = body"
    using held_object_found[OF assms(5) w] .
  moreover have "\<not> rh_ram_hit h" using read_disk_lent[OF calculation(1)] by (simp add: lent_from_disk_def)
  ultimately show thesis using that assms(1) r by (simp add: read_sync_def read_loop.simps read_attempt_def)
qed

lemma read_of_nothing:
  assumes "select_stripe key v = Some i" and "ram_lacks inv held key v" and "undisturbed (env 0)"
    and "\<forall>e \<in> set (probe_all_phases key (dir_of i v)).
      classify (core i v) (snapshot (core i v)) (e_offset e) (e_phase e) = kReject \<or> foreign (core i v) (vol_disk v) key e"
  shows "\<exists>v'. read_sync exec cfg env key v = Some (Inl NotFound, v')"
proof -
  obtain r where r: "read_ram exec cfg (env 0) i key v = Some (None, v\<lparr>vol_ram := r\<rparr>)" using ram_misses[OF assms(2)] .
  have "read_disk cfg (env 0) i key (v\<lparr>vol_ram := r\<rparr>) = (Return (Inl NotFound), v\<lparr>vol_ram := r\<rparr>)"
    using assms(4) by (intro read_disk_misses[OF assms(3)]) simp
  then show ?thesis using assms(1) r by (simp add: read_sync_def read_loop.simps read_attempt_def)
qed

end

end
