(* ===== verification/Volume_Commit.thy ===== *)
theory Volume_Commit
  imports Volume_Lookup
begin

text \<open>
  What a commit leaves when no other writer interferes: the reserved slot filled, the entry published,
  every other entry of the key gone, the RAM copy dropped, and the stripe well-formed again.
\<close>

section \<open>A well-formed stripe\<close>

text \<open>Which stripes the process owns: what no operation changes.\<close>

definition owners :: "'r vol \<Rightarrow> bool list" where
  "owners v = map stripe_owned (vol_stripes v)"

lemma owners_same: "owners (set_core i c v) = owners v" "owners (set_dir i d v) = owners v"
  by (cases "i < length (vol_stripes v)"; rule nth_equalityI; simp add: owners_def set_core_def set_dir_def nth_list_update)+

lemma ownersD:
  assumes "owners w = owners v"
  shows "length (vol_stripes w) = length (vol_stripes v)"
    "i < length (vol_stripes v) \<Longrightarrow> stripe_owned (vol_stripes w ! i) = stripe_owned (vol_stripes v ! i)"
proof -
  show l: "length (vol_stripes w) = length (vol_stripes v)" using arg_cong[OF assms, of length] by (simp add: owners_def)
  show "i < length (vol_stripes v) \<Longrightarrow> stripe_owned (vol_stripes w ! i) = stripe_owned (vol_stripes v ! i)"
    using arg_cong[OF assms, of "\<lambda>xs. xs ! i"] l by (simp add: owners_def)
qed

definition stripe_ok :: "nat \<Rightarrow> 'r vol \<Rightarrow> bool" where
  "stripe_ok i v \<longleftrightarrow>
     (let s = core i v; d = stripe_dir (vol_stripes v ! i) in
      i < length (vol_stripes v) \<and> volume_inv s \<and> \<not> s_use_mmap_directory s \<and> phase_ok s \<and> dir_wf d \<and>
      (\<forall>b < num_buckets d. bucket_unique (bucket_at b d)) \<and>
      s_offset s + s_size s \<le> length (vol_disk v) \<and> s_size s \<le> 2 ^ 40 \<and> s_offset s < s_data_offset s \<and>
      8 dvd s_offset s \<and> 8 dvd s_data_offset s \<and> 8 dvd s_write_pos s)"

lemma stripe_okD:
  assumes "stripe_ok i v"
  shows "i < length (vol_stripes v)" "volume_inv (core i v)" "\<not> s_use_mmap_directory (core i v)" "phase_ok (core i v)"
    "dir_wf (dir_of i v)" "\<And>b. b < num_buckets (dir_of i v) \<Longrightarrow> bucket_unique (bucket_at b (dir_of i v))"
    "s_offset (core i v) + s_size (core i v) \<le> length (vol_disk v)" "s_size (core i v) \<le> 2 ^ 40"
    "s_offset (core i v) < s_data_offset (core i v)" "8 dvd s_offset (core i v)" "8 dvd s_data_offset (core i v)"
    "8 dvd s_write_pos (core i v)" "dir_wf (stripe_dir (vol_stripes v ! i))"
  using assms by (simp_all add: stripe_ok_def Let_def dir_of_def)

lemma stripe_okI:
  assumes "stripe_ok i v" and "volume_inv c" "phase_ok c" "geom c = geom (core i v)" "8 dvd s_write_pos c" "length disk = length (vol_disk v)"
  shows "stripe_ok i ((set_core i c v)\<lparr>vol_disk := disk\<rparr>)"
  using assms geomD[OF assms(4)] stripe_okD(1)[OF assms(1)] by (simp add: stripe_ok_def Let_def core_def set_core_def)

section \<open>Publishing without interference\<close>

lemma view_scanI:
  assumes "\<forall>e \<in> set b. \<not> is_empty e \<longrightarrow> e_tag e = tag \<longrightarrow> cls (e_offset e) (e_phase e) = kReject \<or> e_offset e \<in> set seen"
    and "found \<or> (\<exists>e \<in> set b. \<not> is_empty e \<and> e_tag e = tag \<and> e_offset e = voff)"
  shows "view_scan tag voff cls seen off b found"
  using assms
proof (induction b arbitrary: found)
  case (Cons e b)
  have IH: "view_scan tag voff cls seen off b f" if "f \<or> (\<exists>e \<in> set b. \<not> is_empty e \<and> e_tag e = tag \<and> e_offset e = voff)" for f
    using Cons.IH[of f] Cons.prems(1) that by auto
  show ?case
  proof (cases "\<not> is_empty e \<and> e_tag e = tag \<and> e_offset e = voff")
    case True
    then show ?thesis using IH[of True] by simp
  next
    case False
    then have "view_scan tag voff cls seen off b found" using IH[of found] Cons.prems(2) by auto
    then show ?thesis using False Cons.prems(1) by (auto simp: list_ex_iff)
  qed
qed simp

text \<open>An election is current in the bucket it was run on.\<close>

lemma elected_view_current:
  assumes "dir_wf (dir_of i v)"
  shows "publish_view_is_current (bucket_at (bucket_idx key (dir_of i v)) (dir_of i v)) (key_tag key) (el_verified (elect key i v))
    (classify (core i v) (snapshot (core i v))) (el_seen (elect key i v)) off"
proof -
  let ?es = "writer_probe key (snapshot (core i v)) i v" and ?b = "bucket_at (bucket_idx key (dir_of i v)) (dir_of i v)"
  let ?c = "classify (core i v) (snapshot (core i v))"
  define S where "S = offsets ?es"
  have mem: "o' \<in> S \<longleftrightarrow>
      (\<exists>e \<in> set ?b. \<not> is_empty e \<and> e_tag e = key_tag key \<and> ?c (e_offset e) (e_phase e) \<noteq> kReject \<and> o' = e_offset e)" for o'
    by (auto simp: S_def writer_probe_def probe_all_phases_def scan_entries_def)
  have el: "set (el_seen (elect key i v)) = S" "el_verified (elect key i v) = kNoVerifiedEntry \<or> el_verified (elect key i v) \<in> S"
    using elect_inv_elect[OF assms, of key] unfolding elect_inv_def S_def[symmetric] by blast+
  show ?thesis unfolding publish_view_is_current_def
  proof (rule view_scanI)
    show "\<forall>e \<in> set ?b. \<not> is_empty e \<longrightarrow> e_tag e = key_tag key \<longrightarrow>
        ?c (e_offset e) (e_phase e) = kReject \<or> e_offset e \<in> set (el_seen (elect key i v))"
      unfolding el(1) mem by blast
  next
    show "(el_verified (elect key i v) = kMatchAnyTag \<or> el_verified (elect key i v) = kNoVerifiedEntry) \<or>
      (\<exists>e \<in> set ?b. \<not> is_empty e \<and> e_tag e = key_tag key \<and> e_offset e = el_verified (elect key i v))"
      using el(2) unfolding mem by metis
  qed
qed

lemma elected_offsets:
  assumes "dir_wf (dir_of i v)"
  shows "el_verified (elect key i v) \<noteq> kMatchAnyTag"
    "o' \<in> set (el_seen (elect key i v)) \<Longrightarrow> names_key (core i v) (vol_disk v) key o' \<Longrightarrow>
     o' = el_verified (elect key i v) \<or> o' \<in> set (el_clear (elect key i v))"
proof -
  define S where "S = offsets (writer_probe key (snapshot (core i v)) i v)"
  have el: "set (el_seen (elect key i v)) = S" "el_verified (elect key i v) = kNoVerifiedEntry \<or> el_verified (elect key i v) \<in> S"
      "\<forall>o' \<in> S. names_key (core i v) (vol_disk v) key o' \<longrightarrow> o' = el_verified (elect key i v) \<or> o' \<in> set (el_clear (elect key i v))"
    using elect_inv_elect[OF assms, of key] unfolding elect_inv_def S_def[symmetric] by blast+
  have "kMatchAnyTag \<notin> S" by (auto simp: S_def image_iff case_prod_beta dest: sym)
  moreover have "kNoVerifiedEntry \<noteq> kMatchAnyTag" by (simp add: kNoVerifiedEntry_def kMatchAnyTag_def)
  ultimately show "el_verified (elect key i v) \<noteq> kMatchAnyTag" using el(2) by metis
  show "o' \<in> set (el_seen (elect key i v)) \<Longrightarrow> names_key (core i v) (vol_disk v) key o' \<Longrightarrow>
     o' = el_verified (elect key i v) \<or> o' \<in> set (el_clear (elect key i v))" using el(1,3) by blast
qed

lemma current_view_inserts:
  assumes "dir_wf d" and "take_bit 40 off \<noteq> 0"
    and "publish_view_is_current (bucket_at (bucket_idx key d) d) (key_tag key) voff cls seen off"
    and "insert_admitted key off sz voff cls clr (Some seen) serial d = (res, d')"
  shows "inserted res"
proof (rule insert_admitted_cases[OF assms(1,2,4) refl])
  assume "stale res"
  then show "inserted res" using assms(3,4) by (auto simp: insert_admitted_def Let_def split: option.splits prod.splits)
qed

text \<open>The size a lookup maps for a document of n bytes: what its entry's size field is rounded to.\<close>

definition mapped_size :: "nat \<Rightarrow> nat" where
  "mapped_size n = unat (approx_size (set_approx_size (of_nat n) empty_entry))"

lemma entry_size:
  assumes "e = updated_entry off (of_nat n) serial phase e0 \<or> e = retagged_entry off (of_nat n) serial tag phase e0" and "n < 2 ^ 63"
  shows "unat (approx_size e) = mapped_size n"
proof -
  let ?e = "set_approx_size (of_nat n) (set_offset off e0)" and ?b = "big_class (of_nat n) 0"
  have e: "approx_size e = approx_size ?e"
    using assms(1) by (auto simp: updated_entry_def retagged_entry_def approx_size_def e_size_def e_big_def set_phase_def set_fill_serial_def set_tag_def set_head_def)
  have n: "unat (of_nat n :: u64) < 2 ^ 63" using assms(2) by (simp add: unsigned_of_nat take_bit_nat_eq_self)
  define k where "k = min 64 (max 1 ((unat (of_nat n :: u64) + 512 * 2 ^ ?b - 1) div (512 * 2 ^ ?b)))"
  note code = set_approx_size_nat[OF n refl k_def]
  have k: "k - 1 < 64" by (simp add: k_def)
  show ?thesis
    unfolding e mapped_size_def code(1)[of "set_offset off e0"] code(1)[of empty_entry]
      approx_size_code[OF code(2) k] by (rule refl)
qed

lemma bucket_slot_split:
  assumes "s < length b" and "\<not> is_empty (b ! s)" and "e_tag (b ! s) = tag"
  shows "scan_entries None tag b = scan_entries None tag (take s b) @ b ! s # scan_entries None tag (drop (Suc s) b)"
proof -
  have "scan_entries None tag b = scan_entries None tag (take s b @ b ! s # drop (Suc s) b)" using id_take_nth_drop[OF assms(1)] by simp
  then show ?thesis using assms by (simp add: scan_entries_def)
qed

lemma published_entry:
  assumes ok: "stripe_ok i v" and rel: "0 < rel" "rel < s_size (core i v)"
    and R: "stripe_insert key rel n (el_verified (elect key i v)) (el_clear (elect key i v)) (el_seen (elect key i v)) serial i v = (res, v')"
  obtains d' es e fs where "inserted res" "v' = set_dir i d' v" "stripe_ok i v'" "probe_all_phases key (dir_of i v') = es @ e # fs"
    "\<forall>x \<in> set (es @ fs). classify (core i v) (snapshot (core i v)) (e_offset x) (e_phase x) = kReject \<or> foreign (core i v) (vol_disk v) key x"
    "e_offset e = of_nat rel" "e_phase e = s_directory_phase (core i v)" "e_fill_serial e = serial"
    "\<exists>e0. e = updated_entry (of_nat rel) (of_nat n) serial (e_phase e) e0 \<or> e = retagged_entry (of_nat rel) (of_nat n) serial (key_tag key) (e_phase e) e0"
proof -
  let ?d = "dir_of i v" and ?el = "elect key i v" and ?cls = "classify (core i v) (snapshot (core i v))"
  let ?N = "names_key (core i v) (vol_disk v) key"
  let ?i = "bucket_idx key ?d"
  note k = stripe_okD[OF ok]
  obtain d' where ins: "insert_admitted key (of_nat rel) (of_nat n) (el_verified ?el) ?cls (el_clear ?el) (Some (el_seen ?el)) serial ?d = (res, d')"
    and v': "v' = set_dir i d' v" using R by (auto simp: stripe_insert_def dir_insert_def split: prod.splits)
  have "rel < 2 ^ 40" using rel(2) k(8) by simp
  then have u: "unat (of_nat rel :: u64) = rel" "rel < 2 ^ 40" by (simp_all add: unsigned_of_nat take_bit_nat_eq_self)
  then have off: "of_nat rel < (2 ^ 40 :: u64)" "(of_nat rel :: u64) \<noteq> 0" using rel(1) by (auto simp: word_less_nat_alt)
  have t: "take_bit 40 (of_nat rel :: u64) = of_nat rel" using off(1) by (simp add: take_bit_eq_mod mod_word_less)
  have inserted: "inserted res"
    using current_view_inserts[OF k(5) _ elected_view_current[OF k(5)] ins] t off(2) by simp
  obtain s e where s: "s < 4" "bucket_at ?i d' ! s = e" "new_entry_ok key (of_nat rel) serial (dir_phase ?d) e"
    "\<exists>e0. e = updated_entry (of_nat rel) (of_nat n) serial (dir_phase ?d) e0 \<or> e = retagged_entry (of_nat rel) (of_nat n) serial (key_tag key) (dir_phase ?d) e0"
    "dir_wf d'" "\<And>j. j < num_buckets ?d \<Longrightarrow> bucket_unique (bucket_at j ?d) \<Longrightarrow> bucket_unique (bucket_at j d')" "num_buckets d' = num_buckets ?d"
    "\<And>x i. i < 4 \<Longrightarrow> i \<noteq> s \<Longrightarrow> x = bucket_at ?i d' ! i \<Longrightarrow> \<not> is_empty x \<Longrightarrow> e_tag x = key_tag key \<Longrightarrow>
       ?cls (e_offset x) (e_phase x) \<noteq> kReject \<Longrightarrow> \<not> ?N (e_offset x)"
    using insert_leaves_one[OF k(5) k(6)[OF bucket_idx_less[OF k(5)]] off(2,1) elected_offsets(1)[OF k(5)] ins inserted, of ?N]
      elected_offsets(2)[OF k(5)] by blast
  have d': "dir_of i v' = set_current_phase (s_directory_phase (core i v)) d'" using k(1) by (simp add: v')
  have ok': "stripe_ok i v'"
    using ok s(5,6,7) k(1,6) unfolding stripe_ok_def Let_def by (simp add: v' dir_of_def)
  let ?b = "bucket_at ?i d'"
  have len: "length ?b = 4" using s(5,7) bucket_idx_less[OF k(5)] by simp
  have idx: "bucket_idx key d' = ?i" using s(7) by (simp add: bucket_idx_def)
  have e: "e_offset e = of_nat rel" "e_tag e = key_tag key" "e_phase e = s_directory_phase (core i v)" "e_fill_serial e = serial"
    using s(3) t by (simp_all add: new_entry_ok_def dir_of_def)
  have split: "probe_all_phases key (dir_of i v') = scan_entries None (key_tag key) (take s ?b) @ e # scan_entries None (key_tag key) (drop (Suc s) ?b)"
    using bucket_slot_split[of s ?b "key_tag key"] s(1,2) len e off(2) by (simp add: d' probe_all_phases_def idx is_empty_def)
  have skip: "?cls (e_offset x) (e_phase x) = kReject \<or> foreign (core i v) (vol_disk v) key x"
    if x: "x \<in> set (scan_entries None (key_tag key) (take s ?b) @ scan_entries None (key_tag key) (drop (Suc s) ?b))" for x
  proof -
    have "set (take s ?b) \<union> set (drop (Suc s) ?b) \<subseteq> {?b ! j | j. j < 4 \<and> j \<noteq> s}"
      using len by (force simp: in_set_conv_nth)
    then obtain j where j: "j < 4" "j \<noteq> s" "x = ?b ! j" "\<not> is_empty x" "e_tag x = key_tag key"
      using x unfolding scan_entries_def set_append set_filter by blast
    then show ?thesis using s(8)[of j x] not_named_foreign by blast
  qed
  show thesis
    using e s(4) skip by (intro that[OF inserted v' ok' split]) (auto simp: dir_of_def)
qed

section \<open>The reserved slot\<close>

lemma cursor_stored:
  fixes x :: nat
  shows "geom (c\<lparr>s_write_pos := x\<rparr>) = geom c" "exposure_gen (c\<lparr>s_write_pos := x\<rparr>) = exposure_gen c"
    "intent_value (c\<lparr>s_write_pos := x\<rparr>) = intent_value c" "pass_now (c\<lparr>s_write_pos := x\<rparr>) = pass_now c"
    "frontier_now (c\<lparr>s_write_pos := x\<rparr>) = frontier_now c" "geometry_wf (c\<lparr>s_write_pos := x\<rparr>) = geometry_wf c"
    "phase_ok (c\<lparr>s_write_pos := x\<rparr>) = phase_ok c"
  by (simp_all add: geom_def exposure_gen_def intent_value_def pass_now_def frontier_now_def geometry_wf_def data_start_rel_def phase_ok_def)

lemma slot_reserved:
  assumes s: "volume_inv s" "\<not> s_use_mmap_directory s" "phase_ok s" "8 dvd s_data_offset s" "8 dvd s_write_pos s" and n: "n + 7 < 2 ^ 64"
    and R: "allocate_write_slot cfg env n s = (c, Inr ws)"
  shows "geom c = geom s" "volume_inv c" "phase_ok c" "8 dvd s_write_pos c"
    "volume_inv (c\<lparr>s_write_pos := ws_new_write_pos ws\<rparr>)" "ws_new_write_pos ws = ws_write_offset ws + round_up8 n"
    "s_data_offset s \<le> ws_write_offset ws" "ws_write_offset ws + round_up8 n \<le> s_offset s + s_size s" "8 dvd ws_write_offset ws"
    "ws_pass ws = pass_now c" "\<not> ws_holds_write_lock ws" "ws_deferred_publish ws" "ws_fill_end ws \<le> s_offset s + s_size s"
proof -
  have wf: "geometry_wf s" "cursor_wf s" "intent_value s = 0" "\<not> s_retain s \<longrightarrow> pass_now s > 0 \<longrightarrow> frontier_now s = s_chunks s"
    using s(1) by (simp_all add: volume_inv_def)
  note a = allocate_some[OF wf(1-3) n R]
  note m = a(1)
  show g: "geom c = geom s" by (rule write_move_geom[OF m])
  note c = write_move_cursor[OF wf(1,2) m]
  have mv: "s_write_pos c = ws_write_offset ws" "intent_value c = 0"
    "\<not> s_retain s \<longrightarrow> frontier_now c = (if pass_now c = pass_now s then frontier_now s else s_chunks s)"
    "ws_write_offset ws = s_write_pos s \<or> ws_write_offset ws = s_data_offset s"
    using m wf(3) s(2) by (auto simp: write_move_def current_write_cursor_def)
  have gw: "geometry_wf c" using wf(1) geom_getters[OF g] by simp
  have fr: "\<not> s_retain c \<longrightarrow> pass_now c > 0 \<longrightarrow> frontier_now c = s_chunks c" using mv(3) wf(4) geomD[OF g] by auto
  show "volume_inv c" using gw c(1) mv(2) fr by (simp add: volume_inv_def)
  show "phase_ok c" by (rule allocate_phase[OF s(1,2) n s(3) R])
  show "ws_new_write_pos ws = ws_write_offset ws + round_up8 n" "ws_pass ws = pass_now c" "ws_deferred_publish ws"
    "ws_fill_end ws \<le> s_offset s + s_size s" "\<not> ws_holds_write_lock ws"
    using a s(2) by simp_all
  show d: "s_data_offset s \<le> ws_write_offset ws" "ws_write_offset ws + round_up8 n \<le> s_offset s + s_size s" using c(3,4) .
  show w: "8 dvd ws_write_offset ws" "8 dvd s_write_pos c" using mv(1,4) s(4,5) by auto
  have "cursor_wf (c\<lparr>s_write_pos := ws_new_write_pos ws\<rparr>)"
    using d a(2) geomD[OF g] s(2) by (simp add: cursor_wf_def current_write_cursor_def)
  then show "volume_inv (c\<lparr>s_write_pos := ws_new_write_pos ws\<rparr>)"
    using gw mv(2) fr by (simp add: volume_inv_def cursor_stored)
qed

section \<open>The publish step of a commit\<close>

text \<open>No other writer acts during the flush or between the election and the insert.\<close>

definition alone :: "'r commit_env \<Rightarrow> bool" where
  "alone env \<longleftrightarrow> (\<forall>v. ce_flush env v = v) \<and> (\<forall>r v. ce_before_publish env r v = v)"

lemma stripes_cong:
  assumes "vol_stripes w = vol_stripes v" and "vol_disk w = vol_disk v"
  shows "core i w = core i v" "dir_of i w = dir_of i v" "stripe_ok i w = stripe_ok i v" "elect key i w = elect key i v"
  using assms by (simp_all add: core_def dir_of_def stripe_ok_def elect_def writer_probe_def Let_def)

text \<open>What a publish does to the rest of the volume: the stripe's mark for removals, and the RAM copy.\<close>

definition ram_dropped :: "(ram_op \<Rightarrow> 'r \<Rightarrow> (ram_result \<times> 'r) option) \<Rightarrow> ram_op \<Rightarrow> 'r vol \<Rightarrow> 'r vol \<Rightarrow> bool" where
  "ram_dropped exec op v v' \<longleftrightarrow>
     (case vol_ram v of
        None \<Rightarrow> vol_ram v' = None
      | Some r \<Rightarrow> (\<exists>x r'. exec op r = Some (x, r') \<and> vol_ram v' = Some r'))"

lemma drop_ram_copies_effect:
  assumes "drop_ram_copies exec op i v = Some v'" and "i < length (vol_stripes v)"
  shows "core i v' = core i v" "dir_of i v' = dir_of i v" "stripe_ok i v' = stripe_ok i v" "vol_disk v' = vol_disk v" "ram_dropped exec op v v'"
    "owners v' = owners v"
proof -
  show "core i v' = core i v" "dir_of i v' = dir_of i v" "stripe_ok i v' = stripe_ok i v" "vol_disk v' = vol_disk v" "ram_dropped exec op v v'"
    using assms by (auto simp: drop_ram_copies_def core_def dir_of_def stripe_ok_def ram_dropped_def Let_def split: option.splits bind_splits)
  show "owners v' = owners v"
    by (rule nth_equalityI)
      (use assms in \<open>auto simp: drop_ram_copies_def owners_def nth_list_update Let_def split: option.splits bind_splits if_splits\<close>)
qed

text \<open>The first publish round lands; what is left is the RAM copy.\<close>

lemma publish_commit_lands:
  assumes ok: "stripe_ok i v" and al: "alone env" and nw: "\<not> wrapped_since (core i v) snap"
    and rel: "s_offset (core i v) < ws_write_offset ws" "ws_write_offset ws + n \<le> s_offset (core i v) + s_size (core i v)" "0 < n"
  obtains u es e fs where
    "publish_commit exec cfg env i key ws n snap v = do { v \<leftarrow> drop_ram_copies exec (OpRemove (ram_key key)) i u; Some (Inr (), v) }"
    "stripe_ok i u" "core i u = core i v" "vol_disk u = vol_disk v" "vol_ram u = vol_ram v" "owners u = owners v"
    "probe_all_phases key (dir_of i u) = es @ e # fs" "e_offset e = of_nat (ws_write_offset ws - s_offset (core i v))"
    "\<forall>x \<in> set (es @ fs). classify (core i v) (snapshot (core i v)) (e_offset x) (e_phase x) = kReject \<or> foreign (core i v) (vol_disk v) key x"
    "e_phase e = s_directory_phase (core i v)" "e_fill_serial e = ws_fill_serial ws" "unat (approx_size e) = mapped_size n"
proof -
  define w where "w = (if cf_sync_on_write cfg then v\<lparr>vol_fsyncs := vol_fsyncs v + 1\<rparr> else v)"
  have w: "vol_stripes w = vol_stripes v" "vol_disk w = vol_disk v" "vol_ram w = vol_ram v" by (simp_all add: w_def)
  note c = stripes_cong[OF w(1,2)]
  define p where "p = ws_write_offset ws - s_offset (core i v)"
  have p: "0 < p" "p < s_size (core i w)" "p + n \<le> s_size (core i v)" "n < 2 ^ 63"
    using rel stripe_okD(8)[OF ok] by (simp_all add: p_def c)
  obtain res t where U: "stripe_insert key p n (el_verified (elect key i w)) (el_clear (elect key i w)) (el_seen (elect key i w)) (ws_fill_serial ws) i w = (res, t)"
    by force
  obtain d' es e fs where e: "inserted res" "t = set_dir i d' w" "stripe_ok i t" "probe_all_phases key (dir_of i t) = es @ e # fs"
    "\<forall>x \<in> set (es @ fs). classify (core i w) (snapshot (core i w)) (e_offset x) (e_phase x) = kReject \<or> foreign (core i w) (vol_disk w) key x"
    "e_offset e = of_nat p" "e_phase e = s_directory_phase (core i w)" "e_fill_serial e = ws_fill_serial ws"
    "\<exists>e0. e = updated_entry (of_nat p) (of_nat n) (ws_fill_serial ws) (e_phase e) e0 \<or>
      e = retagged_entry (of_nat p) (of_nat n) (ws_fill_serial ws) (key_tag key) (e_phase e) e0"
    using published_entry[OF _ p(1,2) U] ok c(3) by metis
  have tw: "core i t = core i v" "vol_disk t = vol_disk v" "vol_ram t = vol_ram v" "owners t = owners v"
    using stripe_okD(1)[OF ok] w by (simp_all add: e(2) c owners_same, simp add: owners_def)
  let ?u = "count_publish res t"
  have cp: "vol_stripes ?u = vol_stripes t" "vol_disk ?u = vol_disk t" "vol_ram ?u = vol_ram t" by (simp_all add: count_publish_def)
  have loop: "publish_loop env i key p n (ws_fill_serial ws) snap kMaxStalePublishRetries 0 w = (Inr res, t)"
    using nw al U e(1) by (subst publish_loop.simps) (simp add: c alone_def Let_def)
  have fl: "(if cf_sync_on_write cfg then ce_flush env (v\<lparr>vol_fsyncs := vol_fsyncs v + 1\<rparr>) else v) = w"
    using al by (simp add: w_def alone_def)
  show thesis
  proof (rule that[of ?u])
    show "publish_commit exec cfg env i key ws n snap v = do { v \<leftarrow> drop_ram_copies exec (OpRemove (ram_key key)) i ?u; Some (Inr (), v) }"
      using rel p(3) unfolding publish_commit_def Let_def fl by (simp add: c p_def[symmetric] loop)
    show "stripe_ok i ?u" "core i ?u = core i v" "vol_disk ?u = vol_disk v" "vol_ram ?u = vol_ram v" "owners ?u = owners v"
      "probe_all_phases key (dir_of i ?u) = es @ e # fs"
      using e(3,4) tw by (simp_all add: stripes_cong[OF cp(1,2)] cp owners_def)
    show "unat (approx_size e) = mapped_size n" using e(9) entry_size[OF _ p(4)] by blast
    show "\<forall>x \<in> set (es @ fs). classify (core i v) (snapshot (core i v)) (e_offset x) (e_phase x) = kReject \<or> foreign (core i v) (vol_disk v) key x"
      "e_offset e = of_nat (ws_write_offset ws - s_offset (core i v))" "e_phase e = s_directory_phase (core i v)" "e_fill_serial e = ws_fill_serial ws"
      using e(5-8) unfolding c w(2) p_def by blast+
  qed
qed

section \<open>A commit\<close>

lemma slot_room:
  assumes ok: "stripe_ok i v" and n: "n = 132 + length header + length body" "n + 7 < 2 ^ 64" and d: "document_wf d"
    and R: "allocate_write_slot cfg env n (core i v) = (c, Inr ws)"
  shows "ws_write_offset ws + length (slot_image ws d header body) \<le> length (vol_disk v)"
proof -
  note k = stripe_okD[OF ok]
  note w = slot_reserved[OF k(2,3,4,11,12) n(2) R]
  have "ws_write_offset ws + n \<le> s_offset (core i v) + s_size (core i v)" using w(8) round_up8_ge[of n] by simp
  then show ?thesis using w(13) k(7) unfolding length_slot_image[OF d] n(1) by (auto split: if_splits)
qed

lemma slot_filled:
  assumes ok: "stripe_ok i v" and n: "n = 132 + length header + length body" "n + 7 < 2 ^ 64" and d: "document_wf d"
    and R: "allocate_write_slot cfg env n (core i v) = (c, Inr ws)"
    and F: "fill_slot_bytes ks ws (serialize_to d @ header) body (vol_disk v) = Some (fill_ok, ks', disk)"
  shows "length disk = length (vol_disk v)"
    "fill_ok \<Longrightarrow> subspan (ws_write_offset ws) n disk =
       serialize_to (d\<lparr>write_serial := ucast (of_nat (ws_pass ws) :: u64), fill_serial := ucast (ws_fill_serial ws)\<rparr>) @ header @ body"
proof -
  note room = slot_room[OF ok n d R]
  note f = fill_slot_bytes_image[OF d F room]
  show "length disk = length (vol_disk v)" using filled_length[OF f room] .
  assume fill_ok
  then have "disk = put_at (ws_write_offset ws) (slot_image ws d header body) (vol_disk v)" using f by (auto simp: filled_def)
  then have "subspan (ws_write_offset ws) (length (slot_image ws d header body)) disk = slot_image ws d header body"
    using subspan_put_at[OF room] by simp
  moreover have "subspan (ws_write_offset ws) n disk = take n (subspan (ws_write_offset ws) (length (slot_image ws d header body)) disk)"
    by (simp add: subspan_def length_slot_image[OF d] n(1) min_absorb1)
  moreover have "length (serialize_to (d\<lparr>write_serial := x, fill_serial := y\<rparr>)) = 132" for x y
    using d by (intro length_serialize_to) simp
  ultimately show "subspan (ws_write_offset ws) n disk =
       serialize_to (d\<lparr>write_serial := ucast (of_nat (ws_pass ws) :: u64), fill_serial := ucast (ws_fill_serial ws)\<rparr>) @ header @ body"
    by (simp add: slot_image_def n(1))
qed

lemma cursor_entry_current:
  assumes "volume_inv c" "phase_ok c" "\<not> s_use_mmap_directory c" and "data_start_rel c \<le> rel" "s_offset c + rel + 132 \<le> s_write_pos c"
  shows "admit_position c rel (s_directory_phase c) (snapshot c) = kCurrent"
proof -
  have wf: "geometry_wf c" "cursor_wf c" using assms(1) by (simp_all add: volume_inv_def)
  have "s_write_pos c \<le> s_offset c + s_size c" "s_offset c \<le> s_data_offset c" using wf assms(3) by (simp_all add: cursor_wf_def current_write_cursor_def geometry_wf_def)
  then have "in_data_area c rel" using assms(4,5) by (simp add: in_data_area_def Document_kHeaderSize_def)
  moreover have "rel < snap_cursor_rel (snapshot c)"
    using assms(3,5) by (simp add: snapshot_cursor[OF wf] current_write_cursor_def)
  ultimately show ?thesis
    using assms(2) by (simp add: admit_position_def snapshot_simps phase_ok_def pass_now_def)
qed

lemma commit_head_empty:
  assumes "key_wf key" and "build_head (commit_builder key header) body = []"
  shows "\<not> 132 + length header + length body < 2 ^ 32"
proof
  assume n: "132 + length header + length body < 2 ^ 32"
  let ?b = "commit_builder key header"
  have b: "b_header ?b = header" "b_enable_checksum ?b" "b_total_len ?b = 0" "length (b_key ?b) = 32"
    using assms(1) by (simp_all add: commit_builder_def DocumentBuilder_default_def key_wf_def kDigestSize_def)
  obtain d where "serialize_head ?b body = serialize_to d @ header" "document_wf d"
    using head_serialized[of ?b body] b n by auto
  then show False using assms(2) length_serialize_to[of d] by (simp add: build_head_def)
qed

lemma set_core_twice: "i < length (vol_stripes v) \<Longrightarrow> set_core i b ((set_core i a v)\<lparr>vol_disk := x\<rparr>) = (set_core i b v)\<lparr>vol_disk := x\<rparr>"
  by (simp add: set_core_def)

text \<open>How a commit is refused, and what it leaves behind.\<close>

definition refusal :: "vol_config \<Rightarrow> 'r commit_env \<Rightarrow> nat \<Rightarrow> bytes \<Rightarrow> bytes \<Rightarrow> 'r vol \<Rightarrow> cache_error \<Rightarrow> 'r vol \<Rightarrow> bool" where
  "refusal cfg env i header body v e v' \<longleftrightarrow>
     (let n = 132 + length header + length body; alloc = allocate_write_slot (cf_lease cfg) (ce_alloc env) n (core i v) in
      e = NotOwned \<and> \<not> stripe_owned (vol_stripes v ! i) \<and> v' = v \<or>
      e = InvalidArgument \<and> 2 ^ 32 \<le> n \<and> v' = v \<or>
      (\<exists>c. alloc = (c, Inl e) \<and> v' = set_core i c v) \<or>
      (\<exists>c ws data disk. e = IoError \<and> alloc = (c, Inr ws) \<and> v' = (set_core i c v)\<lparr>vol_disk := disk\<rparr> \<and>
         filled False data (ws_write_offset ws) (vol_disk v) disk \<and> ws_write_offset ws + length data \<le> length (vol_disk v)))"

text \<open>
  The two ways a commit ends: refused, with the directory and the RAM cache as they were, or handed to
  the publish step with its slot filled.
\<close>

lemma commit_write_impl_cases:
  assumes ok: "stripe_ok i v" and key: "key_wf key"
    and R: "commit_write_impl exec cfg env i key header body v = Some (r, wr, v')"
  obtains (refused) e where "r = Inl e" "wr = (0, 0)" "refusal cfg env i header body v e v'"
  | (publish) c ws d disk ks' where "volume_document (digest key) header body d" "132 + length header + length body < 2 ^ 32"
      "allocate_write_slot (cf_lease cfg) (ce_alloc env) (132 + length header + length body) (core i v) = (c, Inr ws)"
      "fill_slot_bytes (ce_pwrite env) ws (serialize_to d @ header) body (vol_disk v) = Some (True, ks', disk)"
      "publish_commit exec cfg env i key ws (132 + length header + length body) (snapshot c)
         ((set_core i (c\<lparr>s_write_pos := ws_new_write_pos ws\<rparr>) v)\<lparr>vol_disk := disk\<rparr>) = Some (r, v')"
proof -
  note k = stripe_okD[OF ok]
  let ?h = "build_head (commit_builder key header) body"
  consider (early) "\<not> stripe_owned (vol_stripes v ! i) \<or> ?h = []" | (go) "stripe_owned (vol_stripes v ! i)" "?h \<noteq> []" by blast
  then show thesis
  proof cases
    case early
    then have "wr = (0, 0)" "v' = v" "r = (if stripe_owned (vol_stripes v ! i) then Inl InvalidArgument else Inl NotOwned)"
      using R by (auto simp: commit_write_impl_def Let_def split: if_splits)
    moreover have "?h = [] \<Longrightarrow> 2 ^ 32 \<le> 132 + length header + length body" using commit_head_empty[OF key] by fastforce
    ultimately show thesis
      using refused[of InvalidArgument] refused[of NotOwned] early unfolding refusal_def Let_def
      by (cases "stripe_owned (vol_stripes v ! i)") auto
  next
    case go
    obtain d where d: "?h = serialize_to d @ header" "volume_document (digest key) header body d" "132 + length header + length body < 2 ^ 32"
      using commit_head[OF key go(2)] .
    define N where "N = 132 + length header + length body"
    have wf: "document_wf d" "N + 7 < 2 ^ 64" using d(2,3) by (simp_all add: volume_document_def N_def)
    have n: "length ?h + length body = N" using length_serialize_to[OF wf(1)] by (simp add: d(1) N_def)
    obtain c a where A: "allocate_write_slot (cf_lease cfg) (ce_alloc env) N (core i v) = (c, a)" by force
    show thesis
    proof (cases a)
      case (Inl e)
      then have "r = Inl e" "wr = (0, 0)" "v' = set_core i c v" using R go A n by (auto simp: commit_write_impl_def Let_def)
      then show thesis using refused A Inl unfolding refusal_def Let_def N_def by blast
    next
      case (Inr ws)
      note w = slot_reserved[OF k(2,3,4,11,12) wf(2) A[unfolded Inr]]
      obtain fill_ok ks' disk where F: "fill_slot_bytes (ce_pwrite env) ws ?h body (vol_disk v) = Some (fill_ok, ks', disk)"
        using R go A n Inr by (auto simp: commit_write_impl_def Let_def split: bind_splits)
      have cs: "commit_write_slot rv ws fill_ok c = (if fill_ok then c\<lparr>s_write_pos := ws_new_write_pos ws\<rparr> else c, Inr ())" for rv
        using w(11,12) by (simp add: commit_write_slot_def)
      show thesis
      proof (cases fill_ok)
        case True
        then show thesis
          using R go A n Inr F cs k(1) d publish by (auto simp: commit_write_impl_def Let_def set_core_twice N_def split: bind_splits)
      next
        case False
        then have r: "r = Inl IoError" "wr = (0, 0)" "v' = (set_core i c v)\<lparr>vol_disk := disk\<rparr>"
          using R go A n Inr F cs k(1) by (auto simp: commit_write_impl_def Let_def set_core_twice)
        note room = slot_room[OF ok N_def wf(2,1) A[unfolded Inr]]
        have "filled False (slot_image ws d header body) (ws_write_offset ws) (vol_disk v) disk"
          using fill_slot_bytes_image[OF wf(1) F[unfolded d(1)] room] False by simp
        then show thesis using refused[OF r(1,2)] r(3) A Inr room unfolding refusal_def Let_def N_def by blast
      qed
    qed
  qed
qed

lemma pass_stamp: "(ucast (of_nat p :: u64) :: u32) = of_nat p"
  by (rule bit_word_eqI) (simp add: bit_simps)

lemma slot_object:
  assumes c: "volume_inv c" "phase_ok c" "\<not> s_use_mmap_directory c" "s_write_pos c = off + round_up8 n" "s_offset c < s_data_offset c" "s_size c \<le> 2 ^ 40"
    and n: "n = 132 + length header + length body" and off: "s_data_offset c \<le> off" "off + n \<le> s_offset c + s_size c" "8 dvd off"
    and d: "volume_document (digest key) header body d" "subspan off n disk = serialize_to d @ header @ body" "write_serial d = of_nat (pass_now c)" "fill_serial d = ucast serial"
    and e: "e_offset e = of_nat (off - s_offset c)" "e_phase e = s_directory_phase c" "e_fill_serial e = serial" "unat (approx_size e) = mapped_size n"
    and room: "s_offset c + s_size c \<le> length disk" "off + mapped_size n \<le> length disk"
  shows "object_at c disk key header body e d"
proof -
  have "off - s_offset c < 2 ^ 40" using off(1,2) c(5,6) n by simp
  then have u: "unat (e_offset e) = off - s_offset c" by (simp add: e(1) unsigned_of_nat take_bit_nat_eq_self)
  then have o: "s_offset c + unat (e_offset e) = off" using off(1) c(5) by simp
  have "admit_position c (off - s_offset c) (s_directory_phase c) (snapshot c) = kCurrent"
    using c off(1) n round_up8_ge[of n] by (intro cursor_entry_current) (simp_all add: data_start_rel_def)
  then show ?thesis
    using d e(2-) off c(5) n room by (simp add: object_at_def Let_def o u classify_def entry_binds_def mod_eq_0_iff_dvd)
qed

text \<open>Every entry a lookup of the key meets is turned away or foreign.\<close>

definition unreadable :: "nat \<Rightarrow> CacheKey \<Rightarrow> 'r vol \<Rightarrow> bool" where
  "unreadable i key v \<longleftrightarrow>
     (\<forall>e \<in> set (probe_all_phases key (dir_of i v)).
        classify (core i v) (snapshot (core i v)) (e_offset e) (e_phase e) = kReject \<or> foreign (core i v) (vol_disk v) key e)"

text \<open>A commit on its own publishes the object, and the stripe stays well-formed.\<close>

lemma published_object:
  assumes ok: "stripe_ok i v" and al: "alone env" and d: "volume_document (digest key) header body d" and N: "132 + length header + length body < 2 ^ 32"
    and A: "allocate_write_slot (cf_lease cfg) (ce_alloc env) (132 + length header + length body) (core i v) = (c, Inr ws)"
    and F: "fill_slot_bytes ks ws (serialize_to d @ header) body (vol_disk v) = Some (True, ks', disk)"
  obtains u where "publish_commit exec cfg env i key ws (132 + length header + length body) (snapshot c)
         ((set_core i (c\<lparr>s_write_pos := ws_new_write_pos ws\<rparr>) v)\<lparr>vol_disk := disk\<rparr>) =
       do { v \<leftarrow> drop_ram_copies exec (OpRemove (ram_key key)) i u; Some (Inr (), v) }"
    "stripe_ok i u" "vol_ram u = vol_ram v" "owners u = owners v"
    "ws_write_offset ws + mapped_size (132 + length header + length body) \<le> length (vol_disk v) \<Longrightarrow> holds_object i key header body u"
    "length (vol_disk v) < ws_write_offset ws + mapped_size (132 + length header + length body) \<Longrightarrow> unreadable i key u"
proof -
  define n where "n = 132 + length header + length body"
  have n64: "n + 7 < 2 ^ 64" "0 < n" using N by (simp_all add: n_def)
  define c1 where "c1 = c\<lparr>s_write_pos := ws_new_write_pos ws\<rparr>"
  define w where "w = (set_core i c1 v)\<lparr>vol_disk := disk\<rparr>"
  note k = stripe_okD[OF ok]
  note a = slot_reserved[OF k(2,3,4,11,12) n64(1) A[folded n_def]]
  have wf: "document_wf d" using d by (simp add: volume_document_def)
  note f = slot_filled[OF ok n_def n64(1) wf A[folded n_def] F]
  have g: "geom c1 = geom (core i v)" using a(1) by (simp add: c1_def cursor_stored)
  have c1: "volume_inv c1" "phase_ok c1" "8 dvd s_write_pos c1" "s_write_pos c1 = ws_write_offset ws + round_up8 n" "pass_now c1 = ws_pass ws"
    using a dvd_round_up8[of n] by (simp_all add: c1_def cursor_stored)
  have w: "stripe_ok i w" "core i w = c1" "vol_disk w = disk" "vol_ram w = vol_ram v" "owners w = owners v"
    using stripe_okI[OF ok c1(1,2) g c1(3) f(1)] k(1) owners_same(1)[of i c1 v] by (simp_all add: w_def owners_def)
  have rel: "s_offset (core i w) < ws_write_offset ws" "ws_write_offset ws + n \<le> s_offset (core i w) + s_size (core i w)"
    using a(7,8) k(9) geomD[OF g] round_up8_ge[of n] by (simp_all add: w)
  have nw: "\<not> wrapped_since (core i w) (snapshot c)"
    by (simp add: w wrapped_since_def snapshot_simps c1_def cursor_stored pass_of_def)
  obtain u es e fs where e: "publish_commit exec cfg env i key ws n (snapshot c) w = do { v \<leftarrow> drop_ram_copies exec (OpRemove (ram_key key)) i u; Some (Inr (), v) }"
    "stripe_ok i u" "core i u = core i w" "vol_disk u = vol_disk w" "vol_ram u = vol_ram w" "owners u = owners w"
    "probe_all_phases key (dir_of i u) = es @ e # fs" "e_offset e = of_nat (ws_write_offset ws - s_offset (core i w))"
    "\<forall>x \<in> set (es @ fs). classify (core i w) (snapshot (core i w)) (e_offset x) (e_phase x) = kReject \<or> foreign (core i w) (vol_disk w) key x"
    "e_phase e = s_directory_phase (core i w)" "e_fill_serial e = ws_fill_serial ws" "unat (approx_size e) = mapped_size n"
    using publish_commit_lands[OF w(1) al nw rel n64(2)] .
  let ?d = "d\<lparr>write_serial := ucast (of_nat (ws_pass ws) :: u64), fill_serial := ucast (ws_fill_serial ws)\<rparr>"
  have "holds_object i key header body u" if room: "ws_write_offset ws + mapped_size n \<le> length (vol_disk v)"
  proof -
    have cg: "\<not> s_use_mmap_directory c1" "s_offset c1 < s_data_offset c1" "s_size c1 \<le> 2 ^ 40" "s_data_offset c1 \<le> ws_write_offset ws"
      "ws_write_offset ws + n \<le> s_offset c1 + s_size c1" "s_offset c1 + s_size c1 \<le> length disk" "ws_write_offset ws + mapped_size n \<le> length disk"
      using geomD[OF g] k(3,7,8,9) a(7) rel(2) room f(1) by (simp_all add: w(2))
    have ds: "volume_document (digest key) header body ?d" "write_serial ?d = of_nat (pass_now c1)" "fill_serial ?d = ucast (ws_fill_serial ws)"
      using volume_document_stamped[OF d] by (simp_all add: pass_stamp c1(5))
    have "object_at c1 disk key header body e ?d"
      by (rule slot_object[OF c1(1,2) cg(1) c1(4) cg(2,3) n_def cg(4,5) a(9) ds(1) f(2)[OF TrueI] ds(2,3) e(8,10,11,12)[unfolded w(2)] cg(6,7)])
    then show ?thesis using e(7,9) unfolding holds_object_def e(3,4) w by auto
  qed
  moreover have "unreadable i key u" if "length (vol_disk v) < ws_write_offset ws + mapped_size n"
  proof -
    have "ws_write_offset ws - s_offset c1 < 2 ^ 40" "s_offset c1 < ws_write_offset ws" using rel n64(2) geomD[OF g] k(8) w(2) by auto
    then have "s_offset c1 + unat (e_offset e) = ws_write_offset ws"
      unfolding e(8) w(2) unsigned_of_nat by (simp add: take_bit_nat_eq_self)
    moreover have "map_region disk (ws_write_offset ws) (mapped_size n) = None" using that f(1) by (simp add: map_region_none)
    ultimately have "foreign c1 disk key e" using e(12) by (simp add: foreign_def open_document_def)
    then show ?thesis using e(7,9) unfolding unreadable_def e(3,4) w by auto
  qed
  ultimately show thesis
    using that[of u] e(1,2,5,6) w(4,5) unfolding w_def[symmetric] c1_def[symmetric] n_def[symmetric] by simp
qed

text \<open>A kernel that goes on writing fills the slot.\<close>

lemma kernel_fills:
  assumes ok: "stripe_ok i v" and n: "132 + length header + length body < 2 ^ 32" and d: "document_wf d"
    and A: "allocate_write_slot cfg env (132 + length header + length body) (core i v) = (c, Inr ws)"
    and ks: "no_failure ks" "length (vol_disk v) \<le> writes ks"
  obtains ks' disk where "fill_slot_bytes ks ws (serialize_to d @ header) body (vol_disk v) = Some (True, ks', disk)"
proof -
  have "length (slot_image ws d header body) \<le> writes ks" using slot_room[OF ok refl _ d A] n ks(2) by simp
  then show thesis using fill_slot_bytes_returns[OF d ks(1)] that by metis
qed

lemma commit_reaches_publish:
  assumes ok: "stripe_ok i v" and key: "key_wf key" and ow: "stripe_owned (vol_stripes v ! i)" and n: "132 + length header + length body < 2 ^ 32"
    and A: "allocate_write_slot (cf_lease cfg) (ce_alloc env) (132 + length header + length body) (core i v) = (c, Inr ws)"
    and ks: "no_failure (ce_pwrite env)" "length (vol_disk v) \<le> writes (ce_pwrite env)"
  obtains d disk ks' wr where "volume_document (digest key) header body d"
    "fill_slot_bytes (ce_pwrite env) ws (serialize_to d @ header) body (vol_disk v) = Some (True, ks', disk)"
    "commit_write_impl exec cfg env i key header body v =
       do { (r, v') \<leftarrow> publish_commit exec cfg env i key ws (132 + length header + length body) (snapshot c)
              ((set_core i (c\<lparr>s_write_pos := ws_new_write_pos ws\<rparr>) v)\<lparr>vol_disk := disk\<rparr>);
            Some (r, wr, v') }"
proof -
  note k = stripe_okD[OF ok]
  let ?h = "build_head (commit_builder key header) body"
  have "?h \<noteq> []" using commit_head_empty[OF key] n by blast
  then obtain d where d: "?h = serialize_to d @ header" "volume_document (digest key) header body d"
    using commit_head[OF key] by metis
  have wf: "document_wf d" using d(2) by (simp add: volume_document_def)
  have l: "length ?h + length body = 132 + length header + length body" using length_serialize_to[OF wf] by (simp add: d(1))
  obtain ks' disk where F: "fill_slot_bytes (ce_pwrite env) ws ?h body (vol_disk v) = Some (True, ks', disk)"
    using kernel_fills[OF ok n wf A ks] unfolding d(1) .
  have "132 + length header + length body + 7 < 2 ^ 64" using n by simp
  note w = slot_reserved[OF k(2,3,4,11,12) this A]
  have cs: "commit_write_slot rv ws True c = (c\<lparr>s_write_pos := ws_new_write_pos ws\<rparr>, Inr ())" for rv
    using w(11,12) by (simp add: commit_write_slot_def)
  show thesis
    by (rule that[OF d(2) F[unfolded d(1)]])
      (use ow \<open>?h \<noteq> []\<close> in \<open>simp add: commit_write_impl_def Let_def l A F cs k(1) set_core_twice\<close>)
qed

lemma select_stripe_cong:
  assumes "length (vol_stripes w) = length (vol_stripes v)"
  shows "select_stripe key w = select_stripe key v"
proof -
  have "vol_stripes w = [] \<longleftrightarrow> vol_stripes v = []" using arg_cong[OF assms, of "\<lambda>n. n = 0"] by simp
  then show ?thesis using assms by (simp add: select_stripe_def)
qed

section \<open>Over a RAM cache that keeps its contract\<close>

context ram_cache
begin

lemma drop_returns:
  assumes "\<And>r. vol_ram v = Some r \<Longrightarrow> inv r" and "op = OpRemove k \<or> op = OpRemoveAll ck"
  obtains v' where "drop_ram_copies exec op i v = Some v'"
proof (cases "vol_ram v")
  case None
  then show thesis using that by (simp add: drop_ram_copies_def)
next
  case (Some r)
  then obtain x r' where "exec op r = Some (x, r')" using assms safe[of r op] by auto
  then show thesis using that Some by (simp add: drop_ram_copies_def Let_def)
qed

lemma dropped_lacks:
  assumes "\<And>r. vol_ram v = Some r \<Longrightarrow> inv r" and "ram_dropped exec op v v'" and "op = OpRemove (ram_key key) \<or> op = OpRemoveAll key"
  shows "ram_lacks inv held key v'"
proof (cases "vol_ram v")
  case None
  then show ?thesis using assms(2) by (simp add: ram_dropped_def ram_lacks_def)
next
  case (Some r)
  then obtain x r' where r: "exec op r = Some (x, r')" "vol_ram v' = Some r'" using assms(2) by (auto simp: ram_dropped_def)
  have i: "inv r" using assms(1) Some .
  have "inv r'" using safe[OF i, of op] assms(3) r(1) by auto
  moreover have "held r' (ram_key key) = None"
    using assms(3) remove[OF i, of "ram_key key" x r'] remove_all[OF i, of key x r'] r(1) by (auto simp: ram_key_def)
  ultimately show ?thesis using r(2) by (simp add: ram_lacks_def)
qed

text \<open>A granted commit on its own returns success with the object in place, or out of reach behind its rounded size.\<close>

lemma commit_lands:
  assumes ok: "stripe_ok i v" and sel: "select_stripe key v = Some i" and key: "key_wf key" and al: "alone env"
    and ram: "\<And>r. vol_ram v = Some r \<Longrightarrow> inv r" and gen: "admitted_generation g v"
    and ow: "stripe_owned (vol_stripes v ! i)" and n: "132 + length header + length body < 2 ^ 32"
    and A: "allocate_write_slot (cf_lease cfg) (ce_alloc env) (132 + length header + length body) (core i v) = (c, Inr ws)"
    and ks: "no_failure (ce_pwrite env)" "length (vol_disk v) \<le> writes (ce_pwrite env)"
  obtains v' where "commit_write exec cfg env i key header body g v = Some (Inr (), v')" "stripe_ok i v'" "ram_lacks inv held key v'"
    "select_stripe key v' = Some i" "owners v' = owners v"
    "ws_write_offset ws + mapped_size (132 + length header + length body) \<le> length (vol_disk v) \<Longrightarrow> holds_object i key header body v'"
    "length (vol_disk v) < ws_write_offset ws + mapped_size (132 + length header + length body) \<Longrightarrow> unreadable i key v'"
proof -
  obtain d disk ks' wr where d: "volume_document (digest key) header body d"
    "fill_slot_bytes (ce_pwrite env) ws (serialize_to d @ header) body (vol_disk v) = Some (True, ks', disk)"
    "commit_write_impl exec cfg env i key header body v =
       do { (r, v') \<leftarrow> publish_commit exec cfg env i key ws (132 + length header + length body) (snapshot c)
              ((set_core i (c\<lparr>s_write_pos := ws_new_write_pos ws\<rparr>) v)\<lparr>vol_disk := disk\<rparr>);
            Some (r, wr, v') }"
    using commit_reaches_publish[OF ok key ow n A ks] .
  obtain t where t: "publish_commit exec cfg env i key ws (132 + length header + length body) (snapshot c)
         ((set_core i (c\<lparr>s_write_pos := ws_new_write_pos ws\<rparr>) v)\<lparr>vol_disk := disk\<rparr>) =
       do { v \<leftarrow> drop_ram_copies exec (OpRemove (ram_key key)) i t; Some (Inr (), v) }"
    "stripe_ok i t" "vol_ram t = vol_ram v" "owners t = owners v"
    "ws_write_offset ws + mapped_size (132 + length header + length body) \<le> length (vol_disk v) \<Longrightarrow> holds_object i key header body t"
    "length (vol_disk v) < ws_write_offset ws + mapped_size (132 + length header + length body) \<Longrightarrow> unreadable i key t"
    using published_object[OF ok al d(1) n A d(2), of exec] by metis
  obtain w where w: "drop_ram_copies exec (OpRemove (ram_key key)) i t = Some w"
    using drop_returns[of t] ram t(3) by metis
  note f = drop_ram_copies_effect[OF w stripe_okD(1)[OF t(2)]]
  define v' where "v' = start_write_behind cfg (ce_sync_file_range_ok env) wr w"
  have b: "vol_stripes v' = vol_stripes w" "vol_disk v' = vol_disk w" "vol_ram v' = vol_ram w"
    by (simp_all add: v'_def start_write_behind_def split: option.splits)
  note c' = stripes_cong[OF b(1,2)]
  have C: "commit_write exec cfg env i key header body g v = Some (Inr (), v')"
    using gen d(3) t(1) w by (simp add: commit_write_def v'_def)
  have "ram_lacks inv held key v'" using dropped_lacks[of t] ram t(3) f(5) b(3) by (simp add: ram_lacks_def)
  moreover have ok': "stripe_ok i v'" using f(3) t(2) c'(3) by simp
  moreover have ow': "owners v' = owners v" using b(1) f(6) stripe_okD(1)[OF t(2)] t(4) by (simp add: owners_def)
  moreover have "select_stripe key v' = Some i" using sel select_stripe_cong[OF ownersD(1)[OF ow']] by simp
  moreover have "holds_object i key header body v' = holds_object i key header body t" "unreadable i key v' = unreadable i key t"
    using f c' b(2) by (simp_all add: holds_object_def unreadable_def)
  ultimately show thesis using that C t(5,6) by blast
qed

end

end
