(* ===== verification/Volume_Remove.thy ===== *)
theory Volume_Remove
  imports Volume_Commit
begin

text \<open>
  What a removal leaves: no admitted entry of the key in the directory, no copy in RAM, and the
  rest of the stripe as it was.
\<close>

section \<open>Clearing the entries\<close>

abbreviation matches :: "u16 \<Rightarrow> u64 set \<Rightarrow> DirEntry \<Rightarrow> bool" where
  "matches tag O' e \<equiv> \<not> is_empty e \<and> e_tag e = tag \<and> e_offset e \<in> O'"

abbreviation cleared :: "u16 \<Rightarrow> u64 set \<Rightarrow> DirEntry list \<Rightarrow> DirEntry list" where
  "cleared tag O' b \<equiv> map (\<lambda>e. if matches tag O' e then empty_entry else e) b"

lemma cleared_none: "\<not> (\<exists>e \<in> set b. matches tag O' e) \<Longrightarrow> cleared tag O' b = b"
  by (rule map_idI) auto

lemma clear_matching_count: "clear_matching tag off b = (b', n) \<Longrightarrow> n \<noteq> 0 \<longleftrightarrow> (\<exists>e \<in> set b. matches tag {off} e)"
  by (induction tag off b arbitrary: b' n rule: clear_matching.induct) (auto split: prod.splits if_splits)

lemma dir_remove_at_buckets:
  assumes wf: "dir_wf d" and R: "dir_remove_at key off d = (r, d')"
  shows "r \<longleftrightarrow> (\<exists>e \<in> set (bucket_at (bucket_idx key d) d). matches (key_tag key) {off} e)" "dir_wf d'" "num_buckets d' = num_buckets d"
    "b < num_buckets d \<Longrightarrow> bucket_at b d' = (if b = bucket_idx key d then cleared (key_tag key) {off} (bucket_at b d) else bucket_at b d)"
proof -
  let ?i = "bucket_idx key d"
  obtain b' n where c: "clear_matching (key_tag key) off (bucket_at ?i d) = (b', n)" by force
  note sp = clear_matching_spec[OF c] and n = clear_matching_count[OF c]
  have i: "?i < num_buckets d" by (rule bucket_idx_less[OF wf])
  have l: "length b' = 4" using sp wf i by simp
  have b': "b' = cleared (key_tag key) {off} (bucket_at ?i d)" using sp by simp
  show "r \<longleftrightarrow> (\<exists>e \<in> set (bucket_at ?i d). matches (key_tag key) {off} e)" using R c n by (auto simp: dir_remove_at_def split: if_splits)
  show "dir_wf d'" using dir_remove_at_wf[OF wf, of key off] R by simp
  show "num_buckets d' = num_buckets d"
    using R c by (auto simp: dir_remove_at_def Let_def bracket_def begin_bucket_write_def end_bucket_write_def store_bucket_def split: if_splits)
  show "bucket_at b d' = (if b = ?i then cleared (key_tag key) {off} (bucket_at b d) else bucket_at b d)" if "b < num_buckets d"
  proof (cases "n = 0")
    case True
    then have "d' = d" using R c by (simp add: dir_remove_at_def)
    then show ?thesis using True n cleared_none[of "bucket_at ?i d" "key_tag key" "{off}"] by simp
  next
    case False
    then have "bucket_at b d' = subspan (b * 4) 4 (put_at (?i * 4) b' (entries d))"
      using R c by (auto simp: dir_remove_at_def Let_def bucket_at_def bracket_def begin_bucket_write_def end_bucket_write_def store_bucket_def)
    then show ?thesis using bracket_bucket[OF wf i l that] b' by simp
  qed
qed

lemma cleared_cleared: "cleared tag A (cleared tag B b) = cleared tag (A \<union> B) b"
  by (auto simp: map_eq_conv)

lemma remove_entries_buckets:
  assumes "dir_wf d" and "remove_entries_at key offs d = (rs, d')"
  shows "dir_wf d' \<and> num_buckets d' = num_buckets d \<and> length rs = length offs \<and>
    (\<forall>b < num_buckets d. bucket_at b d' = (if b = bucket_idx key d then cleared (key_tag key) (set offs) (bucket_at b d) else bucket_at b d))"
  using assms
proof (induction key offs d arbitrary: rs d' rule: remove_entries_at.induct)
  case (1 key d)
  then show ?case using cleared_none[of _ "key_tag key" "{}"] by auto
next
  case (2 key off offs d)
  obtain r d1 where r: "dir_remove_at key off d = (r, d1)" by force
  obtain rs' where rs: "remove_entries_at key offs d1 = (rs', d')" "rs = r # rs'"
    using 2(3) r by (auto split: prod.splits)
  note s = dir_remove_at_buckets[OF 2(2) r]
  have idx: "bucket_idx key d1 = bucket_idx key d" using s(3) by (simp add: bucket_idx_def)
  show ?case
    using 2(1)[OF r[symmetric] s(2) rs(1)] s(3,4) cleared_cleared[of "key_tag key" "set offs" "{off}"] rs(2) by (simp add: idx)
qed

lemma remove_entries_found:
  assumes "dir_wf d" and "distinct offs" and "\<forall>off \<in> set offs. \<exists>e \<in> set (bucket_at (bucket_idx key d) d). matches (key_tag key) {off} e"
  shows "fst (remove_entries_at key offs d) = replicate (length offs) True"
  using assms
proof (induction key offs d rule: remove_entries_at.induct)
  case (2 key off offs d)
  let ?i = "bucket_idx key d"
  obtain r d1 where r: "dir_remove_at key off d = (r, d1)" by force
  note s = dir_remove_at_buckets[OF 2(2) r]
  have idx: "bucket_idx key d1 = ?i" using s(3) by (simp add: bucket_idx_def)
  have "r" using s(1) 2(4) by simp
  moreover have "\<forall>o' \<in> set offs. \<exists>e \<in> set (bucket_at ?i d1). matches (key_tag key) {o'} e"
  proof
    fix o' assume o: "o' \<in> set offs"
    then obtain e where "e \<in> set (bucket_at ?i d)" "matches (key_tag key) {o'} e" using 2(4) by auto
    moreover have "o' \<noteq> off" using o 2(3) by auto
    ultimately show "\<exists>e \<in> set (bucket_at ?i d1). matches (key_tag key) {o'} e"
      using s(4)[OF bucket_idx_less[OF 2(2)]] by (intro bexI[of _ e]) (auto simp: image_iff intro!: bexI[of _ e])
  qed
  ultimately show ?case using 2(1)[OF r[symmetric] s(2)] 2(3) r
    by (cases "remove_entries_at key offs d1") (simp add: idx)
qed simp

section \<open>The entries of the key\<close>

lemma distinct_scan:
  assumes "bucket_unique b"
  shows "distinct (map e_offset (scan_entries None tag b))"
proof -
  have "\<not> is_empty (b ! i) \<Longrightarrow> e_tag (b ! i) = tag \<Longrightarrow> i < length b \<Longrightarrow> j < i \<Longrightarrow> \<not> is_empty (b ! j) \<Longrightarrow> e_tag (b ! j) = tag \<Longrightarrow>
      e_offset (b ! j) \<noteq> e_offset (b ! i)" for i j
    using assms[unfolded bucket_unique_def, rule_format, of i j] by auto
  then show ?thesis
  proof (induction b rule: rev_induct)
    case (snoc x b)
    have IH: "distinct (map e_offset (scan_entries None tag b))"
    proof (rule snoc.IH)
      fix i j assume "\<not> is_empty (b ! i)" "e_tag (b ! i) = tag" "i < length b" "j < i" "\<not> is_empty (b ! j)" "e_tag (b ! j) = tag"
      then show "e_offset (b ! j) \<noteq> e_offset (b ! i)" using snoc.prems[of i j] by (simp add: nth_append)
    qed
    have "e_offset y \<noteq> e_offset x" if y: "\<not> is_empty x" "e_tag x = tag" "y \<in> set b" "\<not> is_empty y" "e_tag y = tag" for y
    proof -
      obtain j where "j < length b" "y = b ! j" using y(3) by (auto simp: in_set_conv_nth)
      then show ?thesis using snoc.prems[of "length b" j] y by (simp add: nth_append)
    qed
    then have "\<not> is_empty x \<Longrightarrow> e_tag x = tag \<Longrightarrow> e_offset x \<notin> e_offset ` set (scan_entries None tag b)"
      by (fastforce simp: scan_entries_def)
    moreover have "scan_entries None tag (b @ [x]) = scan_entries None tag b @ (if \<not> is_empty x \<and> e_tag x = tag then [x] else [])"
      by (simp add: scan_entries_def)
    ultimately show ?case using IH by simp
  qed (simp add: scan_entries_def)
qed

lemma distinct_map_filterI: "distinct (map g xs) \<Longrightarrow> distinct (map g (filter P xs))"
  by (induction xs) auto

lemma distinct_map_filter:
  "(\<And>x y. f x = Some y \<Longrightarrow> fst y = g x) \<Longrightarrow> distinct (map g xs) \<Longrightarrow> distinct (map fst (List.map_filter f xs))"
  by (induction xs) (auto simp: List.map_filter_def image_iff split: option.splits)

lemma verified_entry_iff:
  "verified_entry s disk snap key (e, cls) = None \<longleftrightarrow> foreign s disk key e"
  "verified_entry s disk snap key (e, cls) = Some y \<Longrightarrow> fst y = e_offset e"
  by (auto simp: verified_entry_def foreign_def split: option.splits if_splits)

text \<open>The offsets a removal clears are those of the admitted entries whose document carries the key.\<close>

definition found_entries :: "CacheKey \<Rightarrow> nat \<Rightarrow> 'r vol \<Rightarrow> (u64 \<times> bool) list" where
  "found_entries key i v =
     List.map_filter (verified_entry (core i v) (vol_disk v) (snapshot (core i v)) key) (writer_probe key (snapshot (core i v)) i v)"

lemma found_entries_spec:
  assumes "stripe_ok i v"
  shows "off \<in> fst ` set (found_entries key i v) \<longleftrightarrow>
      (\<exists>e \<in> set (probe_all_phases key (dir_of i v)). e_offset e = off \<and> \<not> foreign (core i v) (vol_disk v) key e \<and>
         classify (core i v) (snapshot (core i v)) (e_offset e) (e_phase e) \<noteq> kReject)"
    "distinct (map fst (found_entries key i v))"
proof -
  let ?f = "verified_entry (core i v) (vol_disk v) (snapshot (core i v)) key" and ?es = "writer_probe key (snapshot (core i v)) i v"
  have mem: "(e, cls) \<in> set ?es \<longleftrightarrow> e \<in> set (probe_all_phases key (dir_of i v)) \<and>
      cls = classify (core i v) (snapshot (core i v)) (e_offset e) (e_phase e) \<and> cls \<noteq> kReject" for e cls
    by (auto simp: writer_probe_def)
  have v: "(\<exists>y. ?f (e, cls) = Some y \<and> fst y = off) \<longleftrightarrow> e_offset e = off \<and> \<not> foreign (core i v) (vol_disk v) key e" for e cls
    using verified_entry_iff[of "core i v" "vol_disk v" "snapshot (core i v)" key e cls] by (metis not_None_eq)
  have "off \<in> fst ` set (found_entries key i v) \<longleftrightarrow> (\<exists>(e, cls) \<in> set ?es. \<exists>y. ?f (e, cls) = Some y \<and> fst y = off)"
    by (force simp: found_entries_def List.map_filter_def)
  also have "\<dots> \<longleftrightarrow> (\<exists>e \<in> set (probe_all_phases key (dir_of i v)). e_offset e = off \<and> \<not> foreign (core i v) (vol_disk v) key e \<and>
         classify (core i v) (snapshot (core i v)) (e_offset e) (e_phase e) \<noteq> kReject)"
    unfolding v by (auto simp: mem Bex_def)
  finally show "off \<in> fst ` set (found_entries key i v) \<longleftrightarrow>
      (\<exists>e \<in> set (probe_all_phases key (dir_of i v)). e_offset e = off \<and> \<not> foreign (core i v) (vol_disk v) key e \<and>
         classify (core i v) (snapshot (core i v)) (e_offset e) (e_phase e) \<noteq> kReject)" .
  have "distinct (map e_offset (probe_all_phases key (dir_of i v)))"
    using distinct_scan[OF stripe_okD(6)[OF assms bucket_idx_less[OF stripe_okD(5)[OF assms]]]] by (simp add: probe_all_phases_def)
  then have "distinct (map (\<lambda>x. e_offset (fst x)) ?es)"
    unfolding writer_probe_def by (intro distinct_map_filterI) (simp add: comp_def)
  then show "distinct (map fst (found_entries key i v))"
    unfolding found_entries_def by (rule distinct_map_filter[rotated]) (auto dest: verified_entry_iff(2))
qed

section \<open>A removal\<close>

lemma remove_sync_eq:
  assumes "select_stripe key v = Some i" and "stripe_owned (vol_stripes v ! i)"
    and "remove_entries_at key (map fst (found_entries key i v)) (dir_of i v) = (removed, d)"
  shows "remove_sync exec key v =
    (if list_ex (\<lambda>(r, l). r \<and> l) (zip removed (map snd (found_entries key i v)))
     then do { v \<leftarrow> drop_ram_copies exec (OpRemoveAll key) i (set_dir i d v); Some (Inr (), v) }
     else Some (Inl NotFound, set_dir i d v))"
  using assms by (simp add: remove_sync_def found_entries_def Let_def)

text \<open>Only entries whose document carries the key are cleared, and all those that are admitted.\<close>

lemma removed_entries:
  assumes ok: "stripe_ok i v" and R: "remove_entries_at key (map fst (found_entries key i v)) (dir_of i v) = (removed, d)"
  shows "stripe_ok i (set_dir i d v)" "unreadable i key (set_dir i d v)" "removed = replicate (length (found_entries key i v)) True"
    "e \<in> set (probe_all_phases key' (dir_of i v)) \<Longrightarrow> foreign (core i v) (vol_disk v) key e \<Longrightarrow>
       e \<in> set (probe_all_phases key' (dir_of i (set_dir i d v)))"
proof -
  let ?d = "dir_of i v" and ?O = "fst ` set (found_entries key i v)" and ?tag = "key_tag key"
  let ?i = "bucket_idx key ?d"
  note k = stripe_okD[OF ok]
  note sp = found_entries_spec[OF ok]
  have i: "?i < num_buckets ?d" by (rule bucket_idx_less[OF k(5)])
  have r: "dir_wf d" "num_buckets d = num_buckets ?d"
    "\<And>b. b < num_buckets ?d \<Longrightarrow> bucket_at b d = (if b = ?i then cleared ?tag ?O (bucket_at b ?d) else bucket_at b ?d)"
    using remove_entries_buckets[OF k(5) R] by simp_all
  have d': "dir_of i (set_dir i d v) = set_current_phase (s_directory_phase (core i v)) d" using k(1) by simp
  have idx: "bucket_idx x d = bucket_idx x ?d" for x using r(2) by (simp add: bucket_idx_def)
  have u: "bucket_unique (bucket_at b d)" if "b < num_buckets ?d" for b
    using k(6)[OF that] r(3)[OF that] by (auto simp: bucket_unique_def)
  show "stripe_ok i (set_dir i d v)" using ok r(1,2) u k(1) unfolding stripe_ok_def Let_def by (simp add: dir_of_def)
  have gone: "x \<in> set (bucket_at ?i ?d) \<and> e_offset x \<notin> ?O" if "x \<in> set (probe_all_phases key (dir_of i (set_dir i d v)))" for x
    using that r(3)[OF i] by (auto simp: d' probe_all_phases_def scan_entries_def idx split: if_splits)
  then have "classify (core i v) (snapshot (core i v)) (e_offset x) (e_phase x) = kReject \<or> foreign (core i v) (vol_disk v) key x"
    if "x \<in> set (probe_all_phases key (dir_of i (set_dir i d v)))" for x
    using sp(1)[of "e_offset x" key] that by (auto simp: d' probe_all_phases_def scan_entries_def idx)
  then show "unreadable i key (set_dir i d v)" using k(1) by (simp add: unreadable_def)
  have "\<forall>off \<in> set (map fst (found_entries key i v)). \<exists>e \<in> set (bucket_at ?i ?d). matches ?tag {off} e"
    using sp(1) by (auto simp: probe_all_phases_def scan_entries_def)
  then show "removed = replicate (length (found_entries key i v)) True"
    using remove_entries_found[OF k(5) sp(2)] R by (metis fst_conv length_map)
  assume e: "e \<in> set (probe_all_phases key' ?d)" "foreign (core i v) (vol_disk v) key e"
  have b: "bucket_idx key' ?d < num_buckets ?d" by (rule bucket_idx_less[OF k(5)])
  have "\<not> matches ?tag ?O e" if "bucket_idx key' ?d = ?i"
  proof
    assume m: "matches ?tag ?O e"
    then obtain x where x: "x \<in> set (probe_all_phases key ?d)" "e_offset x = e_offset e" "\<not> foreign (core i v) (vol_disk v) key x"
      using sp(1) by blast
    have "e \<in> set (probe_all_phases key ?d)" using e(1) m that by (auto simp: probe_all_phases_def scan_entries_def)
    then have "x = e"
      using x distinct_scan[OF k(6)[OF i]] by (auto simp: probe_all_phases_def distinct_map dest: inj_onD)
    then show False using x(3) e(2) by simp
  qed
  then have "e \<in> set (bucket_at (bucket_idx key' ?d) d)"
    using e(1) r(3)[OF b] by (auto simp: probe_all_phases_def scan_entries_def image_iff intro!: bexI[of _ e])
  then show "e \<in> set (probe_all_phases key' (dir_of i (set_dir i d v)))"
    using e(1) by (auto simp: d' probe_all_phases_def scan_entries_def idx)
qed

lemma any_live: "list_ex (\<lambda>(r, l). r \<and> l) (zip (replicate (length xs) True) (map snd xs)) \<longleftrightarrow> (\<exists>x. (x, True) \<in> set xs)"
  by (induction xs) auto

text \<open>A readable object is found live.\<close>

lemma held_object_live:
  assumes ok: "stripe_ok i v" and o: "holds_object i key header body v"
  shows "\<exists>off. (off, True) \<in> set (found_entries key i v)"
proof -
  let ?s = "core i v"
  obtain es e fs d where e: "probe_all_phases key (dir_of i v) = es @ e # fs" "object_at ?s (vol_disk v) key header body e d"
    using o unfolding holds_object_def by blast
  note at = e(2)[unfolded object_at_def Let_def]
  have "132 \<le> unat (approx_size e)" using approx_size_ge[of e] by simp
  then obtain r where r: "open_document (s_size ?s) (s_offset ?s + unat (e_offset e)) (unat (approx_size e)) (vol_disk v) = Some r" "r_doc r = d"
    "reader_first_key r = digest key"
    using open_document_image[of "digest key" header body d "s_offset ?s + unat (e_offset e)" "vol_disk v" "unat (approx_size e)" "s_size ?s"] at by auto
  have "stamp_admits ?s (snapshot ?s) kCurrent (write_serial d)"
    using at by (simp add: stamp_admits_def expected_pass_def snapshot_simps pass_now_def)
  then have "verified_entry ?s (vol_disk v) (snapshot ?s) key (e, kCurrent) = Some (e_offset e, True)"
    using r at by (simp add: verified_entry_def)
  moreover have "(e, kCurrent) \<in> set (writer_probe key (snapshot ?s) i v)" using e(1) at by (auto simp: writer_probe_def)
  ultimately have "(e_offset e, True) \<in> set (found_entries key i v)"
    by (force simp: found_entries_def List.map_filter_def)
  then show ?thesis by blast
qed

context ram_cache
begin

lemma remove_then_read:
  assumes ok: "stripe_ok i v" and sel: "select_stripe key v = Some i" and ow: "stripe_owned (vol_stripes v ! i)"
    and ram: "\<And>r. vol_ram v = Some r \<Longrightarrow> inv r"
  obtains r v' where "remove_sync exec key v = Some (r, v')" "r = Inr () \<or> r = Inl NotFound" "stripe_ok i v'" "unreadable i key v'"
    "select_stripe key v' = Some i" "r = Inr () \<or> ram_lacks inv held key v \<Longrightarrow> ram_lacks inv held key v'"
    "holds_object i key header body v \<Longrightarrow> r = Inr ()"
    "\<And>key' e. e \<in> set (probe_all_phases key' (dir_of i v)) \<Longrightarrow> foreign (core i v) (vol_disk v) key e \<Longrightarrow>
       e \<in> set (probe_all_phases key' (dir_of i v'))"
proof -
  let ?F = "found_entries key i v"
  obtain removed d where R: "remove_entries_at key (map fst ?F) (dir_of i v) = (removed, d)" by force
  let ?u = "set_dir i d v"
  note k = stripe_okD(1)[OF ok]
  note s = removed_entries[OF ok R]
  note eq = remove_sync_eq[OF sel ow R, of exec]
  have live: "list_ex (\<lambda>(r, l). r \<and> l) (zip removed (map snd ?F)) \<longleftrightarrow> (\<exists>off. (off, True) \<in> set ?F)"
    unfolding s(3) by (rule any_live)
  have selu: "select_stripe key ?u = Some i" using sel select_stripe_cong[of ?u v] by simp
  show thesis
  proof (cases "\<exists>off. (off, True) \<in> set ?F")
    case True
    obtain w where w: "drop_ram_copies exec (OpRemoveAll key) i ?u = Some w" using drop_returns[of ?u] ram by (metis stripe_frame(4))
    note f = drop_ram_copies_effect[OF w]
    have "ram_lacks inv held key w" using dropped_lacks[of ?u "OpRemoveAll key" w key] ram f(5) k by simp
    moreover have "unreadable i key w" using s(2) f k by (simp add: unreadable_def)
    moreover have "select_stripe key w = Some i" using selu f(6) k select_stripe_cong[of w ?u] ownersD(1)[of w ?u] by simp
    ultimately show thesis using that[of "Inr ()" w] eq live True w s(1,4) f k by simp
  next
    case False
    have "ram_lacks inv held key v \<Longrightarrow> ram_lacks inv held key ?u" by (simp add: ram_lacks_def)
    then show thesis
      using that[of "Inl NotFound" ?u] eq live False s(1,2,4) selu held_object_live[OF ok, of key header body] by auto
  qed
qed

end

end
