(* ===== verification/Stripe_Properties.thy ===== *)
theory Stripe_Properties
  imports Stripe_Safety
begin

text \<open>
  The properties of a stripe's write and read protocol, stated over the operations
  themselves, with a sample run of one write and one borrow as their witness.
\<close>

section \<open>A sample run\<close>

definition sample_reserved :: volume where
  "sample_reserved = sample_volume\<lparr>s_local_exposure_gen := 1, v_frontier_advances := 1\<rparr>"

definition sample_world :: world where
  "sample_world = \<lparr>w_vol = sample_volume, w_file = (\<lambda>_. 0), w_docs = {}, w_borrows = [], w_epoch = (\<lambda>_ _. 0)\<rparr>"

definition sample_slot :: WriteSlot where
  "sample_slot = \<lparr>ws_write_offset = 4160,
     ws_new_write_pos = 4360, ws_write_token = null_token, ws_holds_write_lock = False, ws_deferred_publish = True,
     ws_pass = 0, ws_fill_serial = 0, ws_fill_end = 0\<rparr>"

definition sample_doc :: doc where
  "sample_doc = \<lparr>d_pass = 0, d_rel = 4096, d_len = 200, d_bytes = replicate 150 7\<rparr>"

definition sample_written :: world where
  "sample_written = sample_world\<lparr>w_vol := sample_reserved\<lparr>s_write_pos := 4360\<rparr>,
     w_file := (\<lambda>x. if 4160 \<le> x \<and> x < 4310 then 7 else 0), w_docs := {sample_doc}\<rparr>"

definition sample_token :: BorrowToken where
  "sample_token = \<lparr>bt_generation = 0, bt_counted = True, bt_active = True, bt_shard = 3, bt_chunk = 0\<rparr>"

definition sample_borrow :: open_borrow where
  "sample_borrow = \<lparr>ob_doc = sample_doc, ob_token = sample_token, ob_epoch = 0, ob_lapsed = False\<rparr>"

definition sample_borrowed :: world where
  "sample_borrowed = sample_written\<lparr>w_vol := stamp_read_lease sample_config 100
       (fst (acquire_borrow sample_config 3 0 (w_vol sample_written))), w_borrows := [sample_borrow]\<rparr>"

definition sample_busy :: volume where
  "sample_busy = sample_volume\<lparr>s_retain := False, s_write_pos := 8200, s_local_lease_expiry_ns := 900,
     s_local_borrow_shards := (\<lambda>sh c. if sh = 3 \<and> c = 0 then 1 else 0)\<rparr>"

lemma sample_alloc:
  "allocate_write_slot sample_config sample_env 200 sample_volume = (sample_reserved, Inr sample_slot)"
  by (simp add: allocate_write_slot_def make_room_def retention_prepare_def prepare_wrap_def prepare_mandatory_def
      prepare_early_def sample_reserved_def sample_volume_def sample_config_def sample_env_def Let_def
     sub64_def align_down_def end_deferral_episode_def tail_fill_end_def pass_of_def exposure_gen_def sample_slot_def
     frontier_rel_of_def data_start_rel_def advance_frontier_def chunk_index_ceil_def lease_gate_def set_wrap_intent_def
     set_wrap_intent_value_def lease_expiry_ns_def store_exposure_gen_def)

lemma sample_init: "world_init sample_world"
  by (simp add: world_init_def sample_world_def sample_reserved_def sample_volume_def geometry_wf_def data_start_rel_def
      current_write_cursor_def exposure_gen_def intent_value_def borrow_slot_of_def kMaxChunks_def)

lemma sample_write_step: "world_step sample_config sample_world sample_written"
proof -
  have c: "commit_write_slot True sample_slot True sample_reserved = (sample_reserved\<lparr>s_write_pos := 4360\<rparr>, Inr ())"
    by (simp add: commit_write_slot_def sample_slot_def)
  have d: "slot_doc sample_volume sample_slot (replicate 150 7) = sample_doc"
    by (simp add: slot_doc_def sample_slot_def sample_doc_def sample_volume_def)
  let ?f = "\<lambda>x. if 4160 \<le> x \<and> x < 4310 then 7 else (0::byte)"
  have h: "holds ?f (s_offset sample_volume) sample_doc"
    by (simp add: holds_def sample_doc_def sample_volume_def)
  have a: "allocate_write_slot sample_config sample_env 200 (w_vol sample_world) = (sample_reserved, Inr sample_slot)"
    using sample_alloc by (simp add: sample_world_def)
  have "world_step sample_config sample_world
    ((after_write sample_config sample_env sample_reserved (sample_reserved\<lparr>s_write_pos := 4360\<rparr>) sample_world)\<lparr>w_file := ?f,
       w_docs := (if True \<and> (Inr () :: unit expected) = Inr () then insert (slot_doc (w_vol sample_world) sample_slot (replicate 150 7))
         (w_docs sample_world) else w_docs sample_world)\<rparr>)"
    by (rule world_step.write_filled[OF _ a _ _ _ _ c])
       (use h d in \<open>auto simp: sample_world_def fill_limit_def sample_slot_def sample_volume_def\<close>)
  moreover have "((after_write sample_config sample_env sample_reserved (sample_reserved\<lparr>s_write_pos := 4360\<rparr>) sample_world)\<lparr>w_file := ?f,
       w_docs := (if True \<and> (Inr () :: unit expected) = Inr () then insert (slot_doc (w_vol sample_world) sample_slot (replicate 150 7))
         (w_docs sample_world) else w_docs sample_world)\<rparr>) = sample_written"
    using d by (simp add: sample_written_def sample_world_def after_write_def next_epoch_def fun_eq_iff sample_reserved_def sample_volume_def)
  ultimately show ?thesis by simp
qed

lemma sample_reached: "(world_step sample_config)\<^sup>*\<^sup>* sample_world sample_written"
  using sample_write_step by blast

lemma sample_acquire: "snd (acquire_borrow sample_config 3 0 (w_vol sample_written)) = sample_token"
  by (simp add: acquire_borrow_def sample_config_def Let_def sample_written_def sample_world_def sample_reserved_def sample_volume_def
      borrow_slot_of_def kMaxChunks_def kBorrowShards_def slot_acquire_def count_of_def kCountMaskOf_def kCountBits_def
      generation_of_def sample_token_def)

lemma sample_borrow_step: "world_step sample_config sample_written sample_borrowed"
proof -
  let ?v = "w_vol sample_written"
  define v1 where "v1 = fst (acquire_borrow sample_config 3 0 ?v)"
  define v2 where "v2 = stamp_read_lease sample_config 100 v1"
  have d: "sample_doc \<in> w_docs sample_written" by (simp add: sample_written_def)
  have wf: "geometry_wf ?v" using world_inv_reachable[OF sample_reached sample_init]
    by (simp add: world_inv_def volume_inv_def)
  have ch: "chunk_of ?v (d_rel sample_doc) = 0"
    by (simp add: chunk_of_def sample_written_def sample_world_def sample_reserved_def sample_volume_def)
  have A: "acquire_borrow sample_config 3 (chunk_of ?v (d_rel sample_doc)) ?v = (v1, sample_token)"
    unfolding ch using sample_acquire by (simp add: v1_def prod_eq_iff)
  note rs = reader_same_views[OF reader_same_trans[OF acquire_same[OF A] stamp_same[of v1 sample_config 100]], folded v2_def]
  have same: "reader_same ?v v2"
    unfolding v2_def by (rule reader_same_trans[OF acquire_same[OF A] stamp_same])
  have g: "exposure_gen v2 = 1" unfolding rs by (simp add: sample_reserved_def sample_written_def sample_world_def sample_reserved_def sample_volume_def exposure_gen_def)
  have iv: "intent_value v2 = 0" using same
    by (simp add: reader_same_def sample_written_def sample_world_def sample_reserved_def sample_volume_def intent_value_def)
  have "borrow_slot_of 3 0 v2 = fst (slot_acquire 0)"
    unfolding v2_def slot_of_stamp v1_def
    by (simp add: acquire_borrow_def sample_config_def Let_def sample_written_def
        sample_world_def sample_reserved_def sample_volume_def borrow_slot_of_def set_borrow_slot_def kMaxChunks_def kBorrowShards_def)
  then have "generation_of (borrow_slot_of 3 0 v2) = 0"
    by (simp add: acquire_generation) (simp add: generation_of_def)
  then have "borrow_still_valid (exposure_threshold v2 (d_pass sample_doc) (d_rel sample_doc)) sample_token v2"
    using iv by (simp add: borrow_still_valid_def borrow_still_counted_def sample_token_def g
        wrap_intent_set_def intent_value_def exposure_threshold_def)
  from world_step.borrow[OF d A v2_def this] show ?thesis
    by (simp add: sample_borrowed_def v1_def v2_def sample_borrow_def sample_token_def sample_written_def sample_world_def)
qed

lemma sample_borrow_reached: "(world_step sample_config)\<^sup>*\<^sup>* sample_world sample_borrowed"
  using sample_reached sample_borrow_step by (rule rtranclp.rtrancl_into_rtrancl)

section \<open>Borrowed bytes stay\<close>



text \<open>
  C6.  In every reachable state, a document whose exposure threshold has not been
  passed by the exposure generation still has all its bytes in the file.  This is what a
  renewal that reports success relies on: after any number of wraps and forced steps,
  comparing one generation with one threshold decides whether the bytes are intact.
\<close>

theorem unexposed_documents_intact:
  assumes "world_init w0" "(world_step cfg)\<^sup>*\<^sup>* w0 w" "d \<in> w_docs w"
    "snd (renew_read_lease cfg now True (exposure_threshold (w_vol w) (d_pass d) (d_rel d)) token (w_vol w))"
  shows "\<forall>i < length (d_bytes d). w_file w (s_offset (w_vol w) + d_rel d + i) = d_bytes d ! i"
proof -
  have "exposure_gen (w_vol w) \<le> exposure_threshold (w_vol w) (d_pass d) (d_rel d)"
    using assms(4) by (auto simp: renew_read_lease_def split: if_splits)
  then show ?thesis using world_inv_reachable[OF assms(2,1)] assms(3) by (simp add: world_inv_def docs_inv_def holds_def)
qed

theorem unexposed_documents_intact_witness:
  "w_file sample_written (s_offset (w_vol sample_written) + d_rel sample_doc + 10) = d_bytes sample_doc ! 10"
proof -
  have d: "sample_doc \<in> w_docs sample_written" by (simp add: sample_written_def)
  have r: "snd (renew_read_lease sample_config 20 True (exposure_threshold (w_vol sample_written) (d_pass sample_doc) (d_rel sample_doc)) no_token (w_vol sample_written))"
    by (simp add: renew_read_lease_def sample_config_def borrow_still_counted_def no_token_def exposure_gen_def
        exposure_threshold_def sample_written_def sample_world_def sample_reserved_def sample_volume_def)
  have "10 < length (d_bytes sample_doc)" by (simp add: sample_doc_def)
  then show ?thesis using unexposed_documents_intact[OF sample_init sample_reached d r] by blast
qed

section \<open>Reservations\<close>

lemma reservation_facts:
  assumes "geometry_wf v" "cursor_wf v" "intent_value v = 0"
    "\<not> s_retain v \<longrightarrow> pass_now v > 0 \<longrightarrow> frontier_now v = s_chunks v" "n + 7 < 2 ^ 64"
    "allocate_write_slot cfg env n v = (v', Inr slot)"
  shows "s_data_offset v \<le> ws_write_offset slot"
    "ws_new_write_pos slot = ws_write_offset slot + round_up8 n" "ws_new_write_pos slot \<le> s_offset v + s_size v"
    "8 dvd current_write_cursor v \<Longrightarrow> 8 dvd s_data_offset v \<Longrightarrow> 8 dvd ws_write_offset slot \<and> 8 dvd ws_new_write_pos slot"
    "ws_pass slot = exposure_gen v' div (s_chunks v' + 1)"
    "doc_placed v d \<Longrightarrow> exposure_gen v' \<le> exposure_threshold v (d_pass d) (d_rel d) \<Longrightarrow>
     s_offset v + d_rel d + d_len d \<le> ws_write_offset slot \<or> fill_limit slot \<le> s_offset v + d_rel d"
proof -
  note a = allocate_some[OF assms(1,2,3,5,6)]
  note cur = write_move_cursor[OF assms(1,2) a(1)]
  note g = geom_getters[OF write_move_geom[OF a(1)]]
  show "s_data_offset v \<le> ws_write_offset slot" by (rule cur(3))
  show "ws_new_write_pos slot = ws_write_offset slot + round_up8 n" by (rule a(2))
  show "ws_new_write_pos slot \<le> s_offset v + s_size v" using a(2) cur(4) by simp
  show "ws_pass slot = exposure_gen v' div (s_chunks v' + 1)" using a(3) by (simp add: pass_now_def)
  have "ws_write_offset slot = current_write_cursor v \<or> ws_write_offset slot = s_data_offset v"
    using a(1) by (auto simp: write_move_def)
  then show "8 dvd current_write_cursor v \<Longrightarrow> 8 dvd s_data_offset v \<Longrightarrow> 8 dvd ws_write_offset slot \<and> 8 dvd ws_new_write_pos slot"
    using a(2) by (auto intro: dvd_add)
  assume d: "doc_placed v d" "exposure_gen v' \<le> exposure_threshold v (d_pass d) (d_rel d)"
  have "out_of_reach v' d"
    using d write_move_pass[OF a(1)] assms(1)
    by (intro unexposed_out_of_reach) (simp_all add: doc_placed_def g)
  moreover have "s_retain v \<Longrightarrow> fill_limit slot \<le> s_offset v + frontier_rel_of v (frontier_now v')"
    using a(1,2,5) by (simp add: fill_limit_def write_move_def)
  ultimately show "s_offset v + d_rel d + d_len d \<le> ws_write_offset slot \<or> fill_limit slot \<le> s_offset v + d_rel d"
    using assms(4) by (intro fill_avoids_doc[OF assms(1) a(1) d(1)]) auto
qed

text \<open>
  C7.  When allocate_write_slot grants a slot, in flush or retention mode, with or
  without a cross-process lock: the span lies in the data area, has the rounded size of
  the document, keeps 8-byte alignment, carries the pass of the generation now in
  force, and neither it nor the zero fill behind it touches any earlier document that
  this generation still protects.
\<close>

theorem reservation_is_clear:
  assumes "geometry_wf v" "cursor_wf v" "intent_value v = 0"
    "\<not> s_retain v \<longrightarrow> pass_now v > 0 \<longrightarrow> frontier_now v = s_chunks v" "n + 7 < 2 ^ 64"
    "allocate_write_slot cfg env n v = (v', Inr slot)"
  shows "s_data_offset v \<le> ws_write_offset slot \<and>
    ws_new_write_pos slot = ws_write_offset slot + round_up8 n \<and> ws_new_write_pos slot \<le> s_offset v + s_size v \<and>
    (8 dvd current_write_cursor v \<and> 8 dvd s_data_offset v \<longrightarrow> 8 dvd ws_write_offset slot \<and> 8 dvd ws_new_write_pos slot) \<and>
    ws_pass slot = exposure_gen v' div (s_chunks v' + 1) \<and>
    (\<forall>d. doc_placed v d \<and> exposure_gen v' \<le> exposure_threshold v (d_pass d) (d_rel d) \<longrightarrow>
       s_offset v + d_rel d + d_len d \<le> ws_write_offset slot \<or> fill_limit slot \<le> s_offset v + d_rel d)"
  using reservation_facts[OF assms] by blast

theorem reservation_is_clear_witness:
  "\<exists>v' slot. allocate_write_slot sample_config sample_env 200 sample_volume = (v', Inr slot) \<and>
     s_data_offset sample_volume \<le> ws_write_offset slot \<and> ws_new_write_pos slot \<le> s_offset sample_volume + s_size sample_volume"
proof -
  have w: "geometry_wf sample_volume" "cursor_wf sample_volume" "intent_value sample_volume = 0"
    "\<not> s_retain sample_volume \<longrightarrow> pass_now sample_volume > 0 \<longrightarrow> frontier_now sample_volume = s_chunks sample_volume"
    using world_init_inv[OF sample_init] by (simp_all add: world_inv_def volume_inv_def sample_world_def)
  have n: "(200::nat) + 7 < 2 ^ 64" by simp
  show ?thesis using reservation_is_clear[OF w n sample_alloc] sample_alloc by blast
qed


lemma sample_busy_occupied: "borrow_count 0 1 (set_wrap_intent True sample_busy) \<noteq> 0"
proof
  assume "borrow_count 0 1 (set_wrap_intent True sample_busy) = 0"
  then have "chunk_clear 0 (set_wrap_intent True sample_busy)" by (rule borrow_count_clear) simp_all
  then have "slot_count (borrow_slot_of 3 0 sample_busy) = 0" by (simp add: chunk_clear_def frame kBorrowShards_def)
  then show False
    by (simp add: sample_busy_def sample_volume_def borrow_slot_of_def count_of_def kCountMaskOf_def kCountBits_def)
qed

lemma sample_busy_refused: "snd (allocate_write_slot sample_config sample_env 200 sample_busy) = Inl NoSpace"
proof -
  have "\<not> snd (lease_gate sample_config 10 0 1 True (set_wrap_intent True sample_busy))"
    using sample_busy_occupied
    by (simp add: lease_gate_def Let_def sample_config_def lease_expiry_ns_def sample_busy_def sample_volume_def
        set_wrap_intent_def set_wrap_intent_value_def kMaxChunks_def)
  then show ?thesis
    by (simp add: allocate_write_slot_def make_room_def sub64_def align_down_def flush_wrap_def Let_def split_beta
        sample_busy_def sample_volume_def sample_env_def steady_now_ns_def)
qed


section \<open>The gate\<close>



text \<open>
  C10.  No borrow, live or leaked, holds a write up for ever: a mandatory gate asked again
  more than the ceiling after its first deferral opens, and if a borrow had kept it
  shut, every slot of the stripe is reset to zero, so that the count of a crashed
  reader is gone too.
\<close>

theorem gate_opens_past_ceiling:
  assumes "s_wrap_deferred_since_ns v \<noteq> 0" "sub64 now (s_wrap_deferred_since_ns v) > c_lease_ceiling_ns cfg"
  shows "snd (lease_gate cfg now lo hi True v) \<and>
    (lease_live cfg now v \<and> borrow_count lo (min hi kMaxChunks) v \<noteq> 0 \<longrightarrow>
     (\<forall>sh < kBorrowShards. \<forall>c < kMaxChunks.
        unat (count_of (borrow_slot_of sh c (fst (lease_gate cfg now lo hi True v)))) = 0))"
proof (cases rule: lease_gate_cases[of cfg now lo hi True v])
  case skip
  then show ?thesis using assms by (auto simp: lease_gate_def Let_def lease_live_def)
next
  case force
  have "forced v (fst (lease_gate cfg now lo hi True v))" unfolding force(1) fst_conv by (rule force_step_forced)
  then show ?thesis using force by (simp add: forced_def reset_slot)
qed (use assms in \<open>auto simp: lease_live_def\<close>)

theorem gate_opens_past_ceiling_witness:
  "snd (lease_gate sample_config 6000 0 1 True (sample_busy\<lparr>s_wrap_deferred_since_ns := 10, s_local_lease_expiry_ns := 6900\<rparr>))"
  using gate_opens_past_ceiling[of "sample_busy\<lparr>s_wrap_deferred_since_ns := 10, s_local_lease_expiry_ns := 6900\<rparr>" sample_config 6000 0 1]
  by (simp add: sample_config_def sub64_def)

section \<open>Admission\<close>

lemma stamp_is_pass:
  assumes "(of_nat p :: u32) = of_nat q" "p \<le> q + 1" "q < p + 2 ^ 32" 
  shows "p = q"
proof -
  have "p mod 2 ^ 32 = q mod 2 ^ 32" using arg_cong[OF assms(1), of unat] by (simp add: unat_of_nat)
  moreover have "p = q + 1 \<Longrightarrow> p mod 2 ^ 32 \<noteq> q mod 2 ^ 32" by (simp add: mod_Suc)
  moreover have "p \<le> q \<Longrightarrow> p mod 2 ^ 32 = q mod 2 ^ 32 \<Longrightarrow> p = q"
  proof -
    assume le: "p \<le> q" "p mod 2 ^ 32 = q mod 2 ^ 32"
    then have "2 ^ 32 dvd q - p" using mod_eq_dvd_iff_nat[of p q "2 ^ 32"] by (metis)
    moreover have "q - p < 2 ^ 32" using assms(3) le(1) by linarith
    ultimately have "q - p = 0" by (meson nat_dvd_not_less neq0_conv)
    then show "p = q" using le(1) by simp
  qed
  ultimately show ?thesis using assms(2) by (metis le_Suc_eq Suc_eq_plus1)
qed

text \<open>
  C11.  With wrap retention, the stamp makes admission exact: if a reader's snapshot
  admits the document it finds at a position, with the pass stamp the writer put there
  and fewer than 2^32 passes old, then the admitted class names the document's own
  pass, the borrow epoch it gets is the document's exposure threshold, and the bytes
  of the document are intact in the file.
\<close>

theorem admitted_document_intact:
  assumes "world_init w0" "(world_step cfg)\<^sup>*\<^sup>* w0 w" "d \<in> w_docs w" "s_retain (w_vol w)"
    "exposure_gen (w_vol w) div (s_chunks (w_vol w) + 1) < d_pass d + 2 ^ 32"
    "admit_position (w_vol w) (d_rel d) phase (snapshot (w_vol w)) = cls"
    "admit_document (w_vol w) (snapshot (w_vol w)) cls (d_rel d) (of_nat (d_pass d)) = Some epoch"
  shows "expected_pass cls (snapshot (w_vol w)) = d_pass d \<and>
    epoch = exposure_threshold (w_vol w) (d_pass d) (d_rel d) \<and>
    (\<forall>i < length (d_bytes d). w_file w (s_offset (w_vol w) + d_rel d + i) = d_bytes d ! i)"
proof -
  let ?v = "w_vol w" and ?S = "snapshot (w_vol w)"
  have inv: "world_inv w" by (rule world_inv_reachable[OF assms(2,1)])
  have ple: "d_pass d \<le> snap_pass ?S"
    using inv assms(3) by (simp add: world_inv_def docs_inv_def doc_placed_def pass_now_def snapshot_simps)
  have a: "(of_nat (d_pass d) :: u32) = of_nat (expected_pass cls ?S)"
    "epoch = exposure_threshold ?v (expected_pass cls ?S) (d_rel d)" "snap_gen ?S \<le> epoch"
    using assms(4,7) by (auto simp: admit_document_def stamp_admits_def Let_def split: if_splits)
  have "cls = kRetained \<Longrightarrow> snap_pass ?S > 0"
    using assms(6) by (auto simp: admit_position_def split: if_splits)
  then have "d_pass d \<le> expected_pass cls ?S + 1" "expected_pass cls ?S < d_pass d + 2 ^ 32"
    using ple assms(5) by (auto simp: expected_pass_def snapshot_simps)
  then have e: "d_pass d = expected_pass cls ?S" using a(1) by (intro stamp_is_pass) auto
  then have "exposure_gen ?v \<le> exposure_threshold ?v (d_pass d) (d_rel d)" using a by (simp add: snapshot_simps)
  then show ?thesis using e a(2) inv assms(3) by (simp add: world_inv_def docs_inv_def holds_def)
qed

theorem admitted_document_intact_witness:
  "admit_position (w_vol sample_written) 4096 False (snapshot (w_vol sample_written)) = kCurrent \<and>
   expected_pass kCurrent (snapshot (w_vol sample_written)) = d_pass sample_doc \<and>
   w_file sample_written (s_offset (w_vol sample_written) + d_rel sample_doc + 10) = d_bytes sample_doc ! 10"
proof -
  have v: "s_retain (w_vol sample_written)" "exposure_gen (w_vol sample_written) = 1" "s_chunks (w_vol sample_written) = 1"
    by (simp_all add: sample_written_def sample_reserved_def sample_volume_def exposure_gen_def)
  have d: "sample_doc \<in> w_docs sample_written" by (simp add: sample_written_def)
  have p: "admit_position (w_vol sample_written) (d_rel sample_doc) False (snapshot (w_vol sample_written)) = kCurrent"
    by (simp add: admit_position_def in_data_area_def snapshot_def Let_def sample_doc_def sample_written_def sample_reserved_def
        sample_volume_def exposure_gen_def pass_of_def data_start_rel_def Document_kHeaderSize_def current_write_cursor_def)
  have a: "admit_document (w_vol sample_written) (snapshot (w_vol sample_written)) kCurrent (d_rel sample_doc) (of_nat (d_pass sample_doc))
      = Some (exposure_threshold (w_vol sample_written) 0 4096)"
    by (simp add: admit_document_def stamp_admits_def expected_pass_def snapshot_simps Let_def v sample_doc_def
        exposure_threshold_def)
  have q: "exposure_gen (w_vol sample_written) div (s_chunks (w_vol sample_written) + 1) < d_pass sample_doc + 2 ^ 32"
    by (simp add: v)
  have "10 < length (d_bytes sample_doc)" by (simp add: sample_doc_def)
  then show ?thesis using admitted_document_intact[OF sample_init sample_reached d v(1) q p a] p
    by (auto simp: sample_doc_def[THEN arg_cong[where f = d_rel]])
qed

section \<open>Crash recovery of a wrap\<close>

text \<open>
  The states a writer of an mmap stripe passes through while it wraps to the next
  pass, from the intent store to the store of the new generation.
\<close>

definition wrap_states :: "volume \<Rightarrow> volume list" where
  "wrap_states v =
     (let p = pass_of v (exposure_gen v) + 1;
          a = mark_wrap_committed p v;
          b = a\<lparr>s_write_pos := s_data_offset a\<rparr>;
          c = set_shared_write_pos (s_data_offset b) b;
          d = publish_wrap_phase p c;
          e = store_exposure_gen (p * (s_chunks v + 1) + (if s_retain v then 0 else s_chunks v)) d
      in [a, b, c, d, e])"

lemma repair_committed:
  assumes mm: "s_use_mmap_directory x" and c: "m_wrap_intent x = (if odd p then kIntentWrapOdd else kIntentWrapEven)"
    and G: "m_exposure_gen x div (s_chunks x + 1) = p - 1 \<or>
      m_exposure_gen x = p * (s_chunks x + 1) + (if s_retain x then 0 else s_chunks x)" and p: "0 < p"
  shows "exposure_gen (repair_wrap_state now x) = p * (s_chunks x + 1) + (if s_retain x then 0 else s_chunks x)"
    "current_write_cursor (repair_wrap_state now x) = s_data_offset x"
    "m_current_phase (repair_wrap_state now x) = odd p" "intent_value (repair_wrap_state now x) = 0"
proof -
  define n where "n = s_chunks x"
  define target where "target = p * (n + 1) + (if s_retain x then 0 else n)"
  have "(p * (n + 1) + r) div (n + 1) = p" if "r \<le> n" for r using that by (simp del: mult_Suc_right)
  then have tp: "target div (n + 1) = p" unfolding target_def by (metis le0 order_refl)
  define y where "y = set_shared_write_pos (s_data_offset x) (x\<lparr>s_write_pos := s_data_offset x\<rparr>)"
  have i: "m_wrap_intent x = kIntentWrapEven \<or> m_wrap_intent x = kIntentWrapOdd"
    "(m_wrap_intent x = kIntentWrapOdd) = odd p" using c by (auto simp: kIntentWrapEven_def kIntentWrapOdd_def)
  have yf: "s_use_mmap_directory y" "s_chunks y = n" "s_retain y = s_retain x" "s_data_offset y = s_data_offset x"
    "m_exposure_gen y = m_exposure_gen x" "m_shared_write_pos y = s_data_offset x"
    using mm by (simp_all add: y_def set_shared_write_pos_def n_def)
  define z where "z = (if m_exposure_gen x div (n + 1) = p - 1
      then record_wrap now (store_exposure_gen target (publish_wrap_phase p y)) else y)"
  have zf: "s_use_mmap_directory z" "m_exposure_gen z = target" "m_shared_write_pos z = s_data_offset x"
    using yf G p tp by (auto simp: z_def record_wrap_def store_exposure_gen_def publish_wrap_phase_def Let_def
        n_def[symmetric] target_def)
  define q where "q = pass_of x (m_exposure_gen x)"
  have q: "q = (if m_exposure_gen x div (n + 1) = p - 1 then p - 1 else p)"
    using G tp by (auto simp: q_def pass_of_def n_def[symmetric] target_def)
  have "repair_wrap_state now x = (if odd q \<noteq> odd p
      then set_wrap_intent False ((record_wrap now (store_exposure_gen ((q + 1) * (s_chunks y + 1) +
               (if s_retain (publish_wrap_phase (q + 1) y) then 0 else s_chunks y))
             (publish_wrap_phase (q + 1) y)))\<lparr>m_current_phase := odd (q + 1)\<rparr>)
      else set_wrap_intent False (y\<lparr>m_current_phase := odd q\<rparr>))"
    using mm i by (simp add: repair_wrap_state_def Let_def y_def q_def)
  then have r: "repair_wrap_state now x = set_wrap_intent False (z\<lparr>m_current_phase := odd p\<rparr>)"
    using q p yf geomD(6)[OF publish_wrap_phase_frame(1)]
    by (cases "m_exposure_gen x div (n + 1) = p - 1") (simp_all add: z_def target_def)
  have "exposure_gen (repair_wrap_state now x) = target"
    "current_write_cursor (repair_wrap_state now x) = s_data_offset x"
    "m_current_phase (repair_wrap_state now x) = odd p" "intent_value (repair_wrap_state now x) = 0"
    using zf by (simp_all add: r set_wrap_intent_def set_wrap_intent_value_def view_defs current_write_cursor_def)
  then show "exposure_gen (repair_wrap_state now x) = p * (s_chunks x + 1) + (if s_retain x then 0 else s_chunks x)"
    "current_write_cursor (repair_wrap_state now x) = s_data_offset x"
    "m_current_phase (repair_wrap_state now x) = odd p" "intent_value (repair_wrap_state now x) = 0"
    by (simp_all add: target_def n_def)
qed

lemma wrap_states_committed:
  assumes "s_use_mmap_directory v" "x \<in> set (wrap_states v)"
  defines "p \<equiv> exposure_gen v div (s_chunks v + 1) + 1"
  shows "s_use_mmap_directory x" "m_wrap_intent x = (if odd p then kIntentWrapOdd else kIntentWrapEven)"
    "m_exposure_gen x div (s_chunks x + 1) = p - 1 \<or>
     m_exposure_gen x = p * (s_chunks x + 1) + (if s_retain x then 0 else s_chunks x)"
    "s_chunks x = s_chunks v" "s_retain x = s_retain v" "s_data_offset x = s_data_offset v"
  using assms(1,2) unfolding p_def
  by (auto simp: wrap_states_def Let_def mark_wrap_committed_def set_wrap_intent_value_def set_shared_write_pos_def
      publish_wrap_phase_def store_exposure_gen_def exposure_gen_def pass_of_def)

text \<open>
  C12.  Wherever a writer of a shared stripe dies inside a wrap, from its committed
  intent to the store of the new generation, repair_wrap_state completes that wrap: the
  cursor is at the start of the data area, generation and phase are those of the next
  pass, and the intent is clear.  The wrap is never undone and never done twice.
\<close>

theorem crashed_wrap_is_completed:
  assumes "s_use_mmap_directory v" "x \<in> set (wrap_states v)"
  shows "let r = repair_wrap_state now x; p = exposure_gen v div (s_chunks v + 1) + 1 in
    exposure_gen r = p * (s_chunks v + 1) + (if s_retain v then 0 else s_chunks v) \<and>
    current_write_cursor r = s_data_offset v \<and> m_current_phase r = odd p \<and> \<not> wrap_intent_set r"
proof -
  note w = wrap_states_committed[OF assms]
  have p: "0 < exposure_gen v div (s_chunks v + 1) + 1" by simp
  note r = repair_committed[OF w(1,2,3) p, of now]
  have "wrap_intent_set (repair_wrap_state now x) \<longleftrightarrow> intent_value (repair_wrap_state now x) \<noteq> 0"
    by (simp add: wrap_intent_set_def intent_value_def)
  then show ?thesis using r w(4-6) unfolding Let_def by simp
qed

theorem crashed_wrap_is_completed_witness:
  "exposure_gen (repair_wrap_state 5 (mark_wrap_committed 1 (sample_volume\<lparr>s_use_mmap_directory := True\<rparr>))) = 2"
proof -
  let ?v = "sample_volume\<lparr>s_use_mmap_directory := True\<rparr>"
  have "mark_wrap_committed 1 ?v \<in> set (wrap_states ?v)"
    by (simp add: wrap_states_def Let_def pass_of_def exposure_gen_def sample_volume_def)
  moreover have e: "exposure_gen ?v = 0" "s_chunks ?v = 1" "s_retain ?v" "s_use_mmap_directory ?v"
    by (simp_all add: exposure_gen_def sample_volume_def)
  ultimately show ?thesis using crashed_wrap_is_completed[OF e(4), of _ 5] unfolding Let_def e by fastforce
qed

section \<open>Divide-free position arithmetic\<close>



end
