(* ===== verification/Volume_Properties.thy ===== *)
theory Volume_Properties
  imports Volume_Remove Stripe_Properties
begin

text \<open>
  What a volume promises its clients, in one process and with no other thread at work: an object
  written through a handle reads back, a removed one is gone, and a refused commit leaves the cache
  as it was.  The RAM cache is any that keeps the contract \<open>ram_cache\<close>; both implementations do.
\<close>

section \<open>Writing through a handle\<close>

text \<open>The appends of a client, in order; \<open>None\<close> when one is refused.\<close>

fun append_all :: "vol_config \<Rightarrow> bytes list \<Rightarrow> 'r vol \<Rightarrow> WriteHandle \<Rightarrow> WriteHandle option" where
  "append_all cfg [] v h = Some h"
| "append_all cfg (data # chunks) v h =
     (case handle_write cfg data v h of (Inl e, h) \<Rightarrow> None | (Inr n, h) \<Rightarrow> append_all cfg chunks v h)"

lemma append_all_content:
  "append_all cfg chunks v h = Some h' \<Longrightarrow>
   h' = h\<lparr>wh_content := wh_content h @ concat chunks, wh_written := wh_written h + length (concat chunks)\<rparr>"
proof (induction chunks arbitrary: h)
  case (Cons data chunks)
  then obtain n h1 where w: "handle_write cfg data v h = (Inr n, h1)" "append_all cfg chunks v h1 = Some h'"
    by (auto split: prod.splits sum.splits)
  then have "h1 = h\<lparr>wh_content := wh_content h @ data, wh_written := wh_written h + length data\<rparr>"
    by (auto simp: handle_write_def split: sum.splits)
  then show ?case using Cons.IH[OF w(2)] by simp
qed simp

text \<open>
  C1.
  An object written through a write handle reads back.  On a well-formed stripe, when the
  reservation is granted, the document's rounded size stays in the file and the kernel goes on
  accepting writes, closing the handle returns success, and a read of the key then returns exactly
  the header bytes and the concatenation of the appended chunks, whatever the stripe's directory,
  its file and the RAM cache held before.
\<close>

theorem written_object_reads_back:
  assumes ram: "ram_cache ok held exec free" "\<And>r. vol_ram v = Some r \<Longrightarrow> ok r"
    and stripe: "stripe_ok i v" "select_stripe key v = Some i" "key_wf key"
    and opened: "write_sync cfg key declared v = Inr h0" "\<not> vol_teardown v"
    and appended: "append_all cfg chunks v (handle_set_header header h0) = Some h"
    and granted: "132 + length header + length (concat chunks) < 2 ^ 32"
      "allocate_write_slot (cf_lease cfg) (ce_alloc env) (132 + length header + length (concat chunks)) (core i v) = (c, Inr ws)"
      "ws_write_offset ws + mapped_size (132 + length header + length (concat chunks)) \<le> length (vol_disk v)"
    and kernel: "no_failure (ce_pwrite env)" "length (vol_disk v) \<le> writes (ce_pwrite env)"
    and quiet: "alone env" "undisturbed (renv 0)"
  shows "\<exists>h' v' rh v''. handle_close exec cfg env v h = Some (Inr (), h', v') \<and>
    read_sync exec cfg' renv key v' = Some (Inr rh, v'') \<and> rh_header rh = header \<and> rh_content rh = concat chunks"
proof -
  have h0: "h0 = \<lparr>wh_stripe = i, wh_generation = vol_generation v, wh_key = key, wh_header = [], wh_content = [],
                 wh_expected_length = declared, wh_written = 0, wh_closed = False, wh_aborted = False\<rparr>"
    and owned: "stripe_owned (vol_stripes v ! i)"
    using opened(1) stripe(2) by (auto simp: write_sync_def split: if_splits)
  have h: "wh_stripe h = i" "wh_key h = key" "wh_header h = header" "wh_content h = concat chunks" "wh_generation h = vol_generation v"
    "\<not> wh_closed h" "\<not> wh_aborted h"
    using append_all_content[OF appended] by (simp_all add: h0 handle_set_header_def)
  have gen: "admitted_generation (vol_generation v) v" using opened(2) by (simp add: admitted_generation_def)
  obtain v' where c: "commit_write exec cfg env i key header (concat chunks) (vol_generation v) v = Some (Inr (), v')" "stripe_ok i v'"
    "ram_lacks ok held key v'" "select_stripe key v' = Some i" "holds_object i key header (concat chunks) v'"
    using ram_cache.commit_lands[OF ram(1) stripe(1,2,3) quiet(1) ram(2) gen owned granted(1,2) kernel] granted(3) by metis
  have intent: "intent_value (core i v') = 0" using stripe_okD(2)[OF c(2)] by (simp add: volume_inv_def)
  obtain rh v'' where "read_sync exec cfg' renv key v' = Some (Inr rh, v'')" "rh_header rh = header" "rh_content rh = concat chunks"
    using ram_cache.read_of_object[where env = renv and cfg = cfg', OF ram(1) c(4) stripe_okD(1)[OF c(2)] intent c(3) quiet(2) c(5)] .
  with c(1) show ?thesis by (simp add: handle_close_def h)
qed

text \<open>A volume of one fresh stripe over a file of zeros, with an LRU cache, and its surroundings.\<close>

definition object_key :: CacheKey where "object_key = CacheKey (replicate 32 7)"

definition sample_vol :: "nat \<Rightarrow> volume \<Rightarrow> RamCacheLRU vol" where
  "sample_vol n s = \<lparr>vol_stripes = [\<lparr>stripe_core = s, stripe_dir = make_directory 1, stripe_owned = True, stripe_remove_epoch = 0\<rparr>],
     vol_disk = replicate n 0, vol_ram = Some (make_lru 1000), vol_checksum_cache = (\<lambda>_. 0), vol_revalidate_state = 1,
     vol_generation = 1, vol_teardown = False, vol_hits = [], vol_reads = 0, vol_writes = 0, vol_fsyncs = 0, vol_retained_hits = 0,
     vol_directory_read_timeouts = 0, vol_ram_coherence_rejections = 0, vol_tag_collision_evictions = 0,
     vol_bucket_full_evictions = 0, vol_write_behind_ranges = 0\<rparr>"

definition sample_vol_config :: vol_config where
  "sample_vol_config = \<lparr>cf_lease = sample_config, cf_max_object_size = 0, cf_max_read_retries = 3, cf_verify_checksum_on_read = True,
     cf_sync_on_write = False, cf_write_behind = False, cf_ram_coherence = False, cf_hit_tracker = False, cf_salt = (1, 2, 3, 4)\<rparr>"

definition sample_commit_env :: "nat \<Rightarrow> RamCacheLRU commit_env" where
  "sample_commit_env n = \<lparr>ce_alloc = sample_env, ce_pwrite = replicate n (Wrote 1), ce_revalidate = True, ce_flush = (\<lambda>v. v),
     ce_before_publish = (\<lambda>_ v. v), ce_backoff = (\<lambda>_ v. v), ce_sync_file_range_ok = True\<rparr>"

definition sample_read_env :: "nat \<Rightarrow> RamCacheLRU read_env" where
  "sample_read_env n = \<lparr>re_try_lock = True, re_scan = (\<lambda>key d. (probe_all_phases key d, True)), re_now = 20, re_shard = 0,
     re_others = (\<lambda>_ v. v)\<rparr>"

lemma sample_surroundings:
  "key_wf object_key" "alone (sample_commit_env n)" "undisturbed (sample_read_env m)" "no_failure (ce_pwrite (sample_commit_env n))"
  "writes (ce_pwrite (sample_commit_env n)) = n" "select_stripe key (sample_vol n s) = Some 0"
  by (simp_all add: object_key_def key_wf_def kDigestSize_def alone_def sample_commit_env_def undisturbed_def sample_read_env_def
      no_failure_def writes_def filter_replicate select_stripe_def sample_vol_def)

lemma sample_vol_simps [simp]:
  "core 0 (sample_vol n s) = s" "vol_disk (sample_vol n s) = replicate n 0" "vol_ram (sample_vol n s) = Some (make_lru 1000)"
  "\<not> vol_teardown (sample_vol n s)" "stripe_owned (vol_stripes (sample_vol n s) ! 0)" "vol_generation (sample_vol n s) = 1"
  "stripe_dir (vol_stripes (sample_vol n s) ! 0) = make_directory 1" "length (vol_stripes (sample_vol n s)) = 1"
  by (simp_all add: sample_vol_def core_def)

lemma sample_inv: "volume_inv (sample_volume\<lparr>s_write_pos := p\<rparr>) \<longleftrightarrow> 4160 \<le> p \<and> p \<le> 8256" "phase_ok (sample_volume\<lparr>s_write_pos := p\<rparr>)"
  by (auto simp: volume_inv_def geometry_wf_def cursor_wf_def current_write_cursor_def intent_value_def pass_now_def exposure_gen_def
      phase_ok_def sample_volume_def data_start_rel_def kMaxChunks_def)

lemma sample_ok:
  assumes "4160 \<le> p" "p \<le> 8256" "8 dvd p" "8256 \<le> n"
  shows "stripe_ok 0 (sample_vol n (sample_volume\<lparr>s_write_pos := p\<rparr>))"
proof -
  have "dir_wf (make_directory 1)" using dir_reachable_wf[OF dir_reachable.fresh[of 1]] by simp
  moreover have "bucket_unique (bucket_at b (make_directory 1))" if "b < num_buckets (make_directory 1)" for b
    using that by (auto simp: bucket_unique_def bucket_at_def make_directory_def subspan_def)
  ultimately show ?thesis
    using assms sample_inv[of p] by (simp add: stripe_ok_def Let_def) (simp add: sample_volume_def)
qed

lemma mapped_size_200: "mapped_size 200 = 512"
proof -
  have "approx_size (set_approx_size 200 empty_entry) = 512" by code_simp
  then show ?thesis by (simp add: mapped_size_def)
qed

lemma sample_appends:
  fixes header :: bytes and chunks :: "bytes list"
  assumes "write_sync sample_vol_config object_key 0 (sample_vol n s) = Inr h0" and "length (concat chunks) \<le> 1000"
  shows "\<exists>h. append_all sample_vol_config chunks (sample_vol n s) (handle_set_header header h0) = Some h"
proof -
  have "\<exists>h. append_all sample_vol_config chunks (sample_vol n s) h1 = Some h"
    if "\<not> wh_closed h1" "\<not> wh_aborted h1" "wh_generation h1 = 1" "wh_written h1 + length (concat chunks) \<le> 1000" for h1
    using that
  proof (induction chunks arbitrary: h1)
    case (Cons data chunks)
    have "admit_append sample_vol_config (length data) h1 (sample_vol n s) = Inr ()"
      using Cons.prems by (simp add: admit_append_def sample_vol_config_def kMaxContentSize_def kHeaderSize_def)
    then show ?case
      using Cons.IH[of "h1\<lparr>wh_content := wh_content h1 @ data, wh_written := wh_written h1 + length data\<rparr>"] Cons.prems
      by (simp add: handle_write_def)
  qed simp
  then show ?thesis
    using assms sample_surroundings(6)[of object_key n s]
    by (auto simp: write_sync_def handle_set_header_def sample_vol_config_def split: if_splits)
qed

theorem written_object_reads_back_witness:
  "\<exists>h0 h h' v' rh v''. write_sync sample_vol_config object_key 0 (sample_vol 16384 sample_volume) = Inr h0 \<and>
     append_all sample_vol_config [replicate 30 1, replicate 30 2] (sample_vol 16384 sample_volume) (handle_set_header (replicate 8 9) h0) = Some h \<and>
     handle_close lru_exec sample_vol_config (sample_commit_env 16384) (sample_vol 16384 sample_volume) h = Some (Inr (), h', v') \<and>
     read_sync lru_exec sample_vol_config sample_read_env object_key v' = Some (Inr rh, v'') \<and>
     rh_header rh = replicate 8 9 \<and> rh_content rh = replicate 30 1 @ replicate 30 2"
proof -
  let ?v = "sample_vol 16384 sample_volume" and ?chunks = "[replicate 30 1, replicate 30 2] :: bytes list"
  have sv: "sample_volume\<lparr>s_write_pos := 4160\<rparr> = sample_volume" by (simp add: sample_volume_def)
  obtain h0 where h0: "write_sync sample_vol_config object_key 0 ?v = Inr h0"
    using sample_surroundings(6)[of object_key 16384 sample_volume] by (simp add: write_sync_def sample_vol_config_def)
  obtain h where h: "append_all sample_vol_config ?chunks ?v (handle_set_header (replicate 8 9) h0) = Some h"
    using sample_appends[OF h0, of ?chunks "replicate 8 9"] by auto
  have ok: "stripe_ok 0 ?v" using sample_ok[of 4160 16384] by (simp add: sv)
  have A: "allocate_write_slot (cf_lease sample_vol_config) (ce_alloc (sample_commit_env 16384))
      (132 + length (replicate 8 (9 :: byte)) + length (concat ?chunks)) (core 0 ?v) = (sample_reserved, Inr sample_slot)"
    using sample_alloc by (simp add: sample_vol_config_def sample_commit_env_def)
  have room: "ws_write_offset sample_slot + mapped_size (132 + length (replicate 8 (9 :: byte)) + length (concat ?chunks)) \<le> length (vol_disk ?v)"
    using mapped_size_200 by (simp add: sample_slot_def)
  have "\<exists>h' v' rh v''. handle_close lru_exec sample_vol_config (sample_commit_env 16384) ?v h = Some (Inr (), h', v') \<and>
      read_sync lru_exec sample_vol_config sample_read_env object_key v' = Some (Inr rh, v'') \<and>
      rh_header rh = replicate 8 9 \<and> rh_content rh = concat ?chunks"
    by (rule written_object_reads_back[OF lru.ram_cache_axioms[of 1000] _ ok _ _ h0 _ h _ A room])
      (simp_all add: sample_surroundings)
  then show ?thesis using h0 h by auto
qed

section \<open>Removing a key\<close>


text \<open>The volume after the sample object was committed.\<close>

lemma sample_committed:
  assumes len: "length header = 8" "length body = 60"
  obtains v where "stripe_ok 0 v" "select_stripe object_key v = Some 0" "stripe_owned (vol_stripes v ! 0)"
    "ram_lacks (\<lambda>s. lru_inv s \<and> lru_max_bytes s = 1000) lru_held object_key v" "holds_object 0 object_key header body v"
proof -
  let ?v = "sample_vol 16384 sample_volume" and ?env = "sample_commit_env 16384"
  have "sample_volume\<lparr>s_write_pos := 4160\<rparr> = sample_volume" by (simp add: sample_volume_def)
  then have ok: "stripe_ok 0 ?v" using sample_ok[of 4160 16384] by simp
  have A: "allocate_write_slot (cf_lease sample_vol_config) (ce_alloc ?env) (132 + length header + length body) (core 0 ?v)
      = (sample_reserved, Inr sample_slot)"
    using sample_alloc by (simp add: len sample_vol_config_def sample_commit_env_def)
  have room: "ws_write_offset sample_slot + mapped_size (132 + length header + length body) \<le> length (vol_disk ?v)"
    using mapped_size_200 by (simp add: len sample_slot_def)
  have pre: "admitted_generation 1 ?v" "stripe_owned (vol_stripes ?v ! 0)" "132 + length header + length body < 2 ^ 32"
    by (simp_all add: len admitted_generation_def)
  have ram: "\<And>r. vol_ram ?v = Some r \<Longrightarrow> lru_inv r \<and> lru_max_bytes r = 1000" by (simp add: sample_surroundings)
  have ks: "length (vol_disk ?v) \<le> writes (ce_pwrite ?env)" by (simp add: sample_surroundings)
  obtain v where v: "stripe_ok 0 v" "ram_lacks (\<lambda>s. lru_inv s \<and> lru_max_bytes s = 1000) lru_held object_key v"
    "select_stripe object_key v = Some 0" "owners v = owners ?v" "holds_object 0 object_key header body v"
    using lru.commit_lands[of 0 ?v object_key ?env 1000 1 header body sample_vol_config sample_reserved sample_slot,
      OF ok sample_surroundings(6,1,2) ram pre A sample_surroundings(4) ks] room by blast
  show thesis using that[OF v(1,3) _ v(2,5)] ownersD(2)[OF v(4), of 0] pre(2) by simp
qed


section \<open>Reads among other threads\<close>



section \<open>Commits at the end of the file, and refused ones\<close>

text \<open>
  C40.
  A committed document that ends closer to the end of the file than its directory entry's rounded-up
  size is lost to its readers: the commit reports success and a read of the key reports NotFound.
\<close>

theorem tail_document_unreadable:
  assumes ram: "ram_cache ok held exec free" "\<And>r. vol_ram v = Some r \<Longrightarrow> ok r"
    and stripe: "stripe_ok i v" "select_stripe key v = Some i" "stripe_owned (vol_stripes v ! i)" "key_wf key"
    and quiet: "alone env" "undisturbed (renv 0)" "admitted_generation g v"
    and n: "132 + length header + length body < 2 ^ 32"
    and A: "allocate_write_slot (cf_lease cfg) (ce_alloc env) (132 + length header + length body) (core i v) = (c, Inr ws)"
    and ks: "no_failure (ce_pwrite env)" "length (vol_disk v) \<le> writes (ce_pwrite env)"
    and tail: "length (vol_disk v) < ws_write_offset ws + mapped_size (132 + length header + length body)"
  shows "\<exists>v' v''. commit_write exec cfg env i key header body g v = Some (Inr (), v') \<and>
    read_sync exec cfg' renv key v' = Some (Inl NotFound, v'')"
proof -
  obtain v' where v': "commit_write exec cfg env i key header body g v = Some (Inr (), v')" "ram_lacks ok held key v'"
    "select_stripe key v' = Some i" "unreadable i key v'"
    using ram_cache.commit_lands[OF ram(1) stripe(1,2,4) quiet(1) ram(2) quiet(3) stripe(3) n A ks] tail by blast
  have "\<exists>v''. read_sync exec cfg' renv key v' = Some (Inl NotFound, v'')"
    using v'(4) by (intro ram_cache.read_of_nothing[where env = renv and cfg = cfg', OF ram(1) v'(3,2) quiet(2)]) (simp add: unreadable_def)
  then show ?thesis using v'(1) by blast
qed

lemma tail_alloc:
  "allocate_write_slot sample_config sample_env 200 (sample_volume\<lparr>s_write_pos := 8056\<rparr>)
     = (sample_reserved\<lparr>s_write_pos := 8056\<rparr>, Inr (sample_slot\<lparr>ws_write_offset := 8056, ws_new_write_pos := 8256\<rparr>))"
  by (simp add: allocate_write_slot_def make_room_def retention_prepare_def prepare_wrap_def prepare_mandatory_def
      prepare_early_def sample_reserved_def sample_volume_def sample_config_def sample_env_def Let_def
     sub64_def align_down_def end_deferral_episode_def tail_fill_end_def pass_of_def exposure_gen_def sample_slot_def
     frontier_rel_of_def data_start_rel_def advance_frontier_def chunk_index_ceil_def lease_gate_def set_wrap_intent_def
     set_wrap_intent_value_def lease_expiry_ns_def store_exposure_gen_def)

theorem tail_document_unreadable_witness:
  "\<exists>v' v''. commit_write lru_exec sample_vol_config (sample_commit_env 8256) 0 object_key (replicate 8 9) (replicate 60 1) 1
       (sample_vol 8256 (sample_volume\<lparr>s_write_pos := 8056\<rparr>)) = Some (Inr (), v') \<and>
     read_sync lru_exec sample_vol_config sample_read_env object_key v' = Some (Inl NotFound, v'')"
proof -
  let ?v = "sample_vol 8256 (sample_volume\<lparr>s_write_pos := 8056\<rparr>)" and ?env = "sample_commit_env 8256"
  obtain header body :: bytes where hb: "header = replicate 8 9" "body = replicate 60 1" by simp
  then have len: "length header = 8" "length body = 60" by simp_all
  have ok: "stripe_ok 0 ?v" using sample_ok[of 8056 8256] by simp
  have A: "allocate_write_slot (cf_lease sample_vol_config) (ce_alloc ?env) (132 + length header + length body) (core 0 ?v)
      = (sample_reserved\<lparr>s_write_pos := 8056\<rparr>, Inr (sample_slot\<lparr>ws_write_offset := 8056, ws_new_write_pos := 8256\<rparr>))"
    using tail_alloc by (simp add: len sample_vol_config_def sample_commit_env_def)
  have tail: "length (vol_disk ?v) < ws_write_offset (sample_slot\<lparr>ws_write_offset := 8056, ws_new_write_pos := 8256\<rparr>) + mapped_size (132 + length header + length body)"
    using mapped_size_200 by (simp add: len)
  have pre: "stripe_owned (vol_stripes ?v ! 0)" "admitted_generation 1 ?v" "132 + length header + length body < 2 ^ 32"
    "length (vol_disk ?v) \<le> writes (ce_pwrite ?env)" by (simp_all add: len admitted_generation_def sample_surroundings)
  have ram: "\<And>r. vol_ram ?v = Some r \<Longrightarrow> lru_inv r \<and> lru_max_bytes r = 1000" by (simp add: sample_surroundings)
  show ?thesis
    using tail_document_unreadable[of "\<lambda>s. lru_inv s \<and> lru_max_bytes s = 1000" lru_held lru_exec lru_free ?v 0 object_key ?env sample_read_env 1
        header body sample_vol_config _ _ sample_vol_config,
      OF lru.ram_cache_axioms ram ok sample_surroundings(6) pre(1) sample_surroundings(1,2,3) pre(2,3) A sample_surroundings(4) pre(4) tail]
    unfolding hb .
qed

lemma set_core_dirs: "map stripe_dir (vol_stripes (set_core i c v)) = map stripe_dir (vol_stripes v)"
  by (cases "i < length (vol_stripes v)") (auto simp: set_core_def nth_list_update intro: nth_equalityI)

lemma set_core_other: "j \<noteq> i \<Longrightarrow> core j (set_core i c v) = core j v"
  by (simp add: core_def set_core_def)

lemma filled_keeps:
  assumes "filled ok data off disk disk'" and "off + length data \<le> length disk"
  shows "length disk' = length disk" "take off disk' = take off disk"
  using assms by (auto simp: filled_def put_at_def)


lemma oversized_refused:
  assumes len: "length header = 8" "length body = 9000"
  obtains v' where "commit_write lru_exec sample_vol_config (sample_commit_env 16384) 0 object_key header body 1 (sample_vol 16384 sample_volume)
    = Some (Inl NoSpace, v')"
proof -
  let ?h = "build_head (commit_builder object_key header) body"
  have ne: "?h \<noteq> []" using commit_head_empty[OF sample_surroundings(1), of header body] len by auto
  obtain d where d: "?h = serialize_to d @ header" "volume_document (digest object_key) header body d"
    using commit_head[OF sample_surroundings(1) ne] .
  then have "length ?h + length body = 9140" using length_serialize_to[of d] len by (simp add: volume_document_def)
  moreover have "snd (allocate_write_slot sample_config sample_env 9140 sample_volume) = Inl NoSpace"
    by (simp add: allocate_write_slot_def align_down_def sub64_def Let_def sample_volume_def)
  ultimately show thesis
    using that ne by (cases "allocate_write_slot sample_config sample_env 9140 sample_volume")
      (simp add: commit_write_def commit_write_impl_def admitted_generation_def Let_def sample_vol_config_def sample_commit_env_def)
qed


end
