(* ===== verification/Seqlock.thy ===== *)
theory Seqlock
  imports Directory
begin

text \<open>
  The lock-free probe of a bucket (Directory::probe_each_impl of src/src/core/directory.hpp)
  against a writer inside its odd-even bracket (begin_bucket_write, end_bucket_write), as an
  interleaving.  Every step of either side is one access to shared memory: the version, or
  one 16-bit word of an entry, so an entry copied while the writer stores into it is torn.
  Ghost state records how often the version moved and what the bucket held whenever it was
  even.  The step relation lets the writer complete fewer than 2^31 brackets within one
  attempt of the reader, which is what makes equality of 32-bit versions conclusive.
\<close>

section \<open>Model\<close>

definition get_word :: "nat \<Rightarrow> DirEntry \<Rightarrow> u16" where
  "get_word j e = [w0 e, w1 e, w2 e, w3 e, w4 e] ! j"

definition set_word :: "nat \<Rightarrow> u16 \<Rightarrow> DirEntry \<Rightarrow> DirEntry" where
  "set_word j w e =
     (if j = 0 then e\<lparr>w0 := w\<rparr> else if j = 1 then e\<lparr>w1 := w\<rparr> else if j = 2 then e\<lparr>w2 := w\<rparr>
      else if j = 3 then e\<lparr>w3 := w\<rparr> else e\<lparr>w4 := w\<rparr>)"

definition entry_of_words :: "u16 list \<Rightarrow> DirEntry" where
  "entry_of_words p = \<lparr>w0 = p ! 0, w1 = p ! 1, w2 = p ! 2, w3 = p ! 3, w4 = p ! 4\<rparr>"

text \<open>
  The reader: between attempts; with the current phase loaded; copying entry number \<open>length done\<close> word by word; about to
  re-check the version before it hands an entry to the callback; about to check it after
  the scan; finished, with the answer of probe_each and the entries handed out in the last
  attempt, which is a full scan or was stopped by the callback.
\<close>

datatype reader =
    RStart
  | RPhase bool
  | RCopy (before: u32) (at_tick: nat) (cur_phase: bool) "DirEntry list" "u16 list" "DirEntry list"
  | RCheck u32 nat bool "DirEntry list" "DirEntry list"
  | RFinal u32 nat bool "DirEntry list" "DirEntry list"
  | RDone bool bool nat bool "DirEntry list"

record seq_world =
  mem :: "DirEntry list"
  ver :: u32
  ph :: bool
  rd :: reader
  ticks :: nat
  snaps :: "nat \<Rightarrow> DirEntry list"
  handed :: "(nat \<times> DirEntry) list"

definition attempt_tick :: "reader \<Rightarrow> nat option" where
  "attempt_tick r = (case r of RCopy _ t _ _ _ _ \<Rightarrow> Some t | RCheck _ t _ _ _ \<Rightarrow> Some t | RFinal _ t _ _ _ \<Rightarrow> Some t
     | _ \<Rightarrow> None)"

definition room :: "seq_world \<Rightarrow> bool" where
  "room w \<longleftrightarrow> (case attempt_tick (rd w) of None \<Rightarrow> True | Some t \<Rightarrow> ticks w + 1 < t + 2 ^ 32)"

text \<open>Does the scan of the given phase filter and tag hand this copy to the callback?\<close>

definition wanted :: "bool \<Rightarrow> u16 \<Rightarrow> bool \<Rightarrow> DirEntry \<Rightarrow> bool" where
  "wanted filter_phase tag phase e \<longleftrightarrow>
     \<not> is_empty e \<and> (filter_phase \<longrightarrow> e_phase e = phase) \<and> e_tag e = tag"

inductive seq_step :: "bool \<Rightarrow> u16 \<Rightarrow> seq_world \<Rightarrow> seq_world \<Rightarrow> bool" for filter_phase tag where
  w_begin: "even (ver w) \<Longrightarrow> room w \<Longrightarrow> seq_step filter_phase tag w (w\<lparr>ver := ver w + 1, ticks := ticks w + 1\<rparr>)"
| w_store: "odd (ver w) \<Longrightarrow> i < length (mem w) \<Longrightarrow>
    seq_step filter_phase tag w (w\<lparr>mem := (mem w)[i := set_word j v (mem w ! i)]\<rparr>)"
| w_end: "odd (ver w) \<Longrightarrow> room w \<Longrightarrow>
    seq_step filter_phase tag w (w\<lparr>ver := ver w + 1, ticks := ticks w + 1, snaps := (snaps w)(ticks w + 1 := mem w)\<rparr>)"
| w_phase: "seq_step filter_phase tag w (w\<lparr>ph := p\<rparr>)"
| r_phase: "rd w = RStart \<Longrightarrow> seq_step filter_phase tag w (w\<lparr>rd := RPhase (ph w)\<rparr>)"
| r_begin: "rd w = RPhase p \<Longrightarrow> even (ver w) \<Longrightarrow>
    seq_step filter_phase tag w (w\<lparr>rd := RCopy (ver w) (ticks w) p [] [] []\<rparr>)"
| r_odd_retry: "rd w = RPhase p \<Longrightarrow> odd (ver w) \<Longrightarrow> seq_step filter_phase tag w (w\<lparr>rd := RStart\<rparr>)"
| r_odd_give_up: "rd w = RPhase p \<Longrightarrow> odd (ver w) \<Longrightarrow>
    seq_step filter_phase tag w (w\<lparr>rd := RDone False False (ticks w) p []\<rparr>)"
| r_word: "rd w = RCopy v t p copied part out \<Longrightarrow> length copied < length (mem w) \<Longrightarrow> length part < 5 \<Longrightarrow>
    seq_step filter_phase tag w (w\<lparr>rd := RCopy v t p copied (part @ [get_word (length part) (mem w ! length copied)]) out\<rparr>)"
| r_skip: "rd w = RCopy v t p copied part out \<Longrightarrow> length part = 5 \<Longrightarrow> \<not> wanted filter_phase tag p (entry_of_words part) \<Longrightarrow>
    seq_step filter_phase tag w (w\<lparr>rd := RCopy v t p (copied @ [entry_of_words part]) [] out\<rparr>)"
| r_match: "rd w = RCopy v t p copied part out \<Longrightarrow> length part = 5 \<Longrightarrow> wanted filter_phase tag p (entry_of_words part) \<Longrightarrow>
    seq_step filter_phase tag w (w\<lparr>rd := RCheck v t p (copied @ [entry_of_words part]) out\<rparr>)"
| r_torn: "rd w = RCheck v t p copied out \<Longrightarrow> ver w \<noteq> v \<Longrightarrow>
    seq_step filter_phase tag w (w\<lparr>rd := RFinal v t p copied out\<rparr>)"
| r_hand: "rd w = RCheck v t p copied out \<Longrightarrow> ver w = v \<Longrightarrow>
    seq_step filter_phase tag w (w\<lparr>rd := RCopy v t p copied [] (out @ [last copied]), handed := (t, last copied) # handed w\<rparr>)"
| r_hand_stop: "rd w = RCheck v t p copied out \<Longrightarrow> ver w = v \<Longrightarrow>
    seq_step filter_phase tag w
      (w\<lparr>rd := RDone True False t p (out @ [last copied]), handed := (t, last copied) # handed w\<rparr>)"
| r_scanned: "rd w = RCopy v t p copied [] out \<Longrightarrow> length copied = length (mem w) \<Longrightarrow>
    seq_step filter_phase tag w (w\<lparr>rd := RFinal v t p copied out\<rparr>)"
| r_done: "rd w = RFinal v t p copied out \<Longrightarrow> ver w = v \<Longrightarrow>
    seq_step filter_phase tag w (w\<lparr>rd := RDone True True t p out\<rparr>)"
| r_changed_retry: "rd w = RFinal v t p copied out \<Longrightarrow> ver w \<noteq> v \<Longrightarrow> seq_step filter_phase tag w (w\<lparr>rd := RStart\<rparr>)"
| r_changed_give_up: "rd w = RFinal v t p copied out \<Longrightarrow> ver w \<noteq> v \<Longrightarrow>
    seq_step filter_phase tag w (w\<lparr>rd := RDone False False t p []\<rparr>)"

definition seq_start :: "DirEntry list \<Rightarrow> bool \<Rightarrow> seq_world" where
  "seq_start b p = \<lparr>mem = b, ver = 0, ph = p, rd = RStart, ticks = 0, snaps = (\<lambda>_. b), handed = []\<rparr>"

definition seq_reachable :: "bool \<Rightarrow> u16 \<Rightarrow> DirEntry list \<Rightarrow> seq_world \<Rightarrow> bool" where
  "seq_reachable filter_phase tag b w \<longleftrightarrow> (\<exists>p. (seq_step filter_phase tag)\<^sup>*\<^sup>* (seq_start b p) w)"

section \<open>Invariant\<close>

lemma entry_of_get_words: "entry_of_words (map (\<lambda>j. get_word j e) [0 ..< 5]) = e"
  by (simp add: entry_of_words_def get_word_def upt_rec)

text \<open>What is known of the reader while the version it started from is still current.\<close>

definition copy_ok :: "DirEntry list \<Rightarrow> DirEntry list \<Rightarrow> u16 list \<Rightarrow> bool" where
  "copy_ok b copied part \<longleftrightarrow>
     copied = take (length copied) b \<and> length copied \<le> length b \<and>
     (part \<noteq> [] \<longrightarrow> length copied < length b \<and> part = map (\<lambda>j. get_word j (b ! length copied)) [0 ..< length part])"

definition attempt_ok :: "bool \<Rightarrow> u16 \<Rightarrow> seq_world \<Rightarrow> u32 \<Rightarrow> nat \<Rightarrow> bool \<Rightarrow> DirEntry list \<Rightarrow> u16 list \<Rightarrow> DirEntry list \<Rightarrow> bool" where
  "attempt_ok fp tag w v t p copied part out \<longleftrightarrow>
     v = of_nat t \<and> even t \<and> t \<le> ticks w \<and> ticks w < t + 2 ^ 32 \<and>
     (ticks w = t \<longrightarrow> copy_ok (mem w) copied part \<and> out = filter (wanted fp tag p) copied)"

definition reader_ok :: "bool \<Rightarrow> u16 \<Rightarrow> seq_world \<Rightarrow> bool" where
  "reader_ok fp tag w \<longleftrightarrow>
     (case rd w of
        RStart \<Rightarrow> True
      | RPhase p \<Rightarrow> True
      | RCopy v t p copied part out \<Rightarrow> attempt_ok fp tag w v t p copied part out
      | RCheck v t p copied out \<Rightarrow>
          copied \<noteq> [] \<and> wanted fp tag p (last copied) \<and> attempt_ok fp tag w v t p copied [] (out @ [last copied])
      | RFinal v t p copied out \<Rightarrow>
          attempt_ok fp tag w v t p copied [] out \<and> (ticks w = t \<longrightarrow> length copied = length (mem w)) \<or>
          v = of_nat t \<and> even t \<and> t < ticks w \<and> ticks w < t + 2 ^ 32
      | RDone ok full t p out \<Rightarrow>
          ok \<longrightarrow> even t \<and> t \<le> ticks w \<and>
            (if full then out = filter (wanted fp tag p) (snaps w t)
             else \<exists>n. out = filter (wanted fp tag p) (take n (snaps w t))))"

definition seq_inv :: "bool \<Rightarrow> u16 \<Rightarrow> seq_world \<Rightarrow> bool" where
  "seq_inv fp tag w \<longleftrightarrow>
     ver w = of_nat (ticks w) \<and> (even (ticks w) \<longrightarrow> snaps w (ticks w) = mem w) \<and> reader_ok fp tag w \<and>
     (\<forall>(t, e) \<in> set (handed w). even t \<and> t \<le> ticks w \<and> e \<in> set (snaps w t) \<and> \<not> is_empty e \<and> e_tag e = tag)"

lemma even_of_nat_word: "even (of_nat n :: u32) \<longleftrightarrow> even n"
  by simp

lemma of_nat_tick_eq:
  assumes "(of_nat t :: u32) = of_nat k" and "t \<le> k" and "k < t + 2 ^ 32"
  shows "t = k"
proof -
  have "(of_nat (k - t) :: u32) = 0"
    using assms(1,2) by simp
  then have "2 ^ 32 dvd k - t"
    by (simp add: word_of_nat_eq_0_iff)
  then show ?thesis
    using assms(2,3) by (metis add.right_neutral dvd_imp_le le_add_diff_inverse less_diff_conv2 linorder_not_le neq0_conv add.commute)
qed

lemma attempt_current:
  assumes "attempt_ok fp tag w v t p copied part out" and "ver w = of_nat (ticks w)" and "ver w = v"
  shows "ticks w = t"
  using assms of_nat_tick_eq[of t "ticks w"] by (simp add: attempt_ok_def)

text \<open>A step of the writer that moves the version.\<close>

lemma reader_ok_tick:
  assumes "reader_ok fp tag w" and "room w"
    and w': "rd w' = rd w" "ticks w' = ticks w + 1" "\<And>t. t \<le> ticks w \<Longrightarrow> snaps w' t = snaps w t"
  shows "reader_ok fp tag w'"
proof (cases "rd w")
  case (RDone ok full t p out)
  then show ?thesis using assms by (auto simp: reader_ok_def split: if_splits)
qed (use assms in \<open>auto simp: reader_ok_def attempt_ok_def room_def attempt_tick_def\<close>)

lemma reader_ok_store:
  assumes "reader_ok fp tag w" and "odd (ticks w)" and w': "rd w' = rd w" "ticks w' = ticks w" "snaps w' = snaps w"
  shows "reader_ok fp tag w'"
proof (cases "rd w")
  case (RDone ok full t p out)
  then show ?thesis using assms by (simp add: reader_ok_def)
qed (use assms in \<open>auto simp: reader_ok_def attempt_ok_def\<close>)

lemma copy_ok_word:
  assumes "copy_ok b copied part" and "length copied < length b"
  shows "copy_ok b copied (part @ [get_word (length part) (b ! length copied)])"
  using assms by (cases "part = []") (auto simp: copy_ok_def)

lemma copy_ok_entry:
  assumes "copy_ok b copied part" and "length part = 5"
  shows "copy_ok b (copied @ [entry_of_words part]) []" "entry_of_words part = b ! length copied"
proof -
  have c: "copied = take (length copied) b" "length copied < length b" "part = map (\<lambda>j. get_word j (b ! length copied)) [0 ..< length part]"
    using assms by (auto simp: copy_ok_def)
  show e: "entry_of_words part = b ! length copied"
    using c(3) entry_of_get_words[of "b ! length copied"] assms(2) by simp
  show "copy_ok b (copied @ [entry_of_words part]) []"
    using c(1,2) by (simp add: copy_ok_def e take_Suc_conv_app_nth)
qed

lemma reader_ok_copy:
  assumes "reader_ok fp tag w" and "rd w = RCopy v t p copied part out"
  shows "length copied < length (mem w) \<Longrightarrow>
      reader_ok fp tag (w\<lparr>rd := RCopy v t p copied (part @ [get_word (length part) (mem w ! length copied)]) out\<rparr>)"
    and "length part = 5 \<Longrightarrow> \<not> wanted fp tag p (entry_of_words part) \<Longrightarrow>
      reader_ok fp tag (w\<lparr>rd := RCopy v t p (copied @ [entry_of_words part]) [] out\<rparr>)"
    and "length part = 5 \<Longrightarrow> wanted fp tag p (entry_of_words part) \<Longrightarrow>
      reader_ok fp tag (w\<lparr>rd := RCheck v t p (copied @ [entry_of_words part]) out\<rparr>)"
    and "part = [] \<Longrightarrow> length copied = length (mem w) \<Longrightarrow> reader_ok fp tag (w\<lparr>rd := RFinal v t p copied out\<rparr>)"
  using assms copy_ok_word[of "mem w" copied part] copy_ok_entry[of "mem w" copied part]
  by (auto simp: reader_ok_def attempt_ok_def)

lemma reader_ok_check:
  assumes inv: "seq_inv fp tag w" and rd: "rd w = RCheck v t p copied out"
  shows "ver w \<noteq> v \<Longrightarrow> reader_ok fp tag (w\<lparr>rd := RFinal v t p copied out\<rparr>)"
    and "ver w = v \<Longrightarrow> reader_ok fp tag (w\<lparr>rd := RCopy v t p copied [] (out @ [last copied]), handed := h\<rparr>)"
    and "ver w = v \<Longrightarrow> reader_ok fp tag (w\<lparr>rd := RDone True False t p (out @ [last copied]), handed := h\<rparr>)"
    and "ver w = v \<Longrightarrow> even t \<and> t \<le> ticks w \<and> last copied \<in> set (snaps w t) \<and> wanted fp tag p (last copied)"
proof -
  have a: "attempt_ok fp tag w v t p copied [] (out @ [last copied])" "copied \<noteq> []" "wanted fp tag p (last copied)"
    and v: "ver w = of_nat (ticks w)" and m: "even (ticks w) \<Longrightarrow> snaps w (ticks w) = mem w"
    using inv rd by (auto simp: seq_inv_def reader_ok_def)
  show "ver w \<noteq> v \<Longrightarrow> reader_ok fp tag (w\<lparr>rd := RFinal v t p copied out\<rparr>)"
    using a(1) v by (auto simp: reader_ok_def attempt_ok_def)
  have now: "ticks w = t" if "ver w = v"
    using attempt_current[OF a(1) v that] .
  have cur: "snaps w t = mem w" "copied = take (length copied) (mem w)" "out @ [last copied] = filter (wanted fp tag p) copied"
    if "ver w = v"
    using a(1) m now[OF that] by (auto simp: attempt_ok_def copy_ok_def)
  have last_mem: "last copied \<in> set (mem w)" if "ver w = v"
    using last_in_set[OF a(2)] in_set_takeD[of "last copied" "length copied" "mem w"] cur(2)[OF that] by simp
  show "ver w = v \<Longrightarrow> reader_ok fp tag (w\<lparr>rd := RCopy v t p copied [] (out @ [last copied]), handed := h\<rparr>)"
    using a(1) by (simp add: reader_ok_def attempt_ok_def)
  show "ver w = v \<Longrightarrow> reader_ok fp tag (w\<lparr>rd := RDone True False t p (out @ [last copied]), handed := h\<rparr>)"
    using a(1) cur by (auto simp: reader_ok_def attempt_ok_def intro!: exI[of _ "length copied"])
  show "ver w = v \<Longrightarrow> even t \<and> t \<le> ticks w \<and> last copied \<in> set (snaps w t) \<and> wanted fp tag p (last copied)"
    using a cur last_mem by (auto simp: attempt_ok_def)
qed

lemma reader_ok_final:
  assumes inv: "seq_inv fp tag w" and rd: "rd w = RFinal v t p copied out" and "ver w = v"
  shows "reader_ok fp tag (w\<lparr>rd := RDone True True t p out\<rparr>)"
proof -
  have v: "ver w = of_nat (ticks w)" and m: "even (ticks w) \<Longrightarrow> snaps w (ticks w) = mem w"
    and r: "reader_ok fp tag w"
    using inv by (auto simp: seq_inv_def)
  have "ticks w = t"
    using r rd attempt_current[OF _ v assms(3)] of_nat_tick_eq[of t "ticks w"] v assms(3) by (auto simp: reader_ok_def)
  then show ?thesis
    using r rd m by (auto simp: reader_ok_def attempt_ok_def copy_ok_def)
qed

lemma seq_inv_step:
  assumes "seq_step fp tag w w'" and "seq_inv fp tag w"
  shows "seq_inv fp tag w'"
  using assms(1)
proof cases
  case w_begin
  then have "reader_ok fp tag w'"
    using reader_ok_tick[of fp tag w w'] assms(2) by (simp add: seq_inv_def)
  then show ?thesis using w_begin assms(2) by (auto simp: seq_inv_def)
next
  case (w_store i j v)
  then have "reader_ok fp tag w'"
    using reader_ok_store[of fp tag w w'] assms(2) by (simp add: seq_inv_def)
  then show ?thesis using w_store assms(2) by (auto simp: seq_inv_def)
next
  case w_end
  then have "reader_ok fp tag w'"
    using reader_ok_tick[of fp tag w w'] assms(2) by (simp add: seq_inv_def)
  then show ?thesis using w_end assms(2) by (fastforce simp: seq_inv_def)
next
  case (w_phase p)
  moreover have "reader_ok fp tag w'"
    using assms(2) w_phase by (cases "rd w") (auto simp: seq_inv_def reader_ok_def attempt_ok_def)
  ultimately show ?thesis using assms(2) by (simp add: seq_inv_def)
next
  case (r_begin p)
  then show ?thesis
    using assms(2) by (auto simp: seq_inv_def reader_ok_def attempt_ok_def copy_ok_def)
next
  case (r_word v t p copied part out)
  then show ?thesis
    using assms(2) reader_ok_copy(1)[of fp tag w v t p copied part out] by (auto simp: seq_inv_def)
next
  case (r_skip v t p copied part out)
  then show ?thesis
    using assms(2) reader_ok_copy(2)[of fp tag w v t p copied part out] by (auto simp: seq_inv_def)
next
  case (r_match v t p copied part out)
  then show ?thesis
    using assms(2) reader_ok_copy(3)[of fp tag w v t p copied part out] by (auto simp: seq_inv_def)
next
  case (r_torn v t p copied out)
  then show ?thesis
    using assms(2) reader_ok_check(1)[OF assms(2)] by (auto simp: seq_inv_def)
next
  case (r_hand v t p copied out)
  then show ?thesis
    using assms(2) reader_ok_check(2,4)[OF assms(2) r_hand(2)] by (auto simp: seq_inv_def wanted_def)
next
  case (r_hand_stop v t p copied out)
  then show ?thesis
    using assms(2) reader_ok_check(3,4)[OF assms(2) r_hand_stop(2)] by (auto simp: seq_inv_def wanted_def)
next
  case (r_scanned v t p copied out)
  then show ?thesis
    using assms(2) reader_ok_copy(4)[of fp tag w v t p copied "[]" out] by (auto simp: seq_inv_def)
next
  case (r_done v t p copied out)
  then show ?thesis
    using assms(2) reader_ok_final[OF assms(2)] by (auto simp: seq_inv_def)
qed (use assms(2) in \<open>auto simp: seq_inv_def reader_ok_def\<close>)

lemma seq_inv_reachable: "seq_reachable fp tag b w \<Longrightarrow> seq_inv fp tag w"
proof -
  assume "seq_reachable fp tag b w"
  then obtain p where "(seq_step fp tag)\<^sup>*\<^sup>* (seq_start b p) w" by (auto simp: seq_reachable_def)
  then show ?thesis
  proof (induction rule: rtranclp_induct)
    case base
    then show ?case by (simp add: seq_inv_def seq_start_def reader_ok_def)
  next
    case (step y z)
    then show ?case using seq_inv_step by blast
  qed
qed

lemma scan_entries_wanted: "scan_entries (if fp then Some p else None) tag b = filter (wanted fp tag p) b"
  by (cases fp) (auto simp: scan_entries_def wanted_def intro!: filter_cong)

text \<open>
  C23.
  The lock-free probe is consistent: whatever a writer does in its brackets while a reader
  copies the bucket word by word, every entry the reader hands to its callback is, as a
  whole, an entry the bucket held at an instant when no writer was inside a bracket, with
  the key's tag; and when the probe reports a complete scan, the entries of its last attempt
  are exactly what one atomic scan of the bucket at such an instant would have given.
\<close>

theorem seqlock_probe_consistent:
  assumes "seq_reachable fp tag b w"
  shows "(rd w = RDone True True t p out \<longrightarrow>
      even t \<and> t \<le> ticks w \<and> out = scan_entries (if fp then Some p else None) tag (snaps w t)) \<and>
    ((t', e) \<in> set (handed w) \<longrightarrow> even t' \<and> t' \<le> ticks w \<and> e \<in> set (snaps w t') \<and> \<not> is_empty e \<and> e_tag e = tag)"
  using seq_inv_reachable[OF assms] by (auto simp: seq_inv_def reader_ok_def scan_entries_wanted)

lemma copy_words:
  assumes "rd w = RCopy v t p copied [] out" and "length copied < length (mem w)" and "k \<le> 5"
  shows "(seq_step fp tag)\<^sup>*\<^sup>* w (w\<lparr>rd := RCopy v t p copied (map (\<lambda>j. get_word j (mem w ! length copied)) [0 ..< k]) out\<rparr>)"
  using assms(3)
proof (induction k)
  case 0
  have "w\<lparr>rd := RCopy v t p copied [] out\<rparr> = w"
    using assms(1) by (cases w) simp
  then show ?case by simp
next
  case (Suc k)
  let ?w = "w\<lparr>rd := RCopy v t p copied (map (\<lambda>j. get_word j (mem w ! length copied)) [0 ..< k]) out\<rparr>"
  have "seq_step fp tag ?w (?w\<lparr>rd := RCopy v t p copied (map (\<lambda>j. get_word j (mem w ! length copied)) [0 ..< k] @
      [get_word (length (map (\<lambda>j. get_word j (mem w ! length copied)) [0 ..< k])) (mem ?w ! length copied)]) out\<rparr>)"
    by (rule seq_step.r_word) (use assms Suc.prems in simp_all)
  then show ?case
    using Suc by (simp add: rtranclp.rtrancl_into_rtrancl)
qed

definition sample_entry :: DirEntry where
  "sample_entry = set_tag 7 (set_offset 4096 empty_entry)"

lemma sample_entry_fields: "e_tag sample_entry = 7" "e_offset sample_entry = 4096"
  by (simp_all add: sample_entry_def take_bit_eq_mask mask_numeral)

lemma sample_probe:
  "seq_reachable False 7 [sample_entry]
    ((seq_start [sample_entry] False)\<lparr>rd := RDone True True 0 False [sample_entry], handed := [(0, sample_entry)]\<rparr>)"
proof -
  let ?s = "seq_start [sample_entry] False" and ?step = "seq_step False 7"
  have 1: "?step ?s (?s\<lparr>rd := RPhase False\<rparr>)"
    using seq_step.r_phase[of ?s False 7] by (simp add: seq_start_def)
  have 2: "?step (?s\<lparr>rd := RPhase False\<rparr>) (?s\<lparr>rd := RCopy 0 0 False [] [] []\<rparr>)"
    using seq_step.r_begin[of "?s\<lparr>rd := RPhase False\<rparr>" False False 7] by (simp add: seq_start_def)
  let ?part = "map (\<lambda>j. get_word j sample_entry) [0 ..< 5]"
  have 3: "?step\<^sup>*\<^sup>* (?s\<lparr>rd := RCopy 0 0 False [] [] []\<rparr>) (?s\<lparr>rd := RCopy 0 0 False [] ?part []\<rparr>)"
    using copy_words[of "?s\<lparr>rd := RCopy 0 0 False [] [] []\<rparr>" 0 0 False "[]" "[]" 5 False 7] by (simp add: seq_start_def)
  have e: "entry_of_words ?part = sample_entry" by (rule entry_of_get_words)
  have 4: "?step (?s\<lparr>rd := RCopy 0 0 False [] ?part []\<rparr>) (?s\<lparr>rd := RCheck 0 0 False [sample_entry] []\<rparr>)"
    using seq_step.r_match[of "?s\<lparr>rd := RCopy 0 0 False [] ?part []\<rparr>" 0 0 False "[]" ?part "[]" False 7] e sample_entry_fields
    by (simp add: wanted_def is_empty_def)
  have 5: "?step (?s\<lparr>rd := RCheck 0 0 False [sample_entry] []\<rparr>)
      (?s\<lparr>rd := RCopy 0 0 False [sample_entry] [] [sample_entry], handed := [(0, sample_entry)]\<rparr>)"
    using seq_step.r_hand[of "?s\<lparr>rd := RCheck 0 0 False [sample_entry] []\<rparr>" 0 0 False "[sample_entry]" "[]" False 7]
    by (simp add: seq_start_def)
  let ?h = "?s\<lparr>handed := [(0, sample_entry)]\<rparr>"
  have 6: "?step (?h\<lparr>rd := RCopy 0 0 False [sample_entry] [] [sample_entry]\<rparr>) (?h\<lparr>rd := RFinal 0 0 False [sample_entry] [sample_entry]\<rparr>)"
    using seq_step.r_scanned[of "?h\<lparr>rd := RCopy 0 0 False [sample_entry] [] [sample_entry]\<rparr>" 0 0 False "[sample_entry]" "[sample_entry]" False 7]
    by (simp add: seq_start_def)
  have 7: "?step (?h\<lparr>rd := RFinal 0 0 False [sample_entry] [sample_entry]\<rparr>) (?h\<lparr>rd := RDone True True 0 False [sample_entry]\<rparr>)"
    using seq_step.r_done[of "?h\<lparr>rd := RFinal 0 0 False [sample_entry] [sample_entry]\<rparr>" 0 0 False "[sample_entry]" "[sample_entry]" False 7]
    by (simp add: seq_start_def)
  have "?step\<^sup>*\<^sup>* ?s (?s\<lparr>rd := RDone True True 0 False [sample_entry], handed := [(0, sample_entry)]\<rparr>)"
    using 1 2 3 4 5 6 7 by (simp add: seq_start_def)
  then show ?thesis
    by (auto simp: seq_reachable_def)
qed

theorem seqlock_probe_consistent_witness:
  "[sample_entry] = scan_entries None 7 [sample_entry]"
  using seqlock_probe_consistent[OF sample_probe, of 0 False "[sample_entry]" 0 sample_entry] by (simp add: seq_start_def)

end
