(* ===== verification/Wait_Loops.thy ===== *)
theory Wait_Loops
  imports Cyclone_Prelude
begin

text \<open>
  How readers wait out a writer and writers wait for a lock: SleepBackoff, SeqlockReadWait and
  LockHolderWait of src/src/core/directory.hpp.  Times are nanoseconds of the steady clock.  What
  the code reads from outside (the clock, the versions a spin loads) is an argument; what it
  sleeps is part of the result.
\<close>

section \<open>Backoff\<close>

definition us :: "nat \<Rightarrow> nat" where "us n = n * 1000"

text \<open>One sleep toward the deadline: the time asked for and the next step.\<close>

definition backoff_sleep :: "nat \<Rightarrow> nat \<Rightarrow> nat \<Rightarrow> nat \<Rightarrow> nat \<times> nat" where
  "backoff_sleep kMax step now deadline =
     (let left = deadline - now
      in (if left < step then left else step, if step < kMax then step * 2 else step))"

section \<open>The seqlock reader's wait\<close>

definition kFastAttempts :: nat where "kFastAttempts = 100"
definition kSpinsPerAttempt :: nat where "kSpinsPerAttempt = 1000"
definition kBudget :: nat where "kBudget = us 5000"
definition kFastPhaseCap :: nat where "kFastPhaseCap = us 500"
definition kFirstSleep :: nat where "kFirstSleep = us 10"
definition kMaxSleep :: nat where "kMaxSleep = us 1000"

record SeqlockReadWait =
  attempts :: nat
  fast_started :: bool
  fast_start :: nat
  rw_deadline :: nat
  rw_step :: nat

definition read_wait :: SeqlockReadWait where
  "read_wait = \<lparr>attempts = 0, fast_started = False, fast_start = 0, rw_deadline = 0, rw_step = kFirstSleep\<rparr>"

definition fast_phase_past_cap :: "nat \<Rightarrow> SeqlockReadWait \<Rightarrow> bool \<times> SeqlockReadWait" where
  "fast_phase_past_cap now w =
     (if \<not> fast_started w then (False, w\<lparr>fast_started := True, fast_start := now\<rparr>)
      else (now - fast_start w > kFastPhaseCap, w))"

text \<open>The spin: the versions its loads return, until one is even.\<close>

fun spin_even :: "nat \<Rightarrow> (nat \<Rightarrow> u32) \<Rightarrow> nat \<Rightarrow> u32 \<Rightarrow> bool \<times> u32" where
  "spin_even 0 load i version = (False, version)"
| "spin_even (Suc n) load i version =
     (if even (load i) then (True, load i) else spin_even n load (i + 1) (load i))"

definition wait_for_even :: "u32 \<Rightarrow> (nat \<Rightarrow> u32) \<Rightarrow> nat \<Rightarrow> SeqlockReadWait \<Rightarrow> u32 \<times> SeqlockReadWait" where
  "wait_for_even version load now w =
     (if attempts w > kFastAttempts then (version, w)
      else
        case spin_even kSpinsPerAttempt load 0 version of
          (True, v) \<Rightarrow> (v, w)
        | (False, v) \<Rightarrow>
            (case fast_phase_past_cap now w of
               (past, w) \<Rightarrow> (v, if past then w\<lparr>attempts := kFastAttempts\<rparr> else w)))"

definition even_version :: "u32 \<Rightarrow> (nat \<Rightarrow> u32) \<Rightarrow> nat \<Rightarrow> SeqlockReadWait \<Rightarrow> u32 \<times> SeqlockReadWait" where
  "even_version first load now w = (if even first then (first, w) else wait_for_even first load now w)"

text \<open>timed_retry: whether to try again, the sleep taken, and the state after it.\<close>

definition timed_retry :: "nat \<Rightarrow> SeqlockReadWait \<Rightarrow> bool \<times> nat \<times> SeqlockReadWait" where
  "timed_retry now w =
     (if attempts w \<noteq> kFastAttempts \<and> now \<ge> rw_deadline w then (False, 0, w)
      else
        let w = (if attempts w = kFastAttempts then w\<lparr>attempts := attempts w + 1, rw_deadline := now + kBudget\<rparr> else w)
        in case backoff_sleep kMaxSleep (rw_step w) now (rw_deadline w) of
             (slept, step) \<Rightarrow> (True, slept, w\<lparr>rw_step := step\<rparr>))"

definition retry :: "nat \<Rightarrow> SeqlockReadWait \<Rightarrow> bool \<times> nat \<times> SeqlockReadWait" where
  "retry now w = (if attempts w < kFastAttempts then (True, 0, w\<lparr>attempts := attempts w + 1\<rparr>) else timed_retry now w)"

text \<open>
  One failed attempt of a probe that is told to try again: the wait for an even version, then
  retry.  The clock does not run backwards, and a sleep takes at least the time asked for.
\<close>

inductive attempt_step :: "SeqlockReadWait \<times> nat \<Rightarrow> SeqlockReadWait \<times> nat \<Rightarrow> bool" where
  "even_version first load t1 w = (v, w1) \<Longrightarrow> retry t2 w1 = (True, slept, w2) \<Longrightarrow>
   t0 \<le> t1 \<Longrightarrow> t1 \<le> t2 \<Longrightarrow> t2 + slept \<le> t3 \<Longrightarrow> attempt_step (w, t0) (w2, t3)"

section \<open>The lock waiter\<close>

datatype wait_result = kSpun | kSlept | kExpired | kGiveUp

definition kSpinFor :: nat where "kSpinFor = us 20"
definition kWakeSpinFor :: nat where "kWakeSpinFor = us 5"
definition kConfirmFor :: nat where "kConfirmFor = us 2000"
definition kPollsPerClockRead :: nat where "kPollsPerClockRead = 64"

record LockHolderWait =
  lw_budget :: nat
  lw_cap :: nat
  lw_changed :: nat
  lw_started :: bool
  lw_confirming :: bool
  lw_holder :: u64
  lw_polls :: u32
  lw_sleeps :: u32
  lw_first_seen :: nat
  lw_deadline :: nat
  lw_spin_until :: nat
  lw_step :: nat

definition lock_wait :: "nat \<Rightarrow> nat \<Rightarrow> LockHolderWait" where
  "lock_wait budget cap = \<lparr>lw_budget = budget, lw_cap = cap, lw_changed = 0, lw_started = False, lw_confirming = False,
     lw_holder = 0, lw_polls = 0, lw_sleeps = 0, lw_first_seen = 0, lw_deadline = 0, lw_spin_until = 0, lw_step = us 10\<rparr>"

definition new_holder :: "u64 \<Rightarrow> nat \<Rightarrow> LockHolderWait \<Rightarrow> wait_result \<times> LockHolderWait" where
  "new_holder holder now w =
     (let w = (if lw_started w then w\<lparr>lw_changed := lw_changed w + (now - lw_first_seen w)\<rparr> else w) in
      if lw_cap w \<noteq> 0 \<and> lw_changed w \<ge> lw_cap w then (kGiveUp, w\<lparr>lw_started := False\<rparr>)
      else (kSpun, w\<lparr>lw_started := True, lw_confirming := False, lw_holder := holder, lw_polls := 0,
              lw_first_seen := now, lw_deadline := now + lw_budget w, lw_spin_until := now + kSpinFor, lw_step := us 10\<rparr>))"

definition timed_wait :: "nat \<Rightarrow> nat \<Rightarrow> LockHolderWait \<Rightarrow> wait_result \<times> LockHolderWait" where
  "timed_wait now woken w =
     (if now < lw_spin_until w then (kSpun, w)
      else if now \<ge> lw_deadline w then
        if \<not> lw_confirming w then (kSpun, w\<lparr>lw_confirming := True, lw_spin_until := now + kConfirmFor\<rparr>)
        else (kExpired, w)
      else (kSlept, w\<lparr>lw_step := snd (backoff_sleep (us 1000) (lw_step w) now (lw_deadline w)),
              lw_sleeps := lw_sleeps w + 1, lw_spin_until := woken + kWakeSpinFor\<rparr>))"

definition lock_wait_call :: "u64 \<Rightarrow> nat \<Rightarrow> nat \<Rightarrow> LockHolderWait \<Rightarrow> wait_result \<times> LockHolderWait" where
  "lock_wait_call holder now woken w =
     (if lw_started w \<and> holder = lw_holder w then
        let w = w\<lparr>lw_polls := lw_polls w + 1\<rparr> in
        if unat (lw_polls w) mod kPollsPerClockRead \<noteq> 0 then (kSpun, w) else timed_wait now woken w
      else new_holder holder now w)"

definition lock_wait_restart :: "nat \<Rightarrow> LockHolderWait \<Rightarrow> LockHolderWait" where
  "lock_wait_restart now w =
     (let w = (if lw_started w then w\<lparr>lw_changed := lw_changed w + (now - lw_first_seen w)\<rparr> else w)
      in w\<lparr>lw_started := False\<rparr>)"

definition lock_wait_held :: "nat \<Rightarrow> LockHolderWait \<Rightarrow> nat" where
  "lock_wait_held now w = (if lw_started w then now - lw_first_seen w else 0)"

section \<open>The reader's wait ends\<close>

lemma even_version_keeps:
  assumes "even_version first load now w = (v, w')"
  shows "rw_deadline w' = rw_deadline w" "rw_step w' = rw_step w"
    "attempts w' = attempts w \<or> attempts w \<le> 100 \<and> attempts w' = 100"
  using assms
  by (auto simp: even_version_def wait_for_even_def fast_phase_past_cap_def kFastAttempts_def
      split: if_splits prod.splits bool.splits)

text \<open>How many more attempts there can be.\<close>

definition attempts_left :: "SeqlockReadWait \<times> nat \<Rightarrow> nat" where
  "attempts_left s =
     (case s of (w, now) \<Rightarrow>
        if attempts w \<le> 100 then (100 - attempts w) + 502
        else if now \<ge> rw_deadline w then 0 else (rw_deadline w - now) div us 10 + 1)"

definition read_wait_inv :: "nat \<Rightarrow> SeqlockReadWait \<times> nat \<Rightarrow> bool" where
  "read_wait_inv t0 s \<longleftrightarrow>
     (case s of (w, now) \<Rightarrow> t0 \<le> now \<and> us 10 \<le> rw_step w \<and> (attempts w > 100 \<longrightarrow> t0 + kBudget \<le> rw_deadline w))"

lemma div_step: "0 < m \<Longrightarrow> b + m \<le> a \<Longrightarrow> b div m < a div (m :: nat)"
  by (metis div_add_self2 div_le_mono less_Suc_eq_le not_less_eq_eq add.commute Suc_eq_plus1 nat_neq_iff not_less_iff_gr_or_eq le_neq_implies_less order.refl)

lemma attempt_step_decreases:
  assumes "attempt_step s s'" and "read_wait_inv t0 s"
  shows "attempts_left s' < attempts_left s" and "read_wait_inv t0 s'"
proof -
  from assms(1) obtain first load t1 w v w1 t2 slept w2 t t3 where
    s: "s = (w, t)" "s' = (w2, t3)" and ev: "even_version first load t1 w = (v, w1)" and re: "retry t2 w1 = (True, slept, w2)"
    and t: "t \<le> t1" "t1 \<le> t2" "t2 + slept \<le> t3"
    by (auto elim!: attempt_step.cases)
  note k = even_version_keeps[OF ev]
  have inv: "t0 \<le> t" "us 10 \<le> rw_step w1" "attempts w1 > 100 \<Longrightarrow> t0 + kBudget \<le> rw_deadline w1"
    using assms(2) k by (auto simp: read_wait_inv_def s)
  have "attempts_left s' < attempts_left (w1, t2) \<and> read_wait_inv t0 s'"
  proof (cases "attempts w1 < 100")
    case True
    then have "w2 = w1\<lparr>attempts := attempts w1 + 1\<rparr>"
      using re by (simp add: retry_def kFastAttempts_def)
    then show ?thesis using True inv t by (simp add: attempts_left_def read_wait_inv_def s)
  next
    case False
    define w3 where "w3 = (if attempts w1 = 100 then w1\<lparr>attempts := 101, rw_deadline := t2 + kBudget\<rparr> else w1)"
    have now: "attempts w1 = 100 \<or> t2 < rw_deadline w1"
      and w2: "w2 = w3\<lparr>rw_step := snd (backoff_sleep kMaxSleep (rw_step w3) t2 (rw_deadline w3))\<rparr>"
      and sl: "slept = (if rw_deadline w3 - t2 < rw_step w3 then rw_deadline w3 - t2 else rw_step w3)"
      using re False by (auto simp: retry_def timed_retry_def kFastAttempts_def w3_def backoff_sleep_def Let_def split: if_splits)
    have w3: "attempts w3 > 100" "t2 < rw_deadline w3" "us 10 \<le> rw_step w3" "t0 + kBudget \<le> rw_deadline w3"
      using False now inv t by (auto simp: w3_def kBudget_def us_def)
    have adv: "rw_deadline w3 \<le> t3 \<or> t2 + us 10 \<le> t3"
      using sl t(3) w3(3) by (auto split: if_splits)
    have "attempts_left s' \<le> (rw_deadline w3 - t2) div us 10"
    proof (cases "rw_deadline w3 \<le> t3")
      case True
      then show ?thesis using w3 w2 by (simp add: attempts_left_def s)
    next
      case F: False
      then have "(rw_deadline w3 - t3) + us 10 \<le> rw_deadline w3 - t2" using adv by simp
      then have "(rw_deadline w3 - t3) div us 10 < (rw_deadline w3 - t2) div us 10"
        by (intro div_step) (simp_all add: us_def)
      then show ?thesis using w3 w2 F by (simp add: attempts_left_def s)
    qed
    moreover have "(rw_deadline w3 - t2) div us 10 < attempts_left (w1, t2)"
      using False now by (auto simp: attempts_left_def w3_def kBudget_def us_def)
    moreover have "read_wait_inv t0 s'"
      using w3 w2 inv t sl by (auto simp: read_wait_inv_def s backoff_sleep_def Let_def)
    ultimately show ?thesis by simp
  qed
  moreover have "attempts_left (w1, t2) \<le> attempts_left s"
  proof -
    have "(rw_deadline w - t2) div us 10 \<le> (rw_deadline w - t) div us 10"
      using t by (intro div_le_mono) simp
    then show ?thesis
      using k t by (auto simp: attempts_left_def s)
  qed
  ultimately show "attempts_left s' < attempts_left s" "read_wait_inv t0 s'" by simp_all
qed

lemma attempts_bounded:
  "(attempt_step ^^ n) s s' \<Longrightarrow> read_wait_inv t0 s \<Longrightarrow> n + attempts_left s' \<le> attempts_left s \<and> read_wait_inv t0 s'"
proof (induction n arbitrary: s')
  case 0
  then show ?case by simp
next
  case (Suc n)
  then obtain m where "(attempt_step ^^ n) s m" "attempt_step m s'" by auto
  then show ?case
    using Suc.IH[of m] Suc.prems(2) attempt_step_decreases[of m s' t0] by fastforce
qed

text \<open>
  C29.
  The lock-free probe's wait ends, and not too soon: however long a writer keeps a bucket
  busy, a probe makes at most 602 further attempts (100 fast ones, then sleeping ones) before
  it is told to give up, and it is never told to give up before five milliseconds have
  passed since it began.
\<close>

theorem read_wait_bounded:
  assumes "(attempt_step ^^ n) (read_wait, t0) (w, t)"
  shows "n \<le> 602 \<and> (t \<le> t' \<and> \<not> fst (retry t' w) \<longrightarrow> t0 + kBudget \<le> t')"
proof -
  have "read_wait_inv t0 (read_wait, t0)"
    by (simp add: read_wait_inv_def read_wait_def kFirstSleep_def)
  from attempts_bounded[OF assms this] have n: "n \<le> 602" and inv: "read_wait_inv t0 (w, t)"
    by (simp_all add: attempts_left_def read_wait_def)
  have "t0 + kBudget \<le> t'" if "\<not> fst (retry t' w)"
    using that inv
    by (auto simp: retry_def timed_retry_def kFastAttempts_def Let_def read_wait_inv_def split: if_splits prod.splits)
  then show ?thesis using n by simp
qed

lemma attempt_step_odd:
  assumes "retry now w = (True, slept, w')"
  shows "attempt_step (w, now) (w', now + slept)"
  using attempt_step.intros[of 0 "\<lambda>_. 0" now w 0 w now slept w' now "now + slept"] assms
  by (simp add: even_version_def)

lemma fast_attempts: "k \<le> 100 \<Longrightarrow> (attempt_step ^^ k) (read_wait, t) (read_wait\<lparr>attempts := k\<rparr>, t)"
proof (induction k)
  case 0
  then show ?case by (simp add: read_wait_def)
next
  case (Suc k)
  have "attempt_step (read_wait\<lparr>attempts := k\<rparr>, t) (read_wait\<lparr>attempts := Suc k\<rparr>, t)"
    using attempt_step_odd[of t "read_wait\<lparr>attempts := k\<rparr>" 0 "read_wait\<lparr>attempts := Suc k\<rparr>"] Suc.prems
    by (simp add: retry_def kFastAttempts_def)
  then show ?case using Suc by auto
qed

definition sample_timed_wait :: SeqlockReadWait where
  "sample_timed_wait = read_wait\<lparr>attempts := 101, rw_deadline := kBudget, rw_step := us 20\<rparr>"

theorem read_wait_bounded_witness:
  "kBudget \<le> us 6000 \<and> (101 :: nat) \<le> 602"
proof -
  have "attempt_step (read_wait\<lparr>attempts := 100\<rparr>, 0) (sample_timed_wait, us 10)"
    using attempt_step_odd[of 0 "read_wait\<lparr>attempts := 100\<rparr>" "us 10" sample_timed_wait]
    by (simp add: retry_def timed_retry_def kFastAttempts_def sample_timed_wait_def read_wait_def backoff_sleep_def
        kBudget_def kFirstSleep_def kMaxSleep_def us_def Let_def)
  then have "(attempt_step ^^ Suc 100) (read_wait, 0) (sample_timed_wait, us 10)"
    by (rule relpowp_Suc_I[OF fast_attempts[of 100 0, simplified]])
  from read_wait_bounded[OF this, of "us 6000"] show ?thesis
    by (simp add: retry_def timed_retry_def kFastAttempts_def sample_timed_wait_def read_wait_def kBudget_def us_def)
qed

section \<open>When a lock holder is presumed stuck\<close>

text \<open>
  The calls made on a waiter so far, the latest first: the time, and the holder the caller
  saw, or None where it saw the lock free.
\<close>

inductive lock_run :: "nat \<Rightarrow> nat \<Rightarrow> (nat \<times> u64 option) list \<Rightarrow> LockHolderWait \<Rightarrow> bool" for budget cap where
  lr_start: "lock_run budget cap [] (lock_wait budget cap)"
| lr_call: "lock_run budget cap log w \<Longrightarrow> (log = [] \<or> fst (hd log) \<le> now) \<Longrightarrow>
    lock_wait_call holder now woken w = (r, w') \<Longrightarrow> lock_run budget cap ((now, Some holder) # log) w'"
| lr_restart: "lock_run budget cap log w \<Longrightarrow> (log = [] \<or> fst (hd log) \<le> now) \<Longrightarrow>
    lock_run budget cap ((now, None) # log) (lock_wait_restart now w)"

definition seen_since :: "(nat \<times> u64 option) list \<Rightarrow> u64 \<Rightarrow> nat \<Rightarrow> bool" where
  "seen_since log h t \<longleftrightarrow> (\<exists>recent older. log = recent @ (t, Some h) # older \<and> (\<forall>e \<in> set recent. snd e = Some h))"

lemma seen_since_Cons: "seen_since log h t \<Longrightarrow> seen_since ((now, Some h) # log) h t"
  unfolding seen_since_def by (metis append_Cons set_ConsD snd_conv)

lemma seen_since_now: "seen_since ((now, Some h) # log) h now"
  unfolding seen_since_def by (rule exI[of _ "[]"]) simp

definition lock_inv :: "nat \<Rightarrow> nat \<Rightarrow> (nat \<times> u64 option) list \<Rightarrow> LockHolderWait \<Rightarrow> bool" where
  "lock_inv budget cap log w \<longleftrightarrow>
     lw_budget w = budget \<and> lw_cap w = cap \<and>
     (lw_started w \<longrightarrow> seen_since log (lw_holder w) (lw_first_seen w) \<and> lw_deadline w = lw_first_seen w + budget \<and>
        (lw_confirming w \<longrightarrow> lw_deadline w + kConfirmFor \<le> lw_spin_until w))"

lemma lock_inv_new_holder:
  assumes "lock_inv budget cap log w" and "new_holder h now w = (r, w')"
  shows "lock_inv budget cap ((now, Some h) # log) w'"
  using assms seen_since_now[of now h log] by (auto simp: lock_inv_def new_holder_def Let_def split: if_splits)

lemma lock_inv_timed:
  assumes "lock_inv budget cap log w" and "lw_started w" and "timed_wait now woken w = (r, w')"
  shows "lock_inv budget cap ((now, Some (lw_holder w)) # log) w'"
  using assms seen_since_Cons[of log "lw_holder w" "lw_first_seen w" now]
  by (auto simp: lock_inv_def timed_wait_def split: if_splits)

lemma lock_inv_run: "lock_run budget cap log w \<Longrightarrow> lock_inv budget cap log w"
proof (induction rule: lock_run.induct)
  case lr_start
  then show ?case by (simp add: lock_inv_def lock_wait_def)
next
  case (lr_call log w now holder woken r w')
  let ?w = "w\<lparr>lw_polls := lw_polls w + 1\<rparr>"
  have i: "lock_inv budget cap log ?w" using lr_call.IH by (auto simp: lock_inv_def)
  show ?case
  proof (cases "lw_started w \<and> holder = lw_holder w")
    case True
    show ?thesis
    proof (cases "unat (lw_polls ?w) mod kPollsPerClockRead = 0")
      case z: True
      then have "timed_wait now woken ?w = (r, w')"
        using True lr_call.hyps by (simp add: lock_wait_call_def Let_def)
      then show ?thesis using lock_inv_timed[OF i] True by simp
    next
      case False
      then have "w' = ?w" using True lr_call.hyps by (auto simp: lock_wait_call_def Let_def)
      then show ?thesis
        using i True seen_since_Cons[of log "lw_holder w" "lw_first_seen w" now] by (auto simp: lock_inv_def)
    qed
  next
    case False
    then have "new_holder holder now w = (r, w')"
      using lr_call.hyps by (auto simp: lock_wait_call_def)
    then show ?thesis using lock_inv_new_holder[OF lr_call.IH] by simp
  qed
next
  case (lr_restart log w now)
  then show ?case by (simp add: lock_inv_def lock_wait_restart_def Let_def)
qed

text \<open>
  C30.
  A lock is taken over only from a holder that really sat on it: a waiter reports the holder
  expired only when every look at the lock, from one at least the whole budget plus two
  milliseconds of confirmation ago until now, found that same holder (neither another one
  nor the lock free), and it gives up on changing holders only when it has a cap and the
  time spent on holders that went away has reached it.
\<close>

theorem lock_expires_only_stuck_holder:
  assumes "lock_run budget cap log w"
  shows "(lock_wait_call h now woken w = (kExpired, w') \<longrightarrow> (\<exists>t. seen_since log h t \<and> t + budget + kConfirmFor \<le> now)) \<and>
    (lock_wait_call h now woken w = (kGiveUp, w') \<longrightarrow> cap \<noteq> 0 \<and> cap \<le> lw_changed w')"
proof -
  note inv = lock_inv_run[OF assms]
  have "\<exists>t. seen_since log h t \<and> t + budget + kConfirmFor \<le> now" if e: "lock_wait_call h now woken w = (kExpired, w')"
  proof -
    have "lw_started w \<and> h = lw_holder w"
      using e by (auto simp: lock_wait_call_def new_holder_def Let_def split: if_splits)
    moreover from this have "lw_confirming w \<and> lw_spin_until w \<le> now"
      using e by (auto simp: lock_wait_call_def timed_wait_def Let_def split: if_splits)
    ultimately show ?thesis
      using inv by (intro exI[of _ "lw_first_seen w"]) (auto simp: lock_inv_def)
  qed
  moreover have "cap \<noteq> 0 \<and> cap \<le> lw_changed w'" if "lock_wait_call h now woken w = (kGiveUp, w')"
    using that inv by (auto simp: lock_wait_call_def timed_wait_def new_holder_def Let_def lock_inv_def split: if_splits)
  ultimately show ?thesis by simp
qed

text \<open>Polling the same holder without a clock read.\<close>

lemma lock_run_polls:
  assumes "lock_run b c log w" "lw_started w" "lw_holder w = h" "unat (lw_polls w) = 64 * m" "m < 2" "log = [] \<or> fst (hd log) \<le> now"
    and "k < 64"
  shows "\<exists>log'. lock_run b c log' (w\<lparr>lw_polls := of_nat (64 * m + k)\<rparr>) \<and> (log' = [] \<or> fst (hd log') \<le> now)"
  using assms(7)
proof (induction k)
  case 0
  have "lw_polls w = of_nat (64 * m)" by (simp only: assms(4)[symmetric] of_nat_unat ucast_id)
  then have "w\<lparr>lw_polls := of_nat (64 * m + 0)\<rparr> = w" by (cases w) simp
  then show ?case using assms by auto
next
  case (Suc k)
  then obtain log' where l: "lock_run b c log' (w\<lparr>lw_polls := of_nat (64 * m + k)\<rparr>)" "log' = [] \<or> fst (hd log') \<le> now" by auto
  have u: "unat (of_nat (64 * m + Suc k) :: u32) = 64 * m + Suc k"
    using assms(5) Suc.prems by (simp only: unat_of_nat) (simp add: take_bit_nat_eq_self)
  have "(64 * m + Suc k) mod 64 \<noteq> 0" using Suc.prems by (simp only: mod_mult_self4) simp
  then have "lock_wait_call h now now (w\<lparr>lw_polls := of_nat (64 * m + k)\<rparr>) = (kSpun, w\<lparr>lw_polls := of_nat (64 * m + Suc k)\<rparr>)"
    using assms(2,3) u by (simp add: lock_wait_call_def Let_def kPollsPerClockRead_def add.commute del: of_nat_add)
  from lock_run.lr_call[OF l this] show ?case by auto
qed

lemma lock_run_expires:
  "\<exists>log w w'. lock_run (us 100) 0 log w \<and> lock_wait_call 5 (us 2200) (us 2200) w = (kExpired, w')"
proof -
  define w1 where "w1 = (lock_wait (us 100) 0)\<lparr>lw_started := True, lw_holder := 5, lw_deadline := us 100, lw_spin_until := us 20\<rparr>"
  define w2 where "w2 = w1\<lparr>lw_polls := 64, lw_confirming := True, lw_spin_until := us 2200\<rparr>"
  have "lock_wait_call 5 0 0 (lock_wait (us 100) 0) = (kSpun, w1)"
    by (simp add: lock_wait_call_def new_holder_def lock_wait_def w1_def kSpinFor_def us_def)
  then have r1: "lock_run (us 100) 0 [(0, Some 5)] w1"
    using lock_run.lr_call[OF lock_run.lr_start, of 0 5 0] by simp
  obtain log1 where l1: "lock_run (us 100) 0 log1 (w1\<lparr>lw_polls := 63\<rparr>)" "log1 = [] \<or> fst (hd log1) \<le> us 200"
    using lock_run_polls[OF r1, of 5 0 "us 200" 63] by (auto simp: w1_def lock_wait_def)
  have "lock_wait_call 5 (us 200) (us 200) (w1\<lparr>lw_polls := 63\<rparr>) = (kSpun, w2)"
    by (simp add: lock_wait_call_def Let_def kPollsPerClockRead_def timed_wait_def w1_def w2_def lock_wait_def kConfirmFor_def us_def)
  note r2 = lock_run.lr_call[OF l1 this]
  obtain log2 where l2: "lock_run (us 100) 0 log2 (w2\<lparr>lw_polls := 127\<rparr>)"
    using lock_run_polls[OF r2, of 5 1 "us 2200" 63] by (auto simp: w1_def w2_def lock_wait_def us_def)
  have "lock_wait_call 5 (us 2200) (us 2200) (w2\<lparr>lw_polls := 127\<rparr>) = (kExpired, w2\<lparr>lw_polls := 128\<rparr>)"
    by (simp add: lock_wait_call_def Let_def kPollsPerClockRead_def timed_wait_def w1_def w2_def lock_wait_def us_def)
  then show ?thesis using l2 by blast
qed

theorem lock_expires_only_stuck_holder_witness:
  "\<exists>log w w' t. lock_run (us 100) 0 log w \<and> lock_wait_call 5 (us 2200) (us 2200) w = (kExpired, w') \<and>
     seen_since log 5 t \<and> t + us 100 + kConfirmFor \<le> us 2200"
proof -
  obtain log w w' where "lock_run (us 100) 0 log w" "lock_wait_call 5 (us 2200) (us 2200) w = (kExpired, w')"
    using lock_run_expires by blast
  then show ?thesis
    using lock_expires_only_stuck_holder[of "us 100" 0 log w 5 "us 2200" "us 2200" w'] by blast
qed

end
