(* ===== verification/Spec2Isabelle.thy ===== *)
theory Spec2Isabelle
  imports Volume_Properties Seqlock Wait_Loops Ram_Lru Ram_Clfus_Cache
begin

text \<open>
  A verification of the cyclone cache, a persistent object cache in C++ (headers in
  \<^verbatim>\<open>src/include/cyclone\<close>, code in \<^verbatim>\<open>src/src\<close>).

  \<^bold>\<open>The program.\<close>  A volume is one file, cut into stripes (\<^verbatim>\<open>core/volume\<close>).  A stripe is a circular
  log: documents (\<^verbatim>\<open>core/document\<close>) are written at a cursor that wraps around, and a directory of
  four-entry buckets (\<^verbatim>\<open>core/directory\<close>) maps a key (\<^verbatim>\<open>core/key\<close>, \<^verbatim>\<open>core/sha256\<close>) to an offset.  Readers
  take no lock: they probe a bucket under a seqlock, check the document (key, shape, CRC-32C,
  pass stamp) and lend out pointers into the mapped file.  A lent range is protected by a borrow
  count and a lease; the writer may hand bytes to the forward fill only after the exposure
  generation has passed their threshold and the gate found no live borrow.  Above the volume a
  RAM tier (\<^verbatim>\<open>ram_cache\<close>) keeps copies of hot documents.

  \<^bold>\<open>Theories.\<close>
  \<^item> \<open>Cyclone_Prelude\<close>: machine words, byte strings, error codes, the collections \<open>word_bit\<close>, \<open>layout\<close>,
    \<open>frame\<close> and \<open>crc\<close>.
  \<^item> \<open>Fast_Div\<close>, \<open>Borrow_Slot\<close>, \<open>Stripe_Geometry\<close>: class FastDivU64, the packed borrow slots and the
    layout computations.  Division by multiplication is exact for every divisor and dividend; a
    borrow slot counts exactly the borrows of its generation; stripes tile the volume and chunks
    cover a stripe's data area.
  \<^item> \<open>Stripe_State\<close>, \<open>Stripe_Writer\<close>: struct Stripe, its snapshots and admission rules, leases, the wrap
    gate, frontier advances, crash repair, and the reservation and commit of a write slot
    (Volume::allocate_write_slot, commit_write_slot and what they call).  \<open>Stripe_Effects\<close>,
    \<open>Stripe_Alloc\<close> and \<open>Stripe_Safety\<close> hold the lemmas and \<open>Stripe_Properties\<close> the results: a borrowed
    range is never written while the borrow is live, an admitted document keeps its bytes until its
    threshold is passed, refused reservations change nothing a reader sees, the gate opens again
    once the lease ceiling has passed, and a crash in any step of a wrap is repaired.
  \<^item> \<open>Crc32c\<close>, \<open>Document\<close>, \<open>Sha256\<close>, \<open>Cache_Key\<close>: checksum routines (all implementations agree with the
    bit-serial CRC, bursts are detected), the document format (round trips, in-place updates keep a
    document servable, corruption is detected), SHA-256 streaming and the hexadecimal form of keys.
  \<^item> \<open>Dir_Entry\<close>, \<open>Directory\<close>, \<open>Directory_Choice\<close>, \<open>Directory_Properties\<close>: the packed entry, the directory with
    its insert, removals and image, the choice of the slot an insert takes, and the directory's
    invariant.  \<open>Seqlock\<close> interleaves a probe with a writer, one memory access per step;
    \<open>Wait_Loops\<close> bounds the reader's and the lock waiter's loops.
  \<^item> \<open>Alternate\<close>: alternate identifiers and the selectors.  \<open>Ram_Cache\<close>, \<open>Ram_Lru\<close>, \<open>Ram_Clfus\<close>,
    \<open>Ram_Clfus_Inv\<close>, \<open>Ram_Clfus_Cache\<close>: the contract of a RAM cache and its two implementations.
  \<^item> \<open>Volume_IO\<close>, \<open>Volume_State\<close>, \<open>Volume_Read\<close>, \<open>Volume_Write\<close>: class Volume on top of all of these.  The
    positional write loops, the mapped document, the checksum-verdict cache and the stripe selection;
    Volume::read_sync and exists_sync with their retry loops; the write handles, commit_write with its
    reservation, slot fill, election and publish loop, and remove_sync.  The file is a byte list, the RAM
    cache any implementation of the contract \<open>ram_cache\<close>.
  \<^item> \<open>Volume_Image\<close>, \<open>Volume_Publish\<close>, \<open>Volume_Lookup\<close>, \<open>Volume_Commit\<close>, \<open>Volume_Remove\<close>: the bytes a filled slot
    holds, the entry a publish leaves in its bucket, what a read finds or misses, and the effect of a
    commit and of a removal on a well-formed stripe.  \<open>Volume_Properties\<close> holds the results: a written
    object reads back, a removed key is gone, a handle lent from the file is of its key and protected
    by its borrow whatever other threads do, a refused commit publishes nothing, and a document
    committed too close to the end of the file cannot be read.

  \<^bold>\<open>Conventions.\<close>  A C++ object is a record passed and returned; a call that fails returns a value of
  the sum type \<open>expected\<close>; undefined behaviour is \<open>None\<close>.  What the operating system, another process or
  another thread decides (clock readings, lock outcomes, allocation addresses, revalidation verdicts,
  how many bytes a write accepts, what others do to a volume between two steps) is an argument, and
  the theorems quantify over it.  Stripe offsets, generations and times are natural numbers,
  bounded by the well-formedness of the geometry; stamps, packed words, hashes and everything
  stored in the file keep their machine width.  Loops are recursive functions with a termination
  proof; none needs fuel.  The interfaces are locales, each interpreted on the code's own
  definitions: \<open>high_multiply\<close>, \<open>crc_instructions\<close>, \<open>bucket_operation\<close>, \<open>storage_selector\<close>, \<open>ram_cache\<close>.

  \<^bold>\<open>Not modelled.\<close>  The running average of the CLFUS cache is rational, not a double.  The memory model is
  sequentially consistent.  Opening, resetting, recovering and syncing volumes, fork handling and
  memory mapping are system calls.  The round trip and removal results are about a stripe with the
  in-memory directory and no interference; the shared-memory directory, the alternate chains, the
  filling of the RAM cache by read_alternate_sync, the cache facade, the optimisation engine, the C
  interface and the HTTP plugin are outside this development.
\<close>

end
